(* ===== verification/Prelude.thy ===== *)
theory Prelude
  imports Main "HOL-Library.Word" "HOL-Library.Sublist"
begin

text \<open>
  Shared vocabulary of the development: the machine integers of the C sources, C strings as
  \<open>char list\<close>s, the return codes of libtds, the \<^theory_text>\<open>named_theorems\<close> collections and the
  generic lemmas on lists that the component theories rest on.

  A C string is a \<open>string\<close> without its terminator; a pointer into it is the suffix
  that starts at the pointer, so \<open>p + 1\<close> is the tail and reading at the end gives
  the terminator (\<open>deref\<close>).
\<close>

unbundle bit_operations_syntax

type_synonym byte = "8 word"
type_synonym u16 = "16 word"
type_synonym u32 = "32 word"
type_synonym u64 = "64 word"

text \<open>\<open>scan_simps\<close> collects the unfolding rules of the text scanners,
  \<open>wire_simps\<close> those of the packet layer, \<open>num_simps\<close> those of the number
  conversions, \<open>ring_simps\<close> those of the row buffer.\<close>

named_theorems scan_simps
named_theorems wire_simps
named_theorems num_simps
named_theorems ring_simps

subsection \<open>C strings\<close>

abbreviation NUL :: char where
  "NUL \<equiv> CHR 0x00"

definition deref :: "string \<Rightarrow> char" where
  "deref s = (case s of [] \<Rightarrow> NUL | c # _ \<Rightarrow> c)"

lemma deref_simps [simp]:
  "deref [] = NUL"
  "deref (c # s) = c"
  by (simp_all add: deref_def)

text \<open>A C string holds no terminator inside.\<close>

definition cstring :: "string \<Rightarrow> bool" where
  "cstring s \<longleftrightarrow> NUL \<notin> set s"

lemma cstring_simps [simp]:
  "cstring []"
  "cstring (c # s) \<longleftrightarrow> c \<noteq> NUL \<and> cstring s"
  "cstring (s @ t) \<longleftrightarrow> cstring s \<and> cstring t"
  by (auto simp: cstring_def)

lemma suffix_length_less: "suffix s (c # t) \<Longrightarrow> s \<noteq> c # t \<Longrightarrow> suffix s t"
  by (simp add: suffix_Cons)

subsection \<open>Decimal numerals\<close>

text \<open>What \<open>printf\<close> prints for \<open>%u\<close>, and the value a digit string denotes.\<close>

definition digit :: "nat \<Rightarrow> char" where
  "digit d = char_of (48 + d)"

definition digit_val :: "char \<Rightarrow> nat" where
  "digit_val c = of_char c - 48"

definition is_digit :: "char \<Rightarrow> bool" where
  "is_digit c \<longleftrightarrow> 48 \<le> (of_char c :: nat) \<and> (of_char c :: nat) \<le> 57"

fun show_nat :: "nat \<Rightarrow> string" where
  "show_nat n = (if n < 10 then [digit n] else show_nat (n div 10) @ [digit (n mod 10)])"

declare show_nat.simps [simp del]

definition read_nat :: "string \<Rightarrow> nat" where
  "read_nat = foldl (\<lambda>n c. n * 10 + digit_val c) 0"

lemma of_char_digit [simp]: "d < 10 \<Longrightarrow> of_char (digit d) = (48 + d :: nat)"
  by (simp add: digit_def)

lemma digit_val_digit [simp]: "d < 10 \<Longrightarrow> digit_val (digit d) = d"
  by (simp add: digit_val_def)

lemma is_digit_digit [simp]: "d < 10 \<Longrightarrow> is_digit (digit d)"
  by (simp add: is_digit_def)

lemma digit_val_less [simp]: "is_digit c \<Longrightarrow> digit_val c < 10"
  by (auto simp: is_digit_def digit_val_def)

lemma digit_digit_val [simp]: "is_digit c \<Longrightarrow> digit (digit_val c) = c"
  by (simp add: is_digit_def digit_def digit_val_def)

lemma read_nat_snoc: "read_nat (s @ [c]) = read_nat s * 10 + digit_val c"
  by (simp add: read_nat_def)

lemma read_nat_append: "read_nat (s @ t) = read_nat s * 10 ^ length t + read_nat t"
proof (induction t rule: rev_induct)
  case Nil
  show ?case by (simp add: read_nat_def)
next
  case (snoc c t)
  have "read_nat (s @ t @ [c]) = read_nat (s @ t) * 10 + digit_val c"
    using read_nat_snoc [of "s @ t" c] by simp
  with snoc show ?case by (simp only: read_nat_snoc length_append_singleton power_Suc) simp
qed

lemma read_nat_simps [simp]:
  "read_nat [] = 0"
  "read_nat [c] = digit_val c"
  by (simp_all add: read_nat_def)

lemma read_nat_Cons: "read_nat (c # s) = digit_val c * 10 ^ length s + read_nat s"
  using read_nat_append [of "[c]" s] by simp

lemma read_nat_less: "list_all is_digit s \<Longrightarrow> read_nat s < 10 ^ length s"
proof (induction s)
  case (Cons c s)
  then have "digit_val c < 10" "read_nat s < 10 ^ length s" by simp_all
  then have "digit_val c * 10 ^ length s + read_nat s < (digit_val c + 1) * 10 ^ length s"
    by simp
  also have "\<dots> \<le> 10 * 10 ^ length s"
    using \<open>digit_val c < 10\<close> by (intro mult_le_mono1) simp
  finally show ?case by (simp add: read_nat_Cons)
qed simp

lemma show_nat_digits: "list_all is_digit (show_nat n)"
proof (induction n rule: show_nat.induct)
  case (1 n)
  then show ?case by (subst show_nat.simps) simp
qed

lemma read_show_nat [simp]: "read_nat (show_nat n) = n"
proof (induction n rule: show_nat.induct)
  case (1 n)
  then show ?case by (subst show_nat.simps) (simp add: read_nat_append)
qed

lemma show_nat_nonempty [simp]: "show_nat n \<noteq> []"
  by (subst show_nat.simps) simp

subsection \<open>Return codes\<close>

text \<open>\<open>TDSRET\<close> of \<open>tds.h\<close>: the codes the modelled functions return.\<close>

datatype tdsret = TDS_SUCCESS | TDS_FAIL

end
