(* ===== verification/Query_Text.thy ===== *)
theory Query_Text
  imports Prelude
begin

text \<open>
  The text scanners of \<open>src/tds/query.c\<close>: comments, quoted strings, \<open>?\<close> placeholders
  in the client character set and in UCS-2LE, identifier and string quoting, and the
  rewriting of placeholders into named parameters for TDS 5.0.

  The functions that are called at a delimiter (\<open>tds_skip_comment\<close>,
  \<open>tds_skip_quoted\<close>) take the character under the pointer and the rest of the
  string, so that the pointer is never at the terminator.
\<close>

subsection \<open>Comments and quoted strings\<close>

text \<open>The loop of the \<open>--\<close> branch, from the position of the incremented pointer.\<close>

fun skip_line :: "string \<Rightarrow> string" where
  "skip_line [] = []"
| "skip_line (c # cs) = (if c = CHR 0x0A then cs else skip_line cs)"

text \<open>The loop of the \<open>/*\<close> branch.\<close>

fun skip_block :: "string \<Rightarrow> string" where
  "skip_block [] = []"
| "skip_block (c # cs) =
     (if c = CHR ''*'' \<and> deref cs = CHR ''/'' then tl cs else skip_block cs)"

definition tds_skip_comment :: "char \<Rightarrow> string \<Rightarrow> string" where
  "tds_skip_comment c cs =
     (if c = CHR ''-'' \<and> deref cs = CHR ''-'' then skip_line cs
      else if c = CHR ''/'' \<and> deref cs = CHR ''*'' then skip_block (tl cs)
      else cs)"

text \<open>The loop of \<open>tds_skip_quoted\<close>: the argument is the string at \<open>*++p\<close>.\<close>

fun skip_quoted_loop :: "char \<Rightarrow> string \<Rightarrow> string" where
  "skip_quoted_loop q [] = []"
| "skip_quoted_loop q (c # cs) =
     (if c = q then
        (case cs of
           [] \<Rightarrow> []
         | d # ds \<Rightarrow> if d \<noteq> q then d # ds else skip_quoted_loop q ds)
      else skip_quoted_loop q cs)"

definition tds_skip_quoted :: "char \<Rightarrow> string \<Rightarrow> string" where
  "tds_skip_quoted c cs =
     (let quote = (if c = CHR ''['' then CHR '']'' else c)
      in skip_quoted_loop quote cs)"

text \<open>The labels of the \<open>switch\<close> on the current character.\<close>

datatype scan_label = Quote_open | Comment_start | Question_mark | At_sign | Other_char

definition scan_label :: "char \<Rightarrow> scan_label" where
  "scan_label c =
     (if c = CHR 0x27 \<or> c = CHR 0x22 \<or> c = CHR ''['' then Quote_open
      else if c = CHR ''-'' \<or> c = CHR ''/'' then Comment_start
      else if c = CHR ''?'' then Question_mark
      else if c = CHR ''@'' then At_sign
      else Other_char)"

lemma length_skip_line: "length (skip_line s) \<le> length s"
  by (induction s) auto

lemma length_skip_block: "length (skip_block s) \<le> length s"
  by (induction s) auto

lemma length_skip_quoted_loop: "length (skip_quoted_loop q s) \<le> length s"
proof (induction q s rule: skip_quoted_loop.induct)
  case (2 q c cs)
  then show ?case by (cases cs) (simp_all add: le_SucI)
qed simp

lemma length_tds_skip_comment: "length (tds_skip_comment c cs) \<le> length cs"
proof -
  have "length (skip_block (tl cs)) \<le> length cs"
    using length_skip_block [of "tl cs"] by simp
  then show ?thesis by (simp add: tds_skip_comment_def length_skip_line)
qed

lemma length_tds_skip_quoted: "length (tds_skip_quoted c cs) \<le> length cs"
  by (simp add: tds_skip_quoted_def Let_def length_skip_quoted_loop)

subsection \<open>Placeholders in the client character set\<close>

text \<open>The loop of \<open>tds_next_placeholder\<close>; \<open>None\<close> is the \<open>NULL\<close> result.\<close>

function next_placeholder :: "string \<Rightarrow> string option" where
  "next_placeholder [] = None"
| "next_placeholder (c # cs) =
     (case scan_label c of
        Quote_open \<Rightarrow> next_placeholder (tds_skip_quoted c cs)
      | Comment_start \<Rightarrow> next_placeholder (tds_skip_comment c cs)
      | Question_mark \<Rightarrow> Some (c # cs)
      | At_sign \<Rightarrow> next_placeholder cs
      | Other_char \<Rightarrow> next_placeholder cs)"
  by pat_completeness auto
termination
  by (relation "measure length")
    (simp_all add: length_tds_skip_quoted length_tds_skip_comment le_imp_less_Suc)

definition tds_next_placeholder :: "string option \<Rightarrow> string option" where
  "tds_next_placeholder start = (case start of None \<Rightarrow> None | Some p \<Rightarrow> next_placeholder p)"


text \<open>\<open>tds_count_placeholders\<close>: restart one character after each placeholder.\<close>

lemma length_next_placeholder: "next_placeholder s = Some e \<Longrightarrow> length e \<le> length s \<and> e \<noteq> []"
proof (induction s rule: next_placeholder.induct)
  case (2 c cs)
  then show ?case
    using length_tds_skip_quoted [of c cs] length_tds_skip_comment [of c cs]
    by (cases "scan_label c") force+
qed simp

function tds_count_placeholders :: "string \<Rightarrow> nat" where
  "tds_count_placeholders query =
     (case tds_next_placeholder (Some query) of
        None \<Rightarrow> 0
      | Some p \<Rightarrow> Suc (tds_count_placeholders (tl p)))"
  by pat_completeness auto
termination
proof (relation "measure length")
  fix query p
  assume "tds_next_placeholder (Some query) = Some p"
  then have "length p \<le> length query \<and> p \<noteq> []"
    by (simp add: tds_next_placeholder_def length_next_placeholder)
  then show "(tl p, query) \<in> measure length" by (cases p) auto
qed simp

declare tds_count_placeholders.simps [simp del]

lemma count_placeholders_None:
  "next_placeholder s = None \<Longrightarrow> tds_count_placeholders s = 0"
  by (subst tds_count_placeholders.simps) (simp add: tds_next_placeholder_def)

lemma count_placeholders_Some:
  "next_placeholder s = Some e \<Longrightarrow>
     tds_count_placeholders s = Suc (tds_count_placeholders (tl e))"
  by (subst tds_count_placeholders.simps) (simp add: tds_next_placeholder_def)

subsection \<open>Placeholders in UCS-2LE\<close>

text \<open>A UCS-2LE text is a list of code units, each the pair of its bytes \<open>p[0], p[1]\<close>; the
  scanners step by two bytes and never split a unit.\<close>

type_synonym ucs2 = "(char \<times> char) list"

abbreviation ascii :: "char \<Rightarrow> char \<times> char" where
  "ascii c \<equiv> (c, NUL)"

fun skip_line_ucs2le :: "ucs2 \<Rightarrow> ucs2" where
  "skip_line_ucs2le [] = []"
| "skip_line_ucs2le (u # us) = (if u = ascii (CHR 0x0A) then us else skip_line_ucs2le us)"

fun skip_block_ucs2le :: "ucs2 \<Rightarrow> ucs2" where
  "skip_block_ucs2le [] = []"
| "skip_block_ucs2le [u] = []"
| "skip_block_ucs2le (u # v # us) =
     (if u = ascii (CHR ''*'') \<and> v = ascii (CHR ''/'') then us else skip_block_ucs2le (v # us))"

definition tds_skip_comment_ucs2le :: "char \<times> char \<Rightarrow> ucs2 \<Rightarrow> ucs2" where
  "tds_skip_comment_ucs2le u us =
     (if u = ascii (CHR ''-'') \<and> us \<noteq> [] \<and> hd us = ascii (CHR ''-'') then skip_line_ucs2le us
      else if u = ascii (CHR ''/'') \<and> us \<noteq> [] \<and> hd us = ascii (CHR ''*'')
      then skip_block_ucs2le (tl us)
      else us)"

fun skip_quoted_loop_ucs2le :: "char \<Rightarrow> ucs2 \<Rightarrow> ucs2" where
  "skip_quoted_loop_ucs2le q [] = []"
| "skip_quoted_loop_ucs2le q (u # us) =
     (if u = ascii q then
        (case us of
           [] \<Rightarrow> []
         | v # vs \<Rightarrow> if v \<noteq> ascii q then v # vs else skip_quoted_loop_ucs2le q vs)
      else skip_quoted_loop_ucs2le q us)"

definition tds_skip_quoted_ucs2le :: "char \<Rightarrow> ucs2 \<Rightarrow> ucs2" where
  "tds_skip_quoted_ucs2le c us =
     (let quote = (if c = CHR ''['' then CHR '']'' else c)
      in skip_quoted_loop_ucs2le quote us)"

text \<open>\<open>isalnum\<close> in the C locale.\<close>

definition isalnum :: "char \<Rightarrow> bool" where
  "isalnum c \<longleftrightarrow> (let n = (of_char c :: nat) in
     48 \<le> n \<and> n \<le> 57 \<or> 65 \<le> n \<and> n \<le> 90 \<or> 97 \<le> n \<and> n \<le> 122)"

lemma length_skip_line_ucs2le: "length (skip_line_ucs2le s) \<le> length s"
  by (induction s) auto

lemma length_skip_block_ucs2le: "length (skip_block_ucs2le s) \<le> length s"
proof (induction s rule: skip_block_ucs2le.induct)
  case (3 u v us)
  show ?case
  proof (cases "u = ascii (CHR ''*'') \<and> v = ascii (CHR ''/'')")
    case False
    with 3 have "length (skip_block_ucs2le (v # us)) \<le> length (v # us)" by blast
    with False show ?thesis by simp
  qed simp
qed simp_all

lemma length_skip_quoted_ucs2le: "length (skip_quoted_loop_ucs2le q s) \<le> length s"
proof (induction q s rule: skip_quoted_loop_ucs2le.induct)
  case (2 q u us)
  then show ?case by (cases us) (simp_all add: le_SucI)
qed simp

lemma length_tds_skip_quoted_ucs2le: "length (tds_skip_quoted_ucs2le c us) \<le> length us"
  by (simp add: tds_skip_quoted_ucs2le_def Let_def length_skip_quoted_ucs2le)

lemma length_tds_skip_comment_ucs2le: "length (tds_skip_comment_ucs2le u us) \<le> length us"
proof -
  have "length (skip_block_ucs2le (tl us)) \<le> length us"
    using length_skip_block_ucs2le [of "tl us"] by simp
  then show ?thesis by (simp add: tds_skip_comment_ucs2le_def length_skip_line_ucs2le)
qed

text \<open>\<open>prev\<close> is the character before the pointer; the result \<open>[]\<close> is the pointer
  \<open>end\<close>.\<close>

function next_placeholder_ucs2le :: "char \<Rightarrow> bool \<Rightarrow> ucs2 \<Rightarrow> ucs2" where
  "next_placeholder_ucs2le prev named [] = []"
| "next_placeholder_ucs2le prev named ((c, h) # us) =
     (if h \<noteq> NUL then next_placeholder_ucs2le (CHR '' '') named us
      else case scan_label c of
        Quote_open \<Rightarrow> next_placeholder_ucs2le c named (tds_skip_quoted_ucs2le c us)
      | Comment_start \<Rightarrow>
          next_placeholder_ucs2le (CHR '' '') named (tds_skip_comment_ucs2le (c, h) us)
      | Question_mark \<Rightarrow> (c, h) # us
      | At_sign \<Rightarrow>
          if named \<and> \<not> isalnum prev then (c, h) # us else next_placeholder_ucs2le c named us
      | Other_char \<Rightarrow> next_placeholder_ucs2le c named us)"
  by pat_completeness auto
termination
  by (relation "measure (length \<circ> snd \<circ> snd)")
    (simp_all add: length_tds_skip_quoted_ucs2le length_tds_skip_comment_ucs2le le_imp_less_Suc)

definition tds_next_placeholder_ucs2le :: "ucs2 \<Rightarrow> bool \<Rightarrow> ucs2" where
  "tds_next_placeholder_ucs2le start named = next_placeholder_ucs2le (CHR '' '') named start"

lemma length_next_placeholder_ucs2le:
  "length (next_placeholder_ucs2le prev named s) \<le> length s"
proof (induction prev named s rule: next_placeholder_ucs2le.induct)
  case (2 prev named c h us)
  then show ?case
    using length_tds_skip_quoted_ucs2le [of c us] length_tds_skip_comment_ucs2le [of "(c, h)" us]
    by (cases "h = NUL"; cases "scan_label c") force+
qed simp

function tds_count_placeholders_ucs2le :: "ucs2 \<Rightarrow> nat" where
  "tds_count_placeholders_ucs2le query =
     (case tds_next_placeholder_ucs2le query False of
        [] \<Rightarrow> 0
      | u # us \<Rightarrow> Suc (tds_count_placeholders_ucs2le us))"
  by pat_completeness auto
termination
proof (relation "measure length")
  fix query :: ucs2 and u us
  assume "tds_next_placeholder_ucs2le query False = u # us"
  then show "(us, query) \<in> measure length"
    using length_next_placeholder_ucs2le [of "CHR '' ''" False query]
    by (simp add: tds_next_placeholder_ucs2le_def)
qed simp

declare tds_count_placeholders_ucs2le.simps [simp del]

subsection \<open>Quoting identifiers and strings\<close>

text \<open>The copying loop of \<open>tds_quote\<close>: the quoting character is doubled.\<close>

fun quote_body :: "char \<Rightarrow> string \<Rightarrow> string" where
  "quote_body quoting [] = []"
| "quote_body quoting (c # cs) =
     (if c = quoting then quoting # c # quote_body quoting cs else c # quote_body quoting cs)"

definition tds_quote :: "char \<Rightarrow> string \<Rightarrow> string" where
  "tds_quote quoting s =
     (if quoting = CHR '']'' then CHR ''['' else quoting) # quote_body quoting s @ [quoting]"

text \<open>The size pass, for a \<open>NULL\<close> buffer.\<close>

definition tds_quote_size :: "char \<Rightarrow> string \<Rightarrow> nat" where
  "tds_quote_size quoting s = 2 + length s + length (filter (\<lambda>c. c = quoting) s)"

text \<open>\<open>TDS_IS_MSSQL\<close> and \<open>TDS_SYB_VER(12, 5, 1)\<close> on the 32-bit
  \<open>product_version\<close>.\<close>

definition TDS_IS_MSSQL :: "u32 \<Rightarrow> bool" where
  "TDS_IS_MSSQL product_version \<longleftrightarrow> product_version AND 0x80000000 \<noteq> 0"

definition syb_ver_12_5_1 :: u32 where
  "syb_ver_12_5_1 = (push_bit 24 12 OR push_bit 16 5) OR push_bit 8 1"

text \<open>The \<open>need quote\<close> loop; \<open>first\<close> says \<open>i = 0\<close>.\<close>

definition ident_char :: "bool \<Rightarrow> char \<Rightarrow> bool" where
  "ident_char first c \<longleftrightarrow> (let n = (of_char c :: nat) in
     97 \<le> n \<and> n \<le> 122 \<or> 65 \<le> n \<and> n \<le> 90 \<or> \<not> first \<and> 48 \<le> n \<and> n \<le> 57 \<or> c = CHR ''_'')"

fun needs_quote :: "bool \<Rightarrow> string \<Rightarrow> bool" where
  "needs_quote first [] = False"
| "needs_quote first (c # cs) = (if ident_char first c then needs_quote False cs else True)"

definition tds_quote_id :: "u32 \<Rightarrow> string \<Rightarrow> string" where
  "tds_quote_id product_version s =
     (if TDS_IS_MSSQL product_version \<or> product_version \<ge> syb_ver_12_5_1
      then tds_quote (CHR '']'') s
      else if needs_quote True s then tds_quote (CHR 0x22) s
      else s)"

definition tds_quote_id_rpc :: "u32 \<Rightarrow> string \<Rightarrow> string" where
  "tds_quote_id_rpc product_version s =
     tds_quote (if TDS_IS_MSSQL product_version then CHR '']'' else CHR 0x22) s"

definition tds_quote_string :: "string \<Rightarrow> string" where
  "tds_quote_string s = tds_quote (CHR 0x27) s"

subsection \<open>Named parameters for TDS 5.0\<close>

text \<open>\<open>tds5_fix_dot_query\<close>: \<open>num_cols\<close> is \<open>None\<close> for \<open>params == NULL\<close>. The result is
  the new query, \<open>None\<close> the \<open>memory_error\<close> exit, taken when there are more placeholders
  than parameters, together with the column names given to the first parameters (they stay
  renamed when the function fails).\<close>

definition param_name :: "nat \<Rightarrow> string" where
  "param_name i = ''@P'' @ show_nat (i + 1)"

function fix_dot_loop :: "nat option \<Rightarrow> nat \<Rightarrow> string \<Rightarrow> string option \<times> string list" where
  "fix_dot_loop num_cols i s =
     (case next_placeholder s of
        None \<Rightarrow> (Some s, [])
      | Some e \<Rightarrow>
          (case num_cols of
             None \<Rightarrow> (None, [])
           | Some n \<Rightarrow>
               if i \<ge> n then (None, [])
               else (case fix_dot_loop num_cols (i + 1) (tl e) of
                       (rest, names) \<Rightarrow>
                         (map_option (\<lambda>r. take (length s - length e) s @ param_name i @ r) rest,
                          param_name i # names))))"
  by pat_completeness auto
termination
proof (relation "measure (length \<circ> snd \<circ> snd)")
  fix num_cols :: "nat option" and i :: nat and s e n
  assume "next_placeholder s = Some e"
  then have "length e \<le> length s \<and> e \<noteq> []" by (rule length_next_placeholder)
  then show "((num_cols, i + 1, tl e), num_cols, i, s) \<in> measure (length \<circ> snd \<circ> snd)"
    by (cases e) auto
qed simp

declare fix_dot_loop.simps [simp del]

definition tds5_fix_dot_query :: "string \<Rightarrow> nat option \<Rightarrow> string option \<times> string list" where
  "tds5_fix_dot_query query num_cols = fix_dot_loop num_cols 0 query"

subsection \<open>Lemmas: where the scanners stop\<close>

text \<open>If a scanner stops before the end, it depends on the text it has passed and on one
  character of what follows only.\<close>

lemma skip_line_stop:
  "skip_line s = e \<Longrightarrow> e \<noteq> [] \<Longrightarrow> \<exists>pre. s = pre @ e \<and> (\<forall>t. skip_line (pre @ t) = t)"
proof (induction s)
  case (Cons c s)
  show ?case
  proof (cases "c = CHR 0x0A")
    case True
    with Cons.prems show ?thesis by (intro exI [of _ "[c]"]) simp
  next
    case False
    with Cons obtain pre where "s = pre @ e" "\<forall>t. skip_line (pre @ t) = t" by auto
    with False show ?thesis by (intro exI [of _ "c # pre"]) simp
  qed
qed simp

lemma skip_block_stop:
  "skip_block s = e \<Longrightarrow> e \<noteq> [] \<Longrightarrow>
     \<exists>pre. pre \<noteq> [] \<and> s = pre @ e \<and> (\<forall>t. skip_block (pre @ t) = t)"
proof (induction s)
  case (Cons c s)
  show ?case
  proof (cases "c = CHR ''*'' \<and> deref s = CHR ''/''")
    case True
    with Cons.prems obtain s' where "s = CHR ''/'' # s'" "s' = e"
      by (cases s) auto
    with True show ?thesis by (intro exI [of _ "[c, CHR ''/'']"]) simp
  next
    case False
    with Cons.prems have "skip_block s = e" by auto
    with Cons obtain pre where pre: "pre \<noteq> []" "s = pre @ e" "\<forall>t. skip_block (pre @ t) = t" by auto
    have "skip_block ((c # pre) @ t) = t" for t
      using False pre by (cases pre) auto
    with pre(2) show ?thesis by (intro exI [of _ "c # pre"]) simp
  qed
qed simp

lemma skip_quoted_stop:
  "skip_quoted_loop q s = e \<Longrightarrow> e \<noteq> [] \<Longrightarrow>
     \<exists>pre. s = pre @ e \<and> deref e \<noteq> q \<and>
       (\<forall>t. deref t \<noteq> q \<longrightarrow> skip_quoted_loop q (pre @ t) = t)"
proof (induction q s rule: skip_quoted_loop.induct)
  case (2 q c cs)
  show ?case
  proof (cases "c = q")
    case False
    with 2 obtain pre where "cs = pre @ e" "deref e \<noteq> q"
      "\<forall>t. deref t \<noteq> q \<longrightarrow> skip_quoted_loop q (pre @ t) = t" by auto
    with False show ?thesis by (intro exI [of _ "c # pre"]) simp
  next
    case True
    with 2 obtain d ds where cs: "cs = d # ds" by (cases cs) auto
    have stop: "deref t \<noteq> q \<longrightarrow> skip_quoted_loop q ([c] @ t) = t" for t
      using True by (cases t) auto
    show ?thesis
    proof (cases "d = q")
      case False
      with True cs "2.prems" stop show ?thesis by (intro exI [of _ "[c]"]) auto
    next
      case dq: True
      with True cs 2 obtain pre where "ds = pre @ e" "deref e \<noteq> q"
        "\<forall>t. deref t \<noteq> q \<longrightarrow> skip_quoted_loop q (pre @ t) = t" by auto
      with True dq cs show ?thesis by (intro exI [of _ "c # d # pre"]) simp
    qed
  qed
qed simp

text \<open>Characters that no look-ahead of the scanners tests for.\<close>

definition inert :: "char \<Rightarrow> bool" where
  "inert c \<longleftrightarrow> c \<notin> {CHR ''-'', CHR ''*'', CHR 0x27, CHR 0x22, CHR '']''}"

lemma tds_skip_comment_stop:
  assumes "tds_skip_comment c cs = e" "e \<noteq> []"
  shows "\<exists>pre. cs = pre @ e \<and>
    (\<forall>t. deref t = deref e \<or> inert (deref t) \<longrightarrow> tds_skip_comment c (pre @ t) = t)"
proof -
  consider "c = CHR ''-''" "deref cs = CHR ''-''" | "c = CHR ''/''" "deref cs = CHR ''*''"
    | "\<not> (c = CHR ''-'' \<and> deref cs = CHR ''-'')" "\<not> (c = CHR ''/'' \<and> deref cs = CHR ''*'')"
    by blast
  then show ?thesis
  proof cases
    case 1
    with assms have "skip_line cs = e" by (simp add: tds_skip_comment_def)
    with assms(2) obtain pre where pre: "cs = pre @ e" "\<forall>t. skip_line (pre @ t) = t"
      using skip_line_stop by blast
    from pre(2) have "skip_line (pre @ [CHR 0x0A]) = [CHR 0x0A]" by blast
    then have "pre \<noteq> []" by auto
    with pre 1 have "\<forall>t. tds_skip_comment c (pre @ t) = t"
      by (cases pre) (simp_all add: tds_skip_comment_def)
    with pre(1) show ?thesis by blast
  next
    case 2
    then obtain cs' where cs: "cs = CHR ''*'' # cs'" by (cases cs) auto
    with 2 assms have "skip_block cs' = e" by (simp add: tds_skip_comment_def)
    with assms(2) obtain pre where "cs' = pre @ e" "\<forall>t. skip_block (pre @ t) = t"
      using skip_block_stop by blast
    with 2 cs show ?thesis
      by (intro exI [of _ "CHR ''*'' # pre"]) (simp add: tds_skip_comment_def)
  next
    case 3
    with assms have "cs = e" by (simp add: tds_skip_comment_def)
    with 3 show ?thesis
      by (intro exI [of _ "[]"]) (auto simp: tds_skip_comment_def inert_def)
  qed
qed

lemma tds_skip_quoted_stop:
  assumes "tds_skip_quoted c cs = e" "e \<noteq> []" "scan_label c = Quote_open"
  shows "\<exists>pre. cs = pre @ e \<and>
    (\<forall>t. deref t = deref e \<or> inert (deref t) \<longrightarrow> tds_skip_quoted c (pre @ t) = t)"
proof -
  let ?q = "if c = CHR ''['' then CHR '']'' else c"
  from assms(3) have q: "inert x \<longrightarrow> x \<noteq> ?q" for x
    by (auto simp: inert_def scan_label_def split: if_splits)
  from assms(1) have "skip_quoted_loop ?q cs = e" by (simp add: tds_skip_quoted_def Let_def)
  then obtain pre where "cs = pre @ e" "deref e \<noteq> ?q"
    "\<forall>t. deref t \<noteq> ?q \<longrightarrow> skip_quoted_loop ?q (pre @ t) = t"
    using skip_quoted_stop [OF _ assms(2)] by blast
  with q show ?thesis
    by (intro exI [of _ pre]) (auto simp: tds_skip_quoted_def Let_def simp del: if_split)
qed

text \<open>The composition step of the next induction: a scanner \<open>f\<close> stops at \<open>pre' @ e\<close>.\<close>

lemma stop_compose:
  assumes "cs = pre @ pre' @ e"
    and "\<forall>t. deref t = deref (pre' @ e) \<or> inert (deref t) \<longrightarrow> f (pre @ t) = t"
    and "inert (deref t)"
  shows "f (pre @ pre' @ t) = pre' @ t"
  using assms by (cases pre') auto

lemma next_placeholder_stop:
  "next_placeholder s = Some e \<Longrightarrow>
     deref e = CHR ''?'' \<and>
     (\<exists>pre. s = pre @ e \<and>
        (\<forall>t. inert (deref t) \<longrightarrow> next_placeholder (pre @ t) = next_placeholder t))"
proof (induction s rule: next_placeholder.induct)
  case (2 c cs)
  show ?case
  proof (cases "scan_label c")
    case Quote_open
    let ?r = "tds_skip_quoted c cs"
    from Quote_open "2.prems" have r: "next_placeholder ?r = Some e" by simp
    from "2.IH"(1) [OF Quote_open r] obtain pre' where pre': "deref e = CHR ''?''" "?r = pre' @ e"
      "\<forall>t. inert (deref t) \<longrightarrow> next_placeholder (pre' @ t) = next_placeholder t" by blast
    from r have "?r \<noteq> []" by auto
    with Quote_open obtain pre where pre: "cs = pre @ ?r"
      "\<forall>t. deref t = deref ?r \<or> inert (deref t) \<longrightarrow> tds_skip_quoted c (pre @ t) = t"
      using tds_skip_quoted_stop by blast
    have "inert (deref t) \<longrightarrow> next_placeholder ((c # pre @ pre') @ t) = next_placeholder t" for t
      using stop_compose [of cs pre pre' e "tds_skip_quoted c" t] pre pre' Quote_open by simp
    with pre'(1,2) pre(1) show ?thesis by (intro conjI exI [of _ "c # pre @ pre'"]) simp_all
  next
    case Comment_start
    let ?r = "tds_skip_comment c cs"
    from Comment_start "2.prems" have r: "next_placeholder ?r = Some e" by simp
    from "2.IH"(2) [OF Comment_start r] obtain pre' where pre': "deref e = CHR ''?''"
      "?r = pre' @ e"
      "\<forall>t. inert (deref t) \<longrightarrow> next_placeholder (pre' @ t) = next_placeholder t" by blast
    from r have "?r \<noteq> []" by auto
    then obtain pre where pre: "cs = pre @ ?r"
      "\<forall>t. deref t = deref ?r \<or> inert (deref t) \<longrightarrow> tds_skip_comment c (pre @ t) = t"
      using tds_skip_comment_stop by blast
    have "inert (deref t) \<longrightarrow> next_placeholder ((c # pre @ pre') @ t) = next_placeholder t" for t
      using stop_compose [of cs pre pre' e "tds_skip_comment c" t] pre pre' Comment_start by simp
    with pre'(1,2) pre(1) show ?thesis by (intro conjI exI [of _ "c # pre @ pre'"]) simp_all
  next
    case Question_mark
    then have "c = CHR ''?''" by (simp add: scan_label_def split: if_splits)
    moreover from Question_mark "2.prems" have "e = c # cs" by simp
    ultimately show ?thesis by simp
  next
    case At_sign
    with "2.prems" have "next_placeholder cs = Some e" by simp
    from "2.IH"(3) [OF At_sign this] obtain pre where "deref e = CHR ''?''" "cs = pre @ e"
      "\<forall>t. inert (deref t) \<longrightarrow> next_placeholder (pre @ t) = next_placeholder t" by blast
    with At_sign show ?thesis by (intro conjI exI [of _ "c # pre"]) simp_all
  next
    case Other_char
    with "2.prems" have "next_placeholder cs = Some e" by simp
    from "2.IH"(4) [OF Other_char this] obtain pre where "deref e = CHR ''?''" "cs = pre @ e"
      "\<forall>t. inert (deref t) \<longrightarrow> next_placeholder (pre @ t) = next_placeholder t" by blast
    with Other_char show ?thesis by (intro conjI exI [of _ "c # pre"]) simp_all
  qed
qed simp

lemma scan_label_digit: "is_digit c \<Longrightarrow> scan_label c = Other_char"
proof -
  assume c: "is_digit c"
  have neq: "\<not> is_digit d \<Longrightarrow> c \<noteq> d" for d using c by blast
  show "scan_label c = Other_char"
    unfolding scan_label_def by (simp add: neq is_digit_def)
qed

lemma next_placeholder_digits: "list_all is_digit s \<Longrightarrow> next_placeholder (s @ t) = next_placeholder t"
  by (induction s) (simp_all add: scan_label_digit)

lemma next_placeholder_param: "next_placeholder (param_name i @ t) = next_placeholder t"
  using next_placeholder_digits [OF show_nat_digits]
  by (simp add: param_name_def scan_label_def)

lemma inert_param: "inert (deref (param_name i @ t))"
  by (simp add: param_name_def inert_def)

lemma fix_dot_loop_correct:
  "fix_dot_loop (Some n) i s = (out, names) \<Longrightarrow> i \<le> n \<Longrightarrow>
     names = map param_name [i ..< min n (i + tds_count_placeholders s)] \<and>
     (if i + tds_count_placeholders s \<le> n
      then \<exists>r. out = Some r \<and> next_placeholder r = None else out = None)"
proof (induction "Some n" i s arbitrary: out names rule: fix_dot_loop.induct)
  case (1 i s)
  show ?case
  proof (cases "next_placeholder s")
    case None
    with 1 show ?thesis
      by (auto simp: fix_dot_loop.simps [of "Some n" i s] count_placeholders_None)
  next
    case (Some e)
    note count = count_placeholders_Some [OF Some]
    show ?thesis
    proof (cases "n \<le> i")
      case True
      with 1 Some count show ?thesis by (simp add: fix_dot_loop.simps [of "Some n" i s])
    next
      case False
      obtain rest names' where rec: "fix_dot_loop (Some n) (i + 1) (tl e) = (rest, names')"
        by fastforce
      let ?k = "tds_count_placeholders (tl e)"
      have IH: "names' = map param_name [i + 1 ..< min n (i + 1 + ?k)]"
        "if i + 1 + ?k \<le> n then \<exists>r. rest = Some r \<and> next_placeholder r = None else rest = None"
        using 1(1) [OF Some refl False rec] False by simp_all
      from "1.prems" Some False rec
      have out: "out = map_option (\<lambda>r. take (length s - length e) s @ param_name i @ r) rest"
        and names: "names = param_name i # names'"
        by (simp_all add: fix_dot_loop.simps [of "Some n" i s])
      from next_placeholder_stop [OF Some] obtain pre where pre: "s = pre @ e"
        "\<forall>t. inert (deref t) \<longrightarrow> next_placeholder (pre @ t) = next_placeholder t" by blast
      then have "next_placeholder (take (length s - length e) s @ param_name i @ r) =
        next_placeholder r" for r
        by (simp add: inert_param next_placeholder_param)
      moreover have "[i ..< min n (i + Suc ?k)] = i # [i + 1 ..< min n (i + 1 + ?k)]"
        using False by (simp add: upt_conv_Cons)
      ultimately show ?thesis
        using IH by (auto simp: out names count split: if_splits)
    qed
  qed
qed

subsection \<open>Properties\<close>

text \<open>The UCS-2LE scanners on a text of ASCII units do what the byte scanners do.\<close>

lemma skip_line_ascii: "skip_line_ucs2le (map ascii s) = map ascii (skip_line s)"
  by (induction s) auto

lemma skip_block_ascii: "skip_block_ucs2le (map ascii s) = map ascii (skip_block s)"
proof (induction s)
  case (Cons c s)
  then show ?case by (cases s) auto
qed simp

lemma skip_quoted_ascii:
  "skip_quoted_loop_ucs2le q (map ascii s) = map ascii (skip_quoted_loop q s)"
proof (induction q s rule: skip_quoted_loop.induct)
  case (2 q c cs)
  then show ?case by (cases cs) auto
qed simp

lemma tds_skip_comment_ascii:
  "tds_skip_comment_ucs2le (ascii c) (map ascii cs) = map ascii (tds_skip_comment c cs)"
  by (cases cs)
    (auto simp: tds_skip_comment_ucs2le_def tds_skip_comment_def skip_line_ascii skip_block_ascii)

lemma tds_skip_quoted_ascii:
  "tds_skip_quoted_ucs2le c (map ascii cs) = map ascii (tds_skip_quoted c cs)"
  by (simp add: tds_skip_quoted_ucs2le_def tds_skip_quoted_def Let_def skip_quoted_ascii)

lemma next_placeholder_ascii:
  "next_placeholder_ucs2le prev False (map ascii s) =
     (case next_placeholder s of None \<Rightarrow> [] | Some e \<Rightarrow> map ascii e)"
proof (induction s arbitrary: prev rule: next_placeholder.induct)
  case (2 c cs)
  then show ?case
    by (cases "scan_label c") (simp_all add: tds_skip_comment_ascii tds_skip_quoted_ascii)
qed simp

lemma skip_quote_body:
  "deref rest \<noteq> q \<Longrightarrow> skip_quoted_loop q (quote_body q s @ q # rest) = rest"
proof (induction s)
  case Nil
  then show ?case by (cases rest) auto
qed simp

lemma scan_quote:
  assumes "quoting \<in> {CHR '']'', CHR 0x22, CHR 0x27}" "deref rest \<noteq> quoting"
  shows "tds_skip_quoted (hd (tds_quote quoting s)) (tl (tds_quote quoting s) @ rest) = rest"
    and "next_placeholder (tds_quote quoting s @ rest) = next_placeholder rest"
proof -
  show skip: "tds_skip_quoted (hd (tds_quote quoting s)) (tl (tds_quote quoting s) @ rest) = rest"
    using assms skip_quote_body [OF assms(2)]
    by (auto simp: tds_quote_def tds_skip_quoted_def)
  have "scan_label (hd (tds_quote quoting s)) = Quote_open"
    using assms(1) by (auto simp: tds_quote_def scan_label_def)
  with skip show "next_placeholder (tds_quote quoting s @ rest) = next_placeholder rest"
    by (simp add: tds_quote_def)
qed

lemma ident_char_label: "ident_char first c \<Longrightarrow> scan_label c = Other_char"
proof -
  assume c: "ident_char first c"
  have neq: "\<not> ident_char first d \<Longrightarrow> c \<noteq> d" for d using c by blast
  show "scan_label c = Other_char"
    unfolding scan_label_def by (simp add: neq ident_char_def)
qed

lemma scan_plain_id: "\<not> needs_quote first s \<Longrightarrow> next_placeholder (s @ rest) = next_placeholder rest"
  by (induction s arbitrary: first) (simp_all add: ident_char_label split: if_splits)

text \<open>C6: a string or identifier quoted by \<open>tds_quote\<close> is one token for the scanners: skipping
  from its opening delimiter ends exactly after its closing delimiter, and no placeholder, comment
  or quote inside the quoted text is seen, whatever the text is.\<close>

theorem tds_quote_is_one_token:
  assumes "quoting \<in> {CHR '']'', CHR 0x22, CHR 0x27}" "deref rest \<noteq> quoting"
  shows "tds_skip_quoted (hd (tds_quote quoting s)) (tl (tds_quote quoting s) @ rest) = rest \<and>
    tds_next_placeholder (Some (tds_quote quoting s @ rest)) = tds_next_placeholder (Some rest)"
  using scan_quote [OF assms] by (simp add: tds_next_placeholder_def)

theorem tds_quote_is_one_token_witness:
  "tds_next_placeholder (Some (tds_quote (CHR 0x27) ''it's ? -- x'' @ '' ?'')) = Some ''?''"
proof -
  have "tds_next_placeholder (Some (tds_quote (CHR 0x27) ''it's ? -- x'' @ '' ?'')) =
    tds_next_placeholder (Some '' ?'')"
    using tds_quote_is_one_token [of "CHR 0x27" "'' ?''" "''it's ? -- x''"] by simp
  also have "\<dots> = Some ''?''" by (simp add: tds_next_placeholder_def scan_label_def)
  finally show ?thesis .
qed



text \<open>The size pass of \<open>tds_quote\<close> announces exactly the bytes the copying pass writes
  (without the terminator), so the caller's buffer is neither short nor too large.\<close>

theorem tds_quote_size_exact: "length (tds_quote quoting s) = tds_quote_size quoting s"
proof -
  have "length (quote_body quoting s) = length s + length (filter (\<lambda>c. c = quoting) s)"
    by (induction s) simp_all
  then show ?thesis by (simp add: tds_quote_def tds_quote_size_def)
qed

text \<open>C23: an identifier as \<open>tds_quote_id\<close> or \<open>tds_quote_id_rpc\<close> emits it, quoted or left bare
  depending on the server version, hides no placeholder and swallows nothing of the query that
  follows.\<close>

theorem tds_quote_id_transparent:
  assumes "deref rest \<notin> {CHR '']'', CHR 0x22}"
  shows "tds_next_placeholder (Some (tds_quote_id product_version s @ rest)) =
      tds_next_placeholder (Some rest) \<and>
    tds_next_placeholder (Some (tds_quote_id_rpc product_version s @ rest)) =
      tds_next_placeholder (Some rest)"
  using assms scan_quote(2) [of "CHR '']''" rest s] scan_quote(2) [of "CHR 0x22" rest s]
    scan_plain_id [of True s rest]
  by (simp add: tds_quote_id_def tds_quote_id_rpc_def tds_next_placeholder_def)

theorem tds_quote_id_transparent_witness:
  "tds_next_placeholder (Some (tds_quote_id 0 ''a?b'' @ '' = ?'')) =
     tds_next_placeholder (Some '' = ?'')"
  using tds_quote_id_transparent [of "'' = ?''" 0 "''a?b''"] by simp

text \<open>C24: on text of the ASCII range the UCS-2LE scanner finds the same next placeholder as the
  byte scanner and counts the same number of placeholders, so the two code paths that prepare a
  query agree on its parameters.\<close>

theorem placeholders_ucs2le_agree:
  "tds_next_placeholder_ucs2le (map ascii s) False =
     (case tds_next_placeholder (Some s) of None \<Rightarrow> [] | Some e \<Rightarrow> map ascii e) \<and>
   tds_count_placeholders_ucs2le (map ascii s) = tds_count_placeholders s"
proof
  show step: "tds_next_placeholder_ucs2le (map ascii s) False =
     (case tds_next_placeholder (Some s) of None \<Rightarrow> [] | Some e \<Rightarrow> map ascii e)" for s
    by (simp add: tds_next_placeholder_ucs2le_def tds_next_placeholder_def next_placeholder_ascii)
  show "tds_count_placeholders_ucs2le (map ascii s) = tds_count_placeholders s"
  proof (induction s rule: tds_count_placeholders.induct)
    case (1 s)
    show ?case
    proof (cases "tds_next_placeholder (Some s)")
      case None
      then show ?thesis
        by (simp add: tds_count_placeholders.simps [of s]
            tds_count_placeholders_ucs2le.simps [of "map ascii s"] step)
    next
      case (Some e)
      then have "e \<noteq> []" using length_next_placeholder by (simp add: tds_next_placeholder_def)
      then obtain c e' where e: "e = c # e'" by (cases e) auto
      with 1 [OF Some] Some show ?thesis
        by (simp add: tds_count_placeholders.simps [of s]
            tds_count_placeholders_ucs2le.simps [of "map ascii s"] step)
    qed
  qed
qed


end
