(* ===== verification/Bytes.thy ===== *)
theory Bytes
  imports Prelude
begin

text \<open>
  Byte-order access: the \<open>TDS_GET_*\<close> and \<open>TDS_PUT_*\<close> macros of
  \<open>include/freetds/bytes.h\<close>, \<open>tds_swap_bytes\<close> of \<open>src/tds/util.c\<close>, and
  \<open>memcpy\<close> into a buffer at an offset. A value is the natural number the unsigned C
  expression has; \<open>(uint8_t) (val >> k)\<close> is the byte of \<open>val div 2 ^ k\<close>.
\<close>

subsection \<open>Copying into a buffer\<close>

text \<open>\<open>memcpy (buf + pos, data, n)\<close>. Writing past the end makes the list longer, so an
  operation that keeps the length of the buffer has stayed inside it.\<close>

definition write_at :: "'a list \<Rightarrow> nat \<Rightarrow> 'a list \<Rightarrow> 'a list" where
  "write_at buf pos data = take pos buf @ data @ drop (pos + length data) buf"

lemma length_write_at [simp]:
  "pos + length data \<le> length buf \<Longrightarrow> length (write_at buf pos data) = length buf"
  by (simp add: write_at_def)

lemma write_at_Nil [simp]: "write_at buf pos [] = buf"
  by (simp add: write_at_def)

lemma take_write_at_end:
  "pos \<le> length buf \<Longrightarrow> take (pos + length data) (write_at buf pos data) = take pos buf @ data"
  by (simp add: write_at_def)

lemma take_write_at_low:
  "n \<le> pos \<Longrightarrow> pos \<le> length buf \<Longrightarrow> take n (write_at buf pos data) = take n buf"
  by (simp add: write_at_def min_absorb1)

lemma drop_write_at_high:
  "pos + length data \<le> n \<Longrightarrow> pos \<le> length buf \<Longrightarrow> drop n (write_at buf pos data) = drop n buf"
  by (simp add: write_at_def)

lemma write_at_append_left:
  "pos + length data \<le> length xs \<Longrightarrow> write_at (xs @ ys) pos data = write_at xs pos data @ ys"
  by (simp add: write_at_def)

lemma write_at_append_right:
  "length xs \<le> pos \<Longrightarrow> write_at (xs @ ys) pos data = xs @ write_at ys (pos - length xs) data"
  by (simp add: write_at_def)

lemma take_write_at:
  "pos + length data \<le> n \<Longrightarrow> pos \<le> length buf \<Longrightarrow>
     take n (write_at buf pos data) = write_at (take n buf) pos data"
  by (simp add: write_at_def drop_take min_absorb1)

lemma drop_write_at:
  "n \<le> pos \<Longrightarrow> pos \<le> length buf \<Longrightarrow>
     drop n (write_at buf pos data) = write_at (drop n buf) (pos - n) data"
  by (simp add: write_at_def drop_take)

subsection \<open>Little and big endian\<close>

definition u8_of :: "nat \<Rightarrow> byte" where
  "u8_of n = word_of_nat n"

definition TDS_PUT_A2LE :: "nat \<Rightarrow> byte list" where
  "TDS_PUT_A2LE val = [u8_of val, u8_of (val div 2 ^ 8)]"

definition TDS_PUT_A2BE :: "nat \<Rightarrow> byte list" where
  "TDS_PUT_A2BE val = [u8_of (val div 2 ^ 8), u8_of val]"

definition TDS_PUT_A4LE :: "nat \<Rightarrow> byte list" where
  "TDS_PUT_A4LE val =
     [u8_of val, u8_of (val div 2 ^ 8), u8_of (val div 2 ^ 16), u8_of (val div 2 ^ 24)]"

definition TDS_PUT_A4BE :: "nat \<Rightarrow> byte list" where
  "TDS_PUT_A4BE val =
     [u8_of (val div 2 ^ 24), u8_of (val div 2 ^ 16), u8_of (val div 2 ^ 8), u8_of val]"

text \<open>The readers take the bytes \<open>ptr[0], ptr[1], \<dots>\<close>.\<close>

definition TDS_GET_A2LE :: "byte \<Rightarrow> byte \<Rightarrow> nat" where
  "TDS_GET_A2LE b0 b1 = unat b1 * 0x100 + unat b0"

definition TDS_GET_A2BE :: "byte \<Rightarrow> byte \<Rightarrow> nat" where
  "TDS_GET_A2BE b0 b1 = unat b0 * 0x100 + unat b1"

definition TDS_GET_A4LE :: "byte \<Rightarrow> byte \<Rightarrow> byte \<Rightarrow> byte \<Rightarrow> nat" where
  "TDS_GET_A4LE b0 b1 b2 b3 =
     unat b3 * 0x1000000 + unat b2 * 0x10000 + unat b1 * 0x100 + unat b0"

definition TDS_GET_A4BE :: "byte \<Rightarrow> byte \<Rightarrow> byte \<Rightarrow> byte \<Rightarrow> nat" where
  "TDS_GET_A4BE b0 b1 b2 b3 =
     unat b0 * 0x1000000 + unat b1 * 0x10000 + unat b2 * 0x100 + unat b3"

lemmas byte_put_defs = TDS_PUT_A2LE_def TDS_PUT_A2BE_def TDS_PUT_A4LE_def TDS_PUT_A4BE_def
lemmas byte_get_defs = TDS_GET_A2LE_def TDS_GET_A2BE_def TDS_GET_A4LE_def TDS_GET_A4BE_def

lemma unat_u8_of [simp]: "unat (u8_of n) = n mod 256"
  by (simp add: u8_of_def unat_of_nat)

lemma u8_of_unat [simp]: "u8_of (unat b) = b"
  by (simp add: u8_of_def)

lemma unat_byte_less: "unat (b :: byte) < 256"
  using unsigned_less [of b] by simp

lemma u8_of_eqI: "n mod 256 = unat b \<Longrightarrow> u8_of n = b"
  by (metis u8_of_unat unat_u8_of word_unat_eq_iff)

lemma length_put [simp]:
  "length (TDS_PUT_A2LE v) = 2" "length (TDS_PUT_A2BE v) = 2"
  "length (TDS_PUT_A4LE v) = 4" "length (TDS_PUT_A4BE v) = 4"
  by (simp_all add: byte_put_defs)

text \<open>The four bytes of a 32-bit number.\<close>

lemma nat_bytes4:
  "v < 2 ^ 32 \<Longrightarrow>
     v div 2 ^ 24 mod 256 * 0x1000000 + v div 2 ^ 16 mod 256 * 0x10000 +
     v div 2 ^ 8 mod 256 * 0x100 + v mod 256 = (v :: nat)"
proof -
  assume v: "v < 2 ^ 32"
  define a where "a = v div 256"
  define b where "b = a div 256"
  define c where "c = b div 256"
  have "v div 2 ^ 8 = a" "v div 2 ^ 16 = b" "v div 2 ^ 24 = c"
    by (simp_all add: a_def b_def c_def div_mult2_eq [symmetric])
  moreover have "v = a * 256 + v mod 256" "a = b * 256 + a mod 256" "b = c * 256 + b mod 256"
    by (simp_all add: a_def b_def c_def)
  moreover have "c < 256"
    using v by (simp add: a_def b_def c_def div_mult2_eq [symmetric] div_less_iff_less_mult)
  ultimately show ?thesis by simp
qed

lemma nat_bytes2:
  "v < 2 ^ 16 \<Longrightarrow> v div 2 ^ 8 mod 256 * 0x100 + v mod 256 = (v :: nat)"
  by (simp add: div_less_iff_less_mult)

text \<open>Reading what was put.\<close>

lemma get_put_A2LE: "v < 2 ^ 16 \<Longrightarrow> TDS_PUT_A2LE v = [b0, b1] \<Longrightarrow> TDS_GET_A2LE b0 b1 = v"
  using nat_bytes2 [of v] by (auto simp: byte_put_defs byte_get_defs)

lemma get_put_A2BE: "v < 2 ^ 16 \<Longrightarrow> TDS_PUT_A2BE v = [b0, b1] \<Longrightarrow> TDS_GET_A2BE b0 b1 = v"
  using nat_bytes2 [of v] by (auto simp: byte_put_defs byte_get_defs)

lemma get_put_A4LE:
  "v < 2 ^ 32 \<Longrightarrow> TDS_PUT_A4LE v = [b0, b1, b2, b3] \<Longrightarrow> TDS_GET_A4LE b0 b1 b2 b3 = v"
  using nat_bytes4 [of v] by (auto simp: byte_put_defs byte_get_defs)

lemma get_put_A4BE:
  "v < 2 ^ 32 \<Longrightarrow> TDS_PUT_A4BE v = [b0, b1, b2, b3] \<Longrightarrow> TDS_GET_A4BE b0 b1 b2 b3 = v"
  using nat_bytes4 [of v] by (auto simp: byte_put_defs byte_get_defs)

subsection \<open>Reversing a buffer\<close>

text \<open>The loop of \<open>tds_swap_bytes\<close>; \<open>l\<close> is the pointer before \<open>--last\<close>.\<close>

function swap_loop :: "'a list \<Rightarrow> nat \<Rightarrow> nat \<Rightarrow> 'a list" where
  "swap_loop buf b l =
     (if b < l - 1
      then swap_loop (buf [l - 1 := buf ! b, b := buf ! (l - 1)]) (b + 1) (l - 1)
      else buf)"
  by pat_completeness auto
termination
  by (relation "measure (\<lambda>(buf, b, l). l)") auto

declare swap_loop.simps [simp del]

definition tds_swap_bytes :: "'a list \<Rightarrow> nat \<Rightarrow> 'a list" where
  "tds_swap_bytes buf bytes = swap_loop buf 0 bytes"

lemma length_swap_loop: "length (swap_loop buf b l) = length buf"
proof (induction buf b l rule: swap_loop.induct)
  case (1 buf b l)
  then show ?case by (subst swap_loop.simps) simp
qed

lemma nth_swap_loop:
  "l \<le> length buf \<Longrightarrow> i < length buf \<Longrightarrow>
     swap_loop buf b l ! i = (if b \<le> i \<and> i < l then buf ! (b + l - 1 - i) else buf ! i)"
proof (induction buf b l rule: swap_loop.induct)
  case (1 buf b l)
  show ?case
  proof (cases "b < l - 1")
    case False
    then have "b + l - 1 - i = i" if "b \<le> i" "i < l" using that by simp
    with False show ?thesis by (subst swap_loop.simps) simp
  next
    case True
    let ?buf = "buf [l - 1 := buf ! b, b := buf ! (l - 1)]"
    from True 1 have "swap_loop ?buf (b + 1) (l - 1) ! i =
      (if b + 1 \<le> i \<and> i < l - 1 then ?buf ! (b + 1 + (l - 1) - 1 - i) else ?buf ! i)"
      by simp
    moreover have "b + 1 + (l - 1) - 1 - i = b + l - 1 - i" using True by simp
    ultimately show ?thesis
      using True 1 by (subst swap_loop.simps) (auto simp: nth_list_update)
  qed
qed

lemma tds_swap_bytes_reverses:
  assumes "bytes \<le> length buf"
  shows "tds_swap_bytes buf bytes = rev (take bytes buf) @ drop bytes buf"
proof (rule nth_equalityI)
  show "length (tds_swap_bytes buf bytes) = length (rev (take bytes buf) @ drop bytes buf)"
    using assms by (simp add: tds_swap_bytes_def length_swap_loop)
next
  fix i assume "i < length (tds_swap_bytes buf bytes)"
  then have "i < length buf" by (simp add: tds_swap_bytes_def length_swap_loop)
  with assms show "tds_swap_bytes buf bytes ! i = (rev (take bytes buf) @ drop bytes buf) ! i"
    by (auto simp: tds_swap_bytes_def nth_swap_loop nth_append rev_nth)
qed

end
