(* ===== verification/Wire_Out.thy ===== *)
theory Wire_Out
  imports Bytes
begin

text \<open>
  The output half of the packet layer: \<open>src/tds/write.c\<close>, the write and freeze
  functions of \<open>src/tds/packet.c\<close> and the packet allocation of \<open>src/tds/mem.c\<close>, in
  the configuration without MARS (\<open>ENABLE_ODBC_MARS\<close> undefined), where a packet is
  written to the connection as soon as it is full.

  A \<open>TDSPACKET\<close> is its buffer and its \<open>data_len\<close>; \<open>capacity\<close> is the length of the
  buffer list. The list linked from \<open>tds->frozen_packets\<close> ends with \<open>tds->send_packet\<close>; the
  model keeps the packets before it in \<open>frozen_packets\<close>, so a \<open>TDSPACKET *\<close> of that list
  is an index and \<open>pkt->next\<close> is the next index. \<open>tds->out_buf\<close> is the buffer of
  \<open>send_packet\<close>. A store outside a buffer would make the list longer (\<open>write_at\<close>),
  so the invariant, which fixes the length of the buffers, is also memory safety.

  The heap and the socket are parameters (\<open>env\<close>): \<open>malloc k n\<close> is the result of the
  \<open>k\<close>-th allocation, \<open>conn_write\<close> the result of \<open>tds_connection_write\<close> after the writes
  so far, with the flag that tells if it closed the connection.
\<close>

subsection \<open>State\<close>

record tdspacket =
  pkt_buf :: "byte list"
  data_len :: nat

record tdssocket =
  send_packet :: tdspacket
  frozen_packets :: "tdspacket list"
  frozen :: nat
  out_pos :: nat
  out_buf_max :: nat
  out_flag :: byte
  tds_version :: nat
  login :: bool
  client_spid :: nat
  packet_cache :: "tdspacket list"
  num_cached_packets :: nat
  mallocs :: nat
  sent_log :: "(byte list \<times> byte) list"
  dead :: bool
  in_cancel :: nat
  tls_session :: bool
  encrypt_single_packet :: bool
  block_size :: nat

record env =
  malloc :: "nat \<Rightarrow> nat \<Rightarrow> byte list option"
  conn_write :: "(byte list \<times> byte) list \<Rightarrow> byte list \<Rightarrow> byte \<Rightarrow> int \<times> bool"

definition TDS_ADDITIONAL_SPACE :: nat where
  "TDS_ADDITIONAL_SPACE = 16"

definition IS_TDS7_PLUS :: "tdssocket \<Rightarrow> bool" where
  "IS_TDS7_PLUS s \<longleftrightarrow> 0x700 \<le> tds_version s"

definition TDS_CANCEL :: byte where
  "TDS_CANCEL = 6"

subsection \<open>Packets: allocation and cache\<close>

definition tds_alloc_packet :: "env \<Rightarrow> nat \<Rightarrow> tdssocket \<Rightarrow> tdspacket option \<times> tdssocket" where
  "tds_alloc_packet env len s =
     (map_option (\<lambda>b. \<lparr> pkt_buf = b, data_len = 0 \<rparr>) (malloc env (mallocs s) len),
      s \<lparr> mallocs := mallocs s + 1 \<rparr>)"

text \<open>\<open>tds_get_packet\<close> takes packets off the cache until one is large enough.\<close>

fun get_cached :: "nat \<Rightarrow> tdspacket list \<Rightarrow> nat \<Rightarrow> tdspacket option \<times> tdspacket list \<times> nat" where
  "get_cached len [] n = (None, [], n)"
| "get_cached len (p # ps) n =
     (if len \<le> length (pkt_buf p) then (Some (p \<lparr> data_len := 0 \<rparr>), ps, n - 1)
      else get_cached len ps (n - 1))"

definition tds_get_packet :: "env \<Rightarrow> nat \<Rightarrow> tdssocket \<Rightarrow> tdspacket option \<times> tdssocket" where
  "tds_get_packet env len s =
     (case get_cached len (packet_cache s) (num_cached_packets s) of
        (p, cache, n) \<Rightarrow>
          let s = s \<lparr> packet_cache := cache, num_cached_packets := n \<rparr>
          in (case p of None \<Rightarrow> tds_alloc_packet env len s | Some p \<Rightarrow> (Some p, s)))"

text \<open>\<open>tds_packet_cache_add\<close> gets a whole list of linked packets.\<close>

definition tds_packet_cache_add :: "tdspacket list \<Rightarrow> tdssocket \<Rightarrow> tdssocket" where
  "tds_packet_cache_add pkts s =
     (if 8 \<le> num_cached_packets s then s
      else s \<lparr> packet_cache := pkts @ packet_cache s,
               num_cached_packets := num_cached_packets s + length pkts \<rparr>)"

text \<open>\<open>tds_realloc_packet\<close>: \<open>realloc\<close> keeps the contents, the rest of the new block is
  what the allocator left there.\<close>

definition tds_realloc_packet :: "env \<Rightarrow> tdspacket \<Rightarrow> nat \<Rightarrow> tdssocket \<Rightarrow> tdspacket option \<times> tdssocket" where
  "tds_realloc_packet env p len s =
     (if length (pkt_buf p) < len
      then (map_option (\<lambda>b. p \<lparr> pkt_buf := write_at b 0 (pkt_buf p) \<rparr>) (malloc env (mallocs s) len),
            s \<lparr> mallocs := mallocs s + 1 \<rparr>)
      else (Some p, s))"

definition tds_realloc_socket :: "env \<Rightarrow> nat \<Rightarrow> tdssocket \<Rightarrow> bool \<times> tdssocket" where
  "tds_realloc_socket env bufsize s =
     (let bufsize = (if bufsize < 512 then 512 else bufsize)
      in if bufsize < out_pos s \<or> frozen s \<noteq> 0 then (False, s)
         else case tds_realloc_packet env (send_packet s) (bufsize + TDS_ADDITIONAL_SPACE)
                     (s \<lparr> block_size := bufsize \<rparr>) of
                (None, s) \<Rightarrow> (False, s)
              | (Some p, s) \<Rightarrow> (True, s \<lparr> out_buf_max := bufsize, send_packet := p \<rparr>))"

subsection \<open>Writing a packet\<close>

definition packet_header :: "byte \<Rightarrow> nat \<Rightarrow> tdssocket \<Rightarrow> byte list" where
  "packet_header final pos s =
     [out_flag s, final] @ TDS_PUT_A2BE pos @ TDS_PUT_A2BE (client_spid s) @
     [if IS_TDS7_PLUS s \<and> \<not> login s then 0x01 else 0, 0]"

definition tds_connection_write :: "env \<Rightarrow> byte list \<Rightarrow> byte \<Rightarrow> tdssocket \<Rightarrow> int \<times> tdssocket" where
  "tds_connection_write env buf final s =
     (case conn_write env (sent_log s) buf final of
        (sent, closed) \<Rightarrow>
          (sent, s \<lparr> sent_log := sent_log s @ [(buf, final)], dead := dead s \<or> closed \<rparr>))"

definition tds_ssl_deinit :: "tdssocket \<Rightarrow> tdssocket" where
  "tds_ssl_deinit s = s \<lparr> tls_session := False \<rparr>"

definition write_out :: "env \<Rightarrow> byte \<Rightarrow> tdspacket option \<Rightarrow> tdssocket \<Rightarrow> tdsret \<times> tdssocket" where
  "write_out env final pkt_next s =
     (let pkt = send_packet s;
          left = out_pos s - out_buf_max s;
          pos = min (out_pos s) (out_buf_max s);
          extra = take left (drop (out_buf_max s) (pkt_buf pkt));
          pkt_next = map_option (\<lambda>p. p \<lparr> pkt_buf := write_at (pkt_buf p) 8 extra \<rparr>) pkt_next;
          pkt = pkt \<lparr> pkt_buf := write_at (pkt_buf pkt) 0 (packet_header final pos s) \<rparr>
      in case pkt_next of
           Some p \<Rightarrow>
             (TDS_SUCCESS, s \<lparr> frozen_packets := frozen_packets s @ [pkt \<lparr> data_len := pos \<rparr>],
                               send_packet := p, out_pos := left + 8 \<rparr>)
         | None \<Rightarrow>
             (case tds_connection_write env (take pos (pkt_buf pkt)) final s of
                (sent, s) \<Rightarrow>
                  let s = s \<lparr> send_packet := pkt \<lparr> pkt_buf := write_at (pkt_buf pkt) 8 extra \<rparr>,
                              out_pos := left + 8 \<rparr>;
                      s = (if encrypt_single_packet s
                           then tds_ssl_deinit (s \<lparr> encrypt_single_packet := False \<rparr>) else s)
                  in (if sent \<le> 0 then TDS_FAIL else TDS_SUCCESS, s)))"

definition tds_write_packet :: "env \<Rightarrow> byte \<Rightarrow> tdssocket \<Rightarrow> tdsret \<times> tdssocket" where
  "tds_write_packet env final s =
     (if frozen s \<noteq> 0
      then (case tds_get_packet env (length (pkt_buf (send_packet s))) s of
              (None, s) \<Rightarrow> (TDS_FAIL, s)
            | (Some p, s) \<Rightarrow> write_out env final (Some p) s)
      else write_out env final None s)"

definition tds_put_cancel :: "env \<Rightarrow> tdssocket \<Rightarrow> tdsret \<times> tdssocket" where
  "tds_put_cancel env s =
     (let out_buf = [TDS_CANCEL, 1, 0, 8, 0, 0, if IS_TDS7_PLUS s \<and> \<not> login s then 0x01 else 0, 0]
      in case tds_connection_write env out_buf 1 s of
           (sent, s) \<Rightarrow>
             (if sent \<le> 0 then TDS_FAIL else TDS_SUCCESS,
              if 0 < sent then s \<lparr> in_cancel := 2 \<rparr> else s))"

subsection \<open>Putting data\<close>

text \<open>\<open>tds_put_n\<close>: the buffer is absent when the pointer is \<open>NULL\<close>, then zeros are
  written. The loop ignores the result of \<open>tds_write_packet\<close>, so it does not end when
  no packet can be allocated; that is the value \<open>None\<close>.\<close>

definition put_chunk :: "byte list \<Rightarrow> tdssocket \<Rightarrow> tdssocket" where
  "put_chunk data s =
     s \<lparr> send_packet := (send_packet s) \<lparr> pkt_buf := write_at (pkt_buf (send_packet s)) (out_pos s) data \<rparr>,
         out_pos := out_pos s + length data \<rparr>"

partial_function (option) tds_put_n :: "env \<Rightarrow> byte list option \<Rightarrow> nat \<Rightarrow> tdssocket \<Rightarrow> tdssocket option" where
  "tds_put_n env bufp n s =
     (if n = 0 then Some s
      else if out_buf_max s \<le> out_pos s then tds_put_n env bufp n (snd (tds_write_packet env 0 s))
      else let left = min (out_buf_max s - out_pos s) n;
               data = (case bufp of None \<Rightarrow> replicate left 0 | Some b \<Rightarrow> take left b)
           in tds_put_n env (map_option (drop left) bufp) (n - left) (put_chunk data s))"

definition make_room :: "env \<Rightarrow> tdssocket \<Rightarrow> tdssocket" where
  "make_room env s = (if out_buf_max s \<le> out_pos s then snd (tds_write_packet env 0 s) else s)"

definition tds_put_byte :: "env \<Rightarrow> byte \<Rightarrow> tdssocket \<Rightarrow> tdssocket" where
  "tds_put_byte env c s = put_chunk [c] (make_room env s)"

text \<open>The integers are given by their two's complement pattern.\<close>

definition tds_put_smallint :: "env \<Rightarrow> u16 \<Rightarrow> tdssocket \<Rightarrow> tdssocket" where
  "tds_put_smallint env si s = put_chunk (TDS_PUT_A2LE (unat si)) (make_room env s)"

definition tds_put_int :: "env \<Rightarrow> u32 \<Rightarrow> tdssocket \<Rightarrow> tdssocket" where
  "tds_put_int env i s = put_chunk (TDS_PUT_A4LE (unat i)) (make_room env s)"

definition tds_put_int8 :: "env \<Rightarrow> u64 \<Rightarrow> tdssocket \<Rightarrow> tdssocket" where
  "tds_put_int8 env i s =
     put_chunk (TDS_PUT_A4LE (unat (ucast i :: u32)) @ TDS_PUT_A4LE (unat (ucast (drop_bit 32 i) :: u32)))
       (make_room env s)"

definition tds_init_write_buf :: "tdssocket \<Rightarrow> tdssocket" where
  "tds_init_write_buf s = s \<lparr> out_pos := 8 \<rparr>"

definition tds_flush_packet :: "env \<Rightarrow> tdssocket \<Rightarrow> tdsret \<times> tdssocket" where
  "tds_flush_packet env s =
     (if dead s then (TDS_FAIL, s)
      else if out_buf_max s < out_pos s
           then (case tds_write_packet env 0x00 s of
                   (TDS_FAIL, s) \<Rightarrow> (TDS_FAIL, s)
                 | (TDS_SUCCESS, s) \<Rightarrow> tds_write_packet env 0x01 s)
           else tds_write_packet env 0x01 s)"

subsection \<open>The output stream over the network\<close>

text \<open>The stream's \<open>buffer\<close> is \<open>out_buf + out_pos\<close> and \<open>buf_len\<close> the space left there; the producer stores its
  bytes and \<open>tds_dataout_stream_write\<close> accounts for \<open>len\<close> of them.\<close>

definition dataout_left :: "tdssocket \<Rightarrow> nat" where
  "dataout_left s = out_buf_max s + TDS_ADDITIONAL_SPACE - out_pos s"

definition dataout_store :: "byte list \<Rightarrow> tdssocket \<Rightarrow> tdssocket" where
  "dataout_store data s =
     s \<lparr> send_packet := (send_packet s) \<lparr> pkt_buf := write_at (pkt_buf (send_packet s)) (out_pos s) data \<rparr> \<rparr>"

definition tds_dataout_stream_write :: "env \<Rightarrow> nat \<Rightarrow> tdssocket \<Rightarrow> int \<times> tdssocket" where
  "tds_dataout_stream_write env len s =
     (let s = s \<lparr> out_pos := out_pos s + len \<rparr>
      in (int len, if out_buf_max s < out_pos s then snd (tds_write_packet env 0x0 s) else s))"

subsection \<open>A new socket\<close>

text \<open>The output half of \<open>tds_init_socket\<close>: the send packet, \<open>out_buf_max\<close> and
  \<open>tds_init_write_buf\<close> (the socket is \<open>calloc\<close>ed; \<open>block_size\<close> is set by
  \<open>tds_init_connection\<close>). The socket is in state \<open>TDS_DEAD\<close> until it is connected.\<close>

definition tds_init_socket :: "env \<Rightarrow> nat \<Rightarrow> tdssocket option" where
  "tds_init_socket env bufsize =
     map_option (\<lambda>b. tds_init_write_buf
         \<lparr> send_packet = \<lparr> pkt_buf = b, data_len = 0 \<rparr>, frozen_packets = [], frozen = 0, out_pos = 0,
           out_buf_max = bufsize, out_flag = 0, tds_version = 0, login = False, client_spid = 0,
           packet_cache = [], num_cached_packets = 0, mallocs = 1, sent_log = [], dead = True,
           in_cancel = 0, tls_session = False, encrypt_single_packet = False, block_size = bufsize \<rparr>)
       (malloc env 0 (bufsize + TDS_ADDITIONAL_SPACE))"

subsection \<open>Invariant and abstraction\<close>

text \<open>A packet on the wire: the length field is its length and the status byte is the
  \<open>final\<close> argument it was written with.\<close>

definition wire_packet :: "byte list \<Rightarrow> byte \<Rightarrow> bool" where
  "wire_packet b final \<longleftrightarrow>
     8 \<le> length b \<and> length b < 2 ^ 16 \<and> b ! 1 = final \<and> TDS_GET_A2BE (b ! 2) (b ! 3) = length b"

definition frozen_ok :: "nat \<Rightarrow> tdspacket \<Rightarrow> bool" where
  "frozen_ok mx p \<longleftrightarrow>
     data_len p = mx \<and> mx + TDS_ADDITIONAL_SPACE \<le> length (pkt_buf p) \<and>
     wire_packet (take mx (pkt_buf p)) 0"

definition out_inv :: "tdssocket \<Rightarrow> bool" where
  "out_inv s \<longleftrightarrow>
     TDS_ADDITIONAL_SPACE + 8 < out_buf_max s \<and> out_buf_max s < 2 ^ 16 \<and>
     8 \<le> out_pos s \<and> out_pos s \<le> out_buf_max s + TDS_ADDITIONAL_SPACE \<and>
     out_buf_max s + TDS_ADDITIONAL_SPACE \<le> length (pkt_buf (send_packet s)) \<and>
     list_all (frozen_ok (out_buf_max s)) (frozen_packets s) \<and>
     (frozen s = 0 \<longrightarrow> frozen_packets s = []) \<and>
     list_all (\<lambda>(b, final). wire_packet b final) (sent_log s) \<and>
     num_cached_packets s = length (packet_cache s)"

lemma out_invD:
  assumes "out_inv s"
  shows "24 < out_buf_max s" "out_buf_max s < 65536" "8 \<le> out_pos s" "out_pos s \<le> out_buf_max s + 16"
    "out_buf_max s + 16 \<le> length (pkt_buf (send_packet s))"
    "list_all (frozen_ok (out_buf_max s)) (frozen_packets s)"
    "frozen s = 0 \<Longrightarrow> frozen_packets s = []"
    "list_all (\<lambda>(b, final). wire_packet b final) (sent_log s)"
    "num_cached_packets s = length (packet_cache s)"
  using assms by (simp_all add: out_inv_def TDS_ADDITIONAL_SPACE_def)

definition pkt_payload :: "tdspacket \<Rightarrow> byte list" where
  "pkt_payload p = drop 8 (take (data_len p) (pkt_buf p))"

definition pending :: "tdssocket \<Rightarrow> byte list" where
  "pending s = concat (map pkt_payload (frozen_packets s)) @
     drop 8 (take (out_pos s) (pkt_buf (send_packet s)))"

text \<open>Everything the caller has put: what went out, and what is still buffered.\<close>

definition stream :: "tdssocket \<Rightarrow> byte list" where
  "stream s = concat (map (\<lambda>(b, final). drop 8 b) (sent_log s)) @ pending s"

text \<open>\<open>malloc\<close> returns a block of the size asked for.\<close>

definition malloc_ok :: "env \<Rightarrow> bool" where
  "malloc_ok env \<longleftrightarrow> (\<forall>k n b. malloc env k n = Some b \<longrightarrow> length b = n)"

definition malloc_never_fails :: "env \<Rightarrow> bool" where
  "malloc_never_fails env \<longleftrightarrow> (\<forall>k n. malloc env k n \<noteq> None)"

text \<open>The connection accepts every (non-empty) packet.\<close>

definition writes_ok :: "env \<Rightarrow> bool" where
  "writes_ok env \<longleftrightarrow> (\<forall>log b final. b \<noteq> [] \<longrightarrow> 0 < fst (conn_write env log b final))"

text \<open>\<open>can_write env s\<close>: writing a packet cannot fail for want of memory.\<close>

definition can_write :: "env \<Rightarrow> tdssocket \<Rightarrow> bool" where
  "can_write env s \<longleftrightarrow> malloc_ok env \<and> (frozen s \<noteq> 0 \<longrightarrow> malloc_never_fails env)"

text \<open>\<open>appends data s s'\<close>: from \<open>s\<close> to \<open>s'\<close> exactly \<open>data\<close> was added to the stream, in a
  legal state; while frozen nothing goes out.\<close>

definition appends :: "byte list \<Rightarrow> tdssocket \<Rightarrow> tdssocket \<Rightarrow> bool" where
  "appends data s s' \<longleftrightarrow>
     out_inv s' \<and> stream s' = stream s @ data \<and>
     out_buf_max s' = out_buf_max s \<and> frozen s' = frozen s \<and>
     tds_version s' = tds_version s \<and> login s' = login s \<and> out_flag s' = out_flag s \<and>
     prefix (sent_log s) (sent_log s') \<and>
     (frozen s \<noteq> 0 \<longrightarrow> sent_log s' = sent_log s \<and> length (frozen_packets s) \<le> length (frozen_packets s'))"

lemma appends_refl: "out_inv s \<Longrightarrow> appends [] s s"
  by (simp add: appends_def)

lemma appends_trans: "appends d s t \<Longrightarrow> appends e t u \<Longrightarrow> appends (d @ e) s u"
  by (auto simp: appends_def)

lemma appends_inv: "appends d s t \<Longrightarrow> out_inv t"
  by (simp add: appends_def)

lemma appends_can_write: "appends d s t \<Longrightarrow> can_write env s \<Longrightarrow> can_write env t"
  by (simp add: appends_def can_write_def)

subsection \<open>Writing packets keeps the stream\<close>

lemma length_packet_header [simp]: "length (packet_header final pos s) = 8"
  by (simp add: packet_header_def)

lemma wire_packet_header:
  assumes "8 \<le> pos" "pos < 2 ^ 16" "pos \<le> length buf"
  shows "wire_packet (take pos (write_at buf 0 (packet_header final pos s))) final"
proof -
  have "take pos (write_at buf 0 (packet_header final pos s)) =
      packet_header final pos s @ take (pos - 8) (drop 8 buf)"
    using assms by (simp add: write_at_def)
  moreover have "TDS_GET_A2BE (u8_of (pos div 2 ^ 8)) (u8_of pos) = pos"
    using get_put_A2BE [of pos] assms by (simp add: TDS_PUT_A2BE_def)
  ultimately show ?thesis
    using assms by (simp add: wire_packet_def packet_header_def TDS_PUT_A2BE_def, arith)
qed

lemma drop_take_write_at_0:
  "length hdr = 8 \<Longrightarrow> 8 \<le> length buf \<Longrightarrow>
     drop 8 (take n (write_at buf 0 hdr)) = drop 8 (take n buf)"
  by (cases "n \<le> 8") (simp_all add: write_at_def drop_take)

lemma split_at_max:
  assumes "8 \<le> mx" "mx \<le> length buf" "pos \<le> length buf"
  shows "drop 8 (take pos buf) = drop 8 (take (min pos mx) buf) @ take (pos - mx) (drop mx buf)"
proof (cases "pos \<le> mx")
  case False
  then have "take pos buf = take mx buf @ take (pos - mx) (drop mx buf)"
    by (metis le_add_diff_inverse nat_le_linear take_add)
  with False assms show ?thesis by (simp add: min_def)
qed simp

lemma tds_get_packet_props:
  assumes "malloc_ok env" "tds_get_packet env len s = (p, s')"
  shows "\<exists>c n k. s' = s \<lparr> packet_cache := c, num_cached_packets := n, mallocs := k \<rparr> \<and>
      (num_cached_packets s = length (packet_cache s) \<longrightarrow> n = length c)"
    and "p = Some q \<Longrightarrow> len \<le> length (pkt_buf q)"
    and "p = None \<Longrightarrow> \<not> malloc_never_fails env"
proof -
  have gc: "get_cached len cache n = (q, cache', n') \<Longrightarrow>
      (n = length cache \<longrightarrow> n' = length cache') \<and> (\<forall>p. q = Some p \<longrightarrow> len \<le> length (pkt_buf p))"
    for cache n q cache' n'
    by (induction len cache n arbitrary: q cache' n' rule: get_cached.induct)
      (auto split: if_splits)
  obtain q c n where q: "get_cached len (packet_cache s) (num_cached_packets s) = (q, c, n)"
    by (metis prod_cases3)
  note * = gc [OF q]
  show "\<exists>c n k. s' = s \<lparr> packet_cache := c, num_cached_packets := n, mallocs := k \<rparr> \<and>
      (num_cached_packets s = length (packet_cache s) \<longrightarrow> n = length c)"
    using assms(2) q * by (intro exI [of _ c] exI [of _ n] exI [of _ "mallocs s'"])
      (auto simp: tds_get_packet_def tds_alloc_packet_def Let_def split: option.splits)
  show "p = Some q' \<Longrightarrow> len \<le> length (pkt_buf q')" for q'
    using assms q * by (auto simp: tds_get_packet_def tds_alloc_packet_def malloc_ok_def Let_def
      split: option.splits)
  show "p = None \<Longrightarrow> \<not> malloc_never_fails env"
    using assms q by (auto simp: tds_get_packet_def tds_alloc_packet_def malloc_never_fails_def Let_def
      split: option.splits)
qed

lemma write_out_direct:
  assumes inv: "out_inv s" and unfrozen: "frozen s = 0" and w: "write_out env final None s = (r, s')"
  shows "appends [] s s'" "out_pos s' = out_pos s - out_buf_max s + 8"
    "\<exists>b. sent_log s' = sent_log s @ [(b, final)]"
proof -
  note d = out_invD [OF inv]
  define mx where "mx = out_buf_max s"
  define pos where "pos = min (out_pos s) mx"
  define buf where "buf = pkt_buf (send_packet s)"
  define hb where "hb = write_at buf 0 (packet_header final pos s)"
  define extra where "extra = take (out_pos s - mx) (drop mx buf)"
  define nb where "nb = write_at hb 8 extra"
  have len: "length hb = length buf" "length nb = length buf" "length extra = out_pos s - mx"
    using d by (auto simp: hb_def nb_def extra_def buf_def mx_def)
  have s': "send_packet s' = (send_packet s) \<lparr> pkt_buf := nb \<rparr>" "out_pos s' = out_pos s - mx + 8"
    "sent_log s' = sent_log s @ [(take pos hb, final)]"
    "frozen_packets s' = frozen_packets s" "frozen s' = frozen s" "out_buf_max s' = mx"
    "tds_version s' = tds_version s" "login s' = login s" "out_flag s' = out_flag s"
    "num_cached_packets s' = num_cached_packets s" "packet_cache s' = packet_cache s"
    using w by (auto simp: write_out_def tds_connection_write_def tds_ssl_deinit_def Let_def nb_def hb_def
      extra_def pos_def buf_def mx_def split: prod.splits if_splits)
  have "drop 8 (take (8 + (out_pos s - mx)) nb) = extra"
    using d len by (simp add: nb_def write_at_def mx_def buf_def)
  moreover have "drop 8 (take pos hb) = drop 8 (take pos buf)"
    using d unfolding hb_def by (intro drop_take_write_at_0) (simp_all add: buf_def)
  moreover have "drop 8 (take (out_pos s) buf) = drop 8 (take pos buf) @ extra"
    unfolding pos_def extra_def using d by (intro split_at_max) (simp_all add: buf_def mx_def)
  ultimately have "stream s' = stream s"
    using d(7) [OF unfrozen] by (simp add: stream_def pending_def s' buf_def add.commute)
  moreover have "wire_packet (take pos hb) final"
    unfolding hb_def using d by (intro wire_packet_header) (simp_all add: pos_def mx_def buf_def)
  ultimately show "appends [] s s'"
    using inv d len unfrozen by (simp add: appends_def out_inv_def s' mx_def buf_def TDS_ADDITIONAL_SPACE_def)
  show "out_pos s' = out_pos s - out_buf_max s + 8" by (simp add: s' mx_def)
  show "\<exists>b. sent_log s' = sent_log s @ [(b, final)]" by (simp add: s')
qed

lemma write_out_frozen:
  assumes inv: "out_inv s" and frozen: "frozen s \<noteq> 0" and full: "out_buf_max s \<le> out_pos s"
    and cap: "length (pkt_buf (send_packet s)) \<le> length (pkt_buf p)"
    and w: "write_out env 0 (Some p) s = (r, s')"
  shows "appends [] s s'" "out_pos s' = out_pos s - out_buf_max s + 8" "r = TDS_SUCCESS"
proof -
  note d = out_invD [OF inv]
  define mx where "mx = out_buf_max s"
  define buf where "buf = pkt_buf (send_packet s)"
  define hb where "hb = write_at buf 0 (packet_header 0 mx s)"
  define extra where "extra = take (out_pos s - mx) (drop mx buf)"
  define nb where "nb = write_at (pkt_buf p) 8 extra"
  have len: "length hb = length buf" "length nb = length (pkt_buf p)" "length extra = out_pos s - mx"
    using d cap by (auto simp: hb_def nb_def extra_def buf_def mx_def)
  have s': "send_packet s' = p \<lparr> pkt_buf := nb \<rparr>" "out_pos s' = out_pos s - mx + 8"
    "frozen_packets s' = frozen_packets s @ [\<lparr> pkt_buf = hb, data_len = mx \<rparr>]" "sent_log s' = sent_log s"
    "frozen s' = frozen s" "out_buf_max s' = mx" "r = TDS_SUCCESS"
    "tds_version s' = tds_version s" "login s' = login s" "out_flag s' = out_flag s"
    "num_cached_packets s' = num_cached_packets s" "packet_cache s' = packet_cache s"
    using w full by (auto simp: write_out_def Let_def nb_def hb_def extra_def buf_def mx_def min_absorb2)
  have "drop 8 (take (8 + (out_pos s - mx)) nb) = extra"
    using d len cap by (simp add: nb_def write_at_def mx_def buf_def)
  moreover have "drop 8 (take mx hb) = drop 8 (take mx buf)"
    using d unfolding hb_def by (intro drop_take_write_at_0) (simp_all add: buf_def)
  moreover have "drop 8 (take (out_pos s) buf) = drop 8 (take (min (out_pos s) mx) buf) @ extra"
    unfolding extra_def using d by (intro split_at_max) (simp_all add: buf_def mx_def)
  ultimately have "stream s' = stream s"
    using full by (simp add: stream_def pending_def pkt_payload_def s' buf_def mx_def add.commute min_absorb2)
  moreover have "wire_packet (take mx hb) 0"
    unfolding hb_def using d by (intro wire_packet_header) (simp_all add: mx_def buf_def)
  ultimately show "appends [] s s'"
    using inv d len frozen cap
    by (simp add: appends_def out_inv_def frozen_ok_def s' mx_def buf_def TDS_ADDITIONAL_SPACE_def)
  show "out_pos s' = out_pos s - out_buf_max s + 8" "r = TDS_SUCCESS" by (simp_all add: s' mx_def)
qed

lemma tds_write_packet_appends:
  assumes inv: "out_inv s" and can: "can_write env s" and w: "tds_write_packet env final s = (r, s')"
    and final: "frozen s \<noteq> 0 \<Longrightarrow> final = 0 \<and> out_buf_max s \<le> out_pos s"
  shows "appends [] s s'" "out_pos s' = out_pos s - out_buf_max s + 8"
    "frozen s = 0 \<Longrightarrow> \<exists>b. sent_log s' = sent_log s @ [(b, final)]"
proof -
  have "appends [] s s' \<and> out_pos s' = out_pos s - out_buf_max s + 8 \<and>
      (frozen s = 0 \<longrightarrow> (\<exists>b. sent_log s' = sent_log s @ [(b, final)]))"
  proof (cases "frozen s = 0")
    case True
    then show ?thesis using w write_out_direct [OF inv True] by (simp add: tds_write_packet_def)
  next
    case False
    obtain q t where q: "tds_get_packet env (length (pkt_buf (send_packet s))) s = (q, t)"
      by fastforce
    from can have mok: "malloc_ok env" by (simp add: can_write_def)
    note g = tds_get_packet_props [OF mok q]
    from g(3) False can obtain p where p: "q = Some p" by (cases q) (auto simp: can_write_def)
    from g(1) obtain c n k where t: "t = s \<lparr> packet_cache := c, num_cached_packets := n, mallocs := k \<rparr>"
      "num_cached_packets s = length (packet_cache s) \<longrightarrow> n = length c" by auto
    with inv have "out_inv t" by (simp add: out_inv_def)
    moreover have "write_out env 0 (Some p) t = (r, s')"
      using w False final q p by (simp add: tds_write_packet_def)
    ultimately have "appends [] t s'" "out_pos s' = out_pos t - out_buf_max t + 8"
      using write_out_frozen [of t p env r s'] False final g(2) [OF p] t by simp_all
    moreover have "stream t = stream s" by (simp add: t stream_def pending_def)
    ultimately show ?thesis using t False by (simp add: appends_def)
  qed
  then show "appends [] s s'" "out_pos s' = out_pos s - out_buf_max s + 8"
    "frozen s = 0 \<Longrightarrow> \<exists>b. sent_log s' = sent_log s @ [(b, final)]" by auto
qed

subsection \<open>Putting data appends it\<close>

lemma put_chunk_appends:
  assumes inv: "out_inv s" and room: "out_pos s + length data \<le> out_buf_max s + TDS_ADDITIONAL_SPACE"
  shows "appends data s (put_chunk data s)" "out_pos (put_chunk data s) = out_pos s + length data"
proof -
  note d = out_invD [OF inv]
  have "drop 8 (take (out_pos s + length data) (write_at (pkt_buf (send_packet s)) (out_pos s) data)) =
      drop 8 (take (out_pos s) (pkt_buf (send_packet s))) @ data"
    using d by (simp add: take_write_at_end)
  with inv room show "appends data s (put_chunk data s)"
    by (simp add: appends_def out_inv_def stream_def pending_def put_chunk_def)
qed (simp add: put_chunk_def)

lemma make_room_appends:
  assumes "out_inv s" "can_write env s"
  shows "appends [] s (make_room env s)" "out_pos (make_room env s) < out_buf_max (make_room env s)"
proof -
  obtain r t where t: "tds_write_packet env 0 s = (r, t)" by fastforce
  have "appends [] s (make_room env s) \<and> out_pos (make_room env s) < out_buf_max (make_room env s)"
  proof (cases "out_buf_max s \<le> out_pos s")
    case True
    with tds_write_packet_appends [OF assms t] out_invD [OF assms(1)] show ?thesis
      by (simp add: make_room_def t appends_def)
  qed (use assms in \<open>simp add: make_room_def appends_refl\<close>)
  then show "appends [] s (make_room env s)" "out_pos (make_room env s) < out_buf_max (make_room env s)"
    by simp_all
qed

lemma put_fixed_appends:
  assumes "out_inv s" "can_write env s" "length data \<le> 8"
  shows "appends data s (put_chunk data (make_room env s))"
proof -
  note r = make_room_appends [OF assms(1,2)]
  have "appends data (make_room env s) (put_chunk data (make_room env s))"
    using r(2) assms(3) by (intro put_chunk_appends(1) appends_inv [OF r(1)])
      (simp add: TDS_ADDITIONAL_SPACE_def)
  with appends_trans [OF r(1)] show ?thesis by fastforce
qed

lemma tds_put_n_0 [simp]: "tds_put_n env bufp 0 s = Some s"
  by (subst tds_put_n.simps) simp

lemma tds_put_n_appends:
  assumes "out_inv s" "can_write env s" "\<And>b. bufp = Some b \<Longrightarrow> length b = n"
  shows "\<exists>s'. tds_put_n env bufp n s = Some s' \<and>
           appends (case bufp of None \<Rightarrow> replicate n 0 | Some b \<Rightarrow> b) s s'"
  using assms
proof (induction n arbitrary: bufp s rule: less_induct)
  case (less n)
  let ?data = "\<lambda>n bufp. case bufp of None \<Rightarrow> replicate n (0 :: byte) | Some b \<Rightarrow> b"
  have main: "\<exists>s'. tds_put_n env bufp n t = Some s' \<and> appends (?data n bufp) t s'"
    if t: "out_inv t" "can_write env t" "out_pos t < out_buf_max t" and n: "n \<noteq> 0" for t
  proof -
    define left where "left = min (out_buf_max t - out_pos t) n"
    define chunk where "chunk = (case bufp of None \<Rightarrow> replicate left 0 | Some b \<Rightarrow> take left b)"
    define bufp' where "bufp' = map_option (drop left) bufp"
    have left: "0 < left" "left \<le> n" "length chunk = left" "out_pos t + left \<le> out_buf_max t"
      using t n less.prems(3) by (auto simp: left_def chunk_def split: option.splits)
    have ap: "appends chunk t (put_chunk chunk t)"
      using t(1) left by (intro put_chunk_appends) simp_all
    have "\<exists>s'. tds_put_n env bufp' (n - left) (put_chunk chunk t) = Some s' \<and>
        appends (?data (n - left) bufp') (put_chunk chunk t) s'"
      using less.prems(3) left n ap t
      by (intro less.IH) (auto simp: bufp'_def appends_inv appends_can_write)
    then obtain s' where s': "tds_put_n env bufp' (n - left) (put_chunk chunk t) = Some s'"
      "appends (?data (n - left) bufp') (put_chunk chunk t) s'" by auto
    have "?data n bufp = chunk @ ?data (n - left) bufp'"
      using left by (auto simp: chunk_def bufp'_def replicate_add [symmetric] split: option.splits)
    with appends_trans [OF ap s'(2)] have "appends (?data n bufp) t s'" by simp
    moreover have "tds_put_n env bufp n t = Some s'"
      using s'(1) t(3) n
      by (subst tds_put_n.simps)
        (simp add: Let_def left_def [symmetric] chunk_def [symmetric] bufp'_def [symmetric])
    ultimately show ?thesis by blast
  qed
  show ?case
  proof (cases "n = 0")
    case True
    with less.prems(3) have "?data n bufp = []" by (auto split: option.splits)
    with True less.prems(1) show ?thesis by (simp add: appends_refl)
  next
    case False
    let ?t = "make_room env s"
    have t: "appends [] s ?t" "out_pos ?t < out_buf_max ?t"
      using make_room_appends [OF less.prems(1,2)] by simp_all
    then have "\<exists>s'. tds_put_n env bufp n ?t = Some s' \<and> appends (?data n bufp) ?t s'"
      using less.prems(2) False by (intro main appends_inv [OF t(1)] appends_can_write [OF t(1)])
    moreover have "tds_put_n env bufp n s = tds_put_n env bufp n ?t"
    proof (cases "out_buf_max s \<le> out_pos s")
      case True
      with False show ?thesis by (subst tds_put_n.simps) (simp add: make_room_def)
    qed (simp add: make_room_def)
    ultimately show ?thesis using appends_trans [OF t(1)] by fastforce
  qed
qed

subsection \<open>Flushing\<close>

lemma write_out_result:
  assumes "out_inv s" "frozen s = 0" "writes_ok env" "tds_write_packet env final s = (r, s')"
  shows "r = TDS_SUCCESS" "dead s' \<Longrightarrow> dead s \<or> snd (conn_write env (sent_log s) (fst (last (sent_log s'))) final)"
proof -
  note d = out_invD [OF assms(1)]
  define b where "b = take (min (out_pos s) (out_buf_max s)) (write_at (pkt_buf (send_packet s)) 0
      (packet_header final (min (out_pos s) (out_buf_max s)) s))"
  have b: "length b = min (out_pos s) (out_buf_max s)" using d by (simp add: b_def)
  then have "b \<noteq> []" using d by auto
  obtain n x where n: "conn_write env (sent_log s) b final = (n, x)" by fastforce
  with \<open>b \<noteq> []\<close> assms(3) have "0 < n" by (metis fst_conv writes_ok_def)
  have w: "write_out env final None s = (r, s')" using assms by (simp add: tds_write_packet_def)
  show "r = TDS_SUCCESS"
    using w n \<open>0 < n\<close> by (simp add: write_out_def Let_def b_def [symmetric] tds_connection_write_def)
  show "dead s' \<Longrightarrow> dead s \<or> snd (conn_write env (sent_log s) (fst (last (sent_log s'))) final)"
    using w n by (auto simp: write_out_def Let_def b_def [symmetric] tds_connection_write_def tds_ssl_deinit_def
      split: if_splits)
qed

lemma pending_empty: "out_inv s \<Longrightarrow> frozen s = 0 \<Longrightarrow> out_pos s = 8 \<Longrightarrow> pending s = []"
  using out_invD(7) [of s] by (simp add: pending_def)

text \<open>C27: on a live connection that takes the packets, \<open>tds_flush_packet\<close> succeeds and sends
  everything that was put, nothing stays behind, and of the packets it writes the last, and only
  the last, carries the end-of-message flag.\<close>

theorem tds_flush_packet_sends_all:
  assumes "out_inv s" "frozen s = 0" "malloc_ok env" "writes_ok env" "\<not> dead s"
    "tds_flush_packet env s = (r, s')"
  shows "r = TDS_SUCCESS \<and> out_inv s' \<and> stream s' = stream s \<and> pending s' = [] \<and>
    (\<exists>more b. sent_log s' = sent_log s @ more @ [(b, 1)] \<and> list_all (\<lambda>(b, final). final = 0) more)"
proof -
  have can: "can_write env s" using assms by (simp add: can_write_def)
  have last_write: "r' = TDS_SUCCESS \<and> appends [] t t' \<and> pending t' = [] \<and> (\<exists>b. sent_log t' = sent_log t @ [(b, 1)])"
    if "out_inv t" "frozen t = 0" "out_pos t \<le> out_buf_max t" "tds_write_packet env 1 t = (r', t')" for t t' r'
  proof -
    have "can_write env t" using that assms by (simp add: can_write_def)
    note a = tds_write_packet_appends [OF that(1) this that(4)]
    show ?thesis using a write_out_result(1) [OF that(1,2) assms(4) that(4)] that pending_empty [of t']
      by (auto simp: appends_def)
  qed
  show ?thesis
  proof (cases "out_buf_max s < out_pos s")
    case False
    with assms(5,6) have "tds_write_packet env 1 s = (r, s')" by (simp add: tds_flush_packet_def)
    from last_write [OF assms(1,2) _ this] False obtain b
      where l: "r = TDS_SUCCESS" "appends [] s s'" "pending s' = []" "sent_log s' = sent_log s @ [(b, 1)]"
      by auto
    have "\<exists>more b. sent_log s' = sent_log s @ more @ [(b, 1)] \<and> list_all (\<lambda>(b, final). final = 0) more"
      by (rule exI [of _ "[]"], rule exI [of _ b]) (simp add: l)
    with l show ?thesis by (simp add: appends_def)
  next
    case True
    obtain q t where t: "tds_write_packet env 0 s = (q, t)" by fastforce
    have q: "q = TDS_SUCCESS" by (rule write_out_result(1) [OF assms(1,2,4) t])
    note a = tds_write_packet_appends [OF assms(1) can t]
    have "tds_write_packet env 1 t = (r, s')"
      using assms(5,6) True t q by (simp add: tds_flush_packet_def)
    moreover have "appends [] s t" using a(1) assms(2) by simp
    moreover have "out_pos t \<le> out_buf_max t"
      using a(2) assms(2) out_invD(1,4) [OF assms(1)] \<open>appends [] s t\<close> by (simp add: appends_def)
    moreover obtain b where b: "sent_log t = sent_log s @ [(b, 0)]" using a(3) assms(2) by auto
    ultimately obtain c where l: "r = TDS_SUCCESS" "appends [] t s'" "pending s' = []"
      "sent_log s' = sent_log t @ [(c, 1)]"
      using last_write [of t r s'] assms(2) by (auto simp: appends_def)
    have "\<exists>more b. sent_log s' = sent_log s @ more @ [(b, 1)] \<and> list_all (\<lambda>(b, final). final = 0) more"
      by (rule exI [of _ "[(b, 0)]"], rule exI [of _ c]) (simp add: l b)
    with l \<open>appends [] s t\<close> show ?thesis by (simp add: appends_def)
  qed
qed

subsection \<open>The network as a sink of bytes\<close>

text \<open>What the clients of the packet layer rely on: putting bytes appends them to the stream
  and keeps the state legal.\<close>

locale byte_sink =
  fixes ok :: "'s \<Rightarrow> bool" and content :: "'s \<Rightarrow> byte list" and put :: "byte list \<Rightarrow> 's \<Rightarrow> 's option"
  assumes put_ok: "ok s \<Longrightarrow> \<exists>s'. put data s = Some s' \<and> ok s' \<and> content s' = content s @ data"
begin

lemma put_all:
  assumes "ok s"
  shows "\<exists>s'. foldl (\<lambda>r data. Option.bind r (put data)) (Some s) chunks = Some s' \<and> ok s' \<and>
      content s' = content s @ concat chunks"
  using assms
proof (induction chunks arbitrary: s)
  case (Cons data chunks)
  from put_ok [OF Cons.prems] obtain t where t: "put data s = Some t" "ok t" "content t = content s @ data"
    by blast
  from Cons.IH [OF t(2)] t show ?case by simp
qed simp

lemma put_split:
  assumes "ok s" "put (xs @ ys) s = Some t" "Option.bind (put xs s) (put ys) = Some u"
  shows "content t = content u"
proof -
  from put_ok [OF assms(1), of xs] obtain v where v: "put xs s = Some v" "ok v" "content v = content s @ xs"
    by blast
  from put_ok [OF v(2), of ys] put_ok [OF assms(1), of "xs @ ys"] v assms show ?thesis by auto
qed

end

definition sink_ok :: "env \<Rightarrow> tdssocket \<Rightarrow> bool" where
  "sink_ok env s \<longleftrightarrow> out_inv s \<and> can_write env s"

interpretation wire: byte_sink "sink_ok env" stream "\<lambda>data. tds_put_n env (Some data) (length data)" for env
proof
  fix s data
  assume "sink_ok env s"
  then have s: "out_inv s" "can_write env s" by (simp_all add: sink_ok_def)
  from tds_put_n_appends [OF this, of "Some data" "length data"]
  obtain s' where s': "tds_put_n env (Some data) (length data) s = Some s'" "appends data s s'" by auto
  then show "\<exists>s'. tds_put_n env (Some data) (length data) s = Some s' \<and> sink_ok env s' \<and>
      stream s' = stream s @ data"
    using s appends_can_write [of data s s'] by (auto simp: sink_ok_def appends_def)
qed


text \<open>The fixed-size writers put the little endian bytes of their argument, after sending
  the packet when it is full, and never leave the buffer although they store past
  \<open>out_buf_max\<close>: the slack of \<open>TDS_ADDITIONAL_SPACE\<close> bytes absorbs it.\<close>

theorem tds_put_integers_stream:
  assumes "out_inv s" "malloc_ok env" "frozen s = 0 \<or> malloc_never_fails env"
  shows "appends [c] s (tds_put_byte env c s) \<and>
    appends (TDS_PUT_A2LE (unat si)) s (tds_put_smallint env si s) \<and>
    appends (TDS_PUT_A4LE (unat i)) s (tds_put_int env i s) \<and>
    appends (TDS_PUT_A4LE (unat i8 mod 2 ^ 32) @ TDS_PUT_A4LE (unat i8 div 2 ^ 32)) s (tds_put_int8 env i8 s)"
proof -
  have can: "can_write env s" using assms by (auto simp: can_write_def)
  have lo: "unat (ucast i8 :: u32) = unat i8 mod 2 ^ 32"
    by (simp add: unsigned_ucast_eq take_bit_eq_mod)
  have "unat i8 < 2 ^ 64" using unsigned_less [of i8] by simp
  then have hi: "unat (ucast (drop_bit 32 i8) :: u32) = unat i8 div 2 ^ 32"
    by (simp only: unsigned_ucast_eq unsigned_drop_bit_eq take_bit_eq_mod)
      (simp add: drop_bit_eq_div div_less_iff_less_mult)
  show ?thesis
    unfolding tds_put_byte_def tds_put_smallint_def tds_put_int_def tds_put_int8_def lo hi
    by (intro conjI put_fixed_appends [OF assms(1) can]) simp_all
qed

text \<open>A socket and an environment for the witnesses.\<close>

definition demo_env :: env where
  "demo_env = \<lparr> malloc = (\<lambda>k n. Some (replicate n 0xA5)), conn_write = (\<lambda>log b final. (int (length b), False)) \<rparr>"

definition demo_socket :: tdssocket where
  "demo_socket = (the (tds_init_socket demo_env 32)) \<lparr> dead := False, tds_version := 0x704, out_flag := 3 \<rparr>"

lemma demo_ok: "out_inv demo_socket" "malloc_ok demo_env" "malloc_never_fails demo_env" "writes_ok demo_env"
  "stream demo_socket = []" "frozen demo_socket = 0" "IS_TDS7_PLUS demo_socket" "dead demo_socket = False"
  by (simp_all add: demo_socket_def demo_env_def tds_init_socket_def tds_init_write_buf_def malloc_ok_def
      malloc_never_fails_def writes_ok_def out_inv_def stream_def pending_def TDS_ADDITIONAL_SPACE_def
      IS_TDS7_PLUS_def)


theorem tds_put_integers_stream_witness:
  "stream (tds_put_int demo_env 0x01020304 demo_socket) = [4, 3, 2, 1]"
  using tds_put_integers_stream [OF demo_ok(1,2), where i = "0x01020304"] demo_ok
  by (simp add: appends_def TDS_PUT_A4LE_def u8_of_def)

theorem tds_flush_packet_sends_all_witness:
  "stream (snd (tds_flush_packet demo_env demo_socket)) = [] \<and>
   snd (last (sent_log (snd (tds_flush_packet demo_env demo_socket)))) = 1"
proof -
  obtain r s' where f: "tds_flush_packet demo_env demo_socket = (r, s')" by fastforce
  from tds_flush_packet_sends_all [OF demo_ok(1,6,2,4) _ f] demo_ok(5,8) f show ?thesis by auto
qed

subsection \<open>Buffers: start, resizing, streams and exhaustion of memory\<close>

lemma tds_realloc_packet_props:
  assumes "malloc_ok env" "tds_realloc_packet env p len s = (q, t)"
  shows "\<exists>k. t = s \<lparr> mallocs := k \<rparr>"
    and "q = Some p' \<Longrightarrow> len \<le> length (pkt_buf p') \<and> take (length (pkt_buf p)) (pkt_buf p') = pkt_buf p"
proof -
  show "\<exists>k. t = s \<lparr> mallocs := k \<rparr>"
    using assms(2) by (cases "length (pkt_buf p) < len")
      (auto simp: tds_realloc_packet_def intro: exI [of _ "mallocs s"])
  show "q = Some p' \<Longrightarrow> len \<le> length (pkt_buf p') \<and> take (length (pkt_buf p)) (pkt_buf p') = pkt_buf p"
    using assms by (cases "length (pkt_buf p) < len")
      (auto simp: tds_realloc_packet_def malloc_ok_def write_at_def)
qed

text \<open>A new socket is in a legal state with an empty stream.\<close>

lemma tds_init_socket_inv:
  assumes "malloc_ok env" "24 < bufsize" "bufsize < 2 ^ 16" "tds_init_socket env bufsize = Some s"
  shows "out_inv s" "stream s = []"
  using assms by (auto simp: tds_init_socket_def tds_init_write_buf_def out_inv_def stream_def pending_def
      malloc_ok_def TDS_ADDITIONAL_SPACE_def)

text \<open>The change of the packet size that the server asks for (\<open>tds_realloc_socket\<close>) keeps
  the state legal and the stream unchanged; it is refused, and \<open>out_buf_max\<close> kept, when data is
  frozen, when more data is buffered than the new size holds, or when there is no memory.\<close>

theorem tds_realloc_socket_safe:
  assumes "malloc_ok env" and inv: "out_inv s" and b: "bufsize < 2 ^ 16"
    and r: "tds_realloc_socket env bufsize s = (done, s')"
  shows "out_inv s' \<and> stream s' = stream s \<and> sent_log s' = sent_log s \<and>
      out_buf_max s' = (if done then max 512 bufsize else out_buf_max s) \<and>
      (done \<longrightarrow> frozen s = 0 \<and> out_pos s \<le> max 512 bufsize)"
proof -
  note d = out_invD [OF inv]
  define bs where "bs = max 512 bufsize"
  have bs: "(if bufsize < 512 then 512 else bufsize) = bs" by (simp add: bs_def)
  show ?thesis
  proof (cases "bs < out_pos s \<or> frozen s \<noteq> 0")
    case True
    with r have "s' = s" "\<not> done" by (simp_all add: tds_realloc_socket_def bs)
    with inv show ?thesis by simp
  next
    case False
    obtain q t where q: "tds_realloc_packet env (send_packet s) (bs + TDS_ADDITIONAL_SPACE)
        (s \<lparr> block_size := bs \<rparr>) = (q, t)" by fastforce
    obtain k where t: "t = s \<lparr> block_size := bs, mallocs := k \<rparr>"
      using tds_realloc_packet_props(1) [OF assms(1) q] by auto
    show ?thesis
    proof (cases q)
      case None
      with r False q t have "s' = t" "\<not> done" by (auto simp: tds_realloc_socket_def bs Let_def)
      with inv t show ?thesis by (simp add: out_inv_def stream_def pending_def)
    next
      case (Some p)
      with r False q t have s': "s' = t \<lparr> out_buf_max := bs, send_packet := p \<rparr>" "done"
        by (auto simp: tds_realloc_socket_def bs Let_def)
      from tds_realloc_packet_props(2) [OF assms(1) q Some]
      have p: "bs + 16 \<le> length (pkt_buf p)" "take (length (pkt_buf (send_packet s))) (pkt_buf p) = pkt_buf (send_packet s)"
        by (simp_all add: TDS_ADDITIONAL_SPACE_def)
      have "take (out_pos s) (pkt_buf (send_packet s)) = take (out_pos s) (pkt_buf p)"
        using d(4,5) by (subst p(2) [symmetric]) (simp add: min_absorb1)
      moreover have "24 < bs" "bs < 2 ^ 16" using b by (auto simp: bs_def)
      ultimately show ?thesis
        using inv p(1) d(3,7) False s' t
        by (simp add: out_inv_def stream_def pending_def TDS_ADDITIONAL_SPACE_def bs_def [symmetric])
    qed
  qed
qed

theorem tds_realloc_socket_safe_witness:
  "stream (snd (tds_realloc_socket demo_env 4096 demo_socket)) = [] \<and>
   fst (tds_realloc_socket demo_env 4096 demo_socket) \<and>
   out_buf_max (snd (tds_realloc_socket demo_env 4096 demo_socket)) = 4096"
proof -
  obtain d s' where f: "tds_realloc_socket demo_env 4096 demo_socket = (d, s')" by fastforce
  have d: "d" using f by (simp add: tds_realloc_socket_def tds_realloc_packet_def demo_socket_def demo_env_def
    tds_init_socket_def tds_init_write_buf_def TDS_ADDITIONAL_SPACE_def)
  from tds_realloc_socket_safe [OF demo_ok(2,1) _ f] d demo_ok(5) f show ?thesis by simp
qed

text \<open>A producer may store as much as \<open>buf_len\<close> says into the send buffer; accounting
  for it with \<open>tds_dataout_stream_write\<close> appends exactly these bytes, keeps the state legal, and
  leaves room for more.\<close>

lemma tds_dataout_stream_write_appends:
  assumes inv: "out_inv s" and can: "can_write env s" and len: "length data \<le> dataout_left s"
    and w: "tds_dataout_stream_write env (length data) (dataout_store data s) = (n, s')"
  shows "n = int (length data)" "appends data s s'" "16 \<le> dataout_left s'"
proof -
  note d = out_invD [OF inv]
  let ?t = "put_chunk data s"
  have w': "n = int (length data)" "s' = (if out_buf_max ?t < out_pos ?t then snd (tds_write_packet env 0x0 ?t) else ?t)"
    using w by (auto simp: tds_dataout_stream_write_def dataout_store_def put_chunk_def Let_def)
  have t: "appends data s ?t"
    using len d by (intro put_chunk_appends [OF inv]) (simp add: dataout_left_def TDS_ADDITIONAL_SPACE_def)
  have can: "can_write env ?t" using appends_can_write [OF t can] .
  obtain r u where u: "tds_write_packet env 0 ?t = (r, u)" by fastforce
  note a = tds_write_packet_appends [OF appends_inv [OF t] can u]
  have "appends data s s' \<and> 16 \<le> dataout_left s'"
  proof (cases "out_buf_max ?t < out_pos ?t")
    case True
    with a have "appends [] ?t u" "out_pos u = out_pos ?t - out_buf_max ?t + 8" by simp_all
    moreover from appends_trans [OF t this(1)] have "appends data s u" by simp
    ultimately show ?thesis using True u out_invD(1,4) [OF appends_inv [OF t]] w'(2)
      by (simp add: dataout_left_def TDS_ADDITIONAL_SPACE_def appends_def)
  next
    case False
    with t show ?thesis by (simp add: w' dataout_left_def TDS_ADDITIONAL_SPACE_def)
  qed
  with w'(1) show "n = int (length data)" "appends data s s'" "16 \<le> dataout_left s'" by simp_all
qed

text \<open>C28: \<open>tds_put_n\<close> ignores that \<open>tds_write_packet\<close> failed: when the packet is full, data is
  frozen and no packet can be had from the cache or the heap, the call never returns.\<close>

theorem tds_put_n_spins_without_memory:
  assumes "\<forall>k n. malloc env k n = None" "frozen s \<noteq> 0" "packet_cache s = []" "out_buf_max s \<le> out_pos s" "n \<noteq> 0"
  shows "tds_put_n env bufp n s = None"
proof -
  have fails: "snd (tds_write_packet env 0 t) = t \<lparr> packet_cache := [], mallocs := mallocs t + 1 \<rparr>"
    if "frozen t \<noteq> 0" "packet_cache t = []" for t
    using that assms(1) by (auto simp: tds_write_packet_def tds_get_packet_def tds_alloc_packet_def Let_def)
  have "e = env \<longrightarrow> \<not> (frozen s \<noteq> 0 \<and> packet_cache s = [] \<and> out_buf_max s \<le> out_pos s \<and> n \<noteq> 0)"
    if "tds_put_n e b n s = Some y" for e b n s y
  proof (rule tds_put_n.raw_induct [OF _ that], intro impI notI)
    fix f e b n s y
    assume IH: "\<And>e b n s y. f e b n s = Some y \<Longrightarrow>
        e = env \<longrightarrow> \<not> (frozen s \<noteq> 0 \<and> packet_cache s = [] \<and> out_buf_max s \<le> out_pos s \<and> n \<noteq> 0)"
      and body: "(if n = 0 then Some s
        else if out_buf_max s \<le> out_pos s then f e b n (snd (tds_write_packet e 0 s))
        else let left = min (out_buf_max s - out_pos s) n;
                 data = case b of None \<Rightarrow> replicate left 0 | Some xs \<Rightarrow> take left xs
             in f e (map_option (drop left) b) (n - left) (put_chunk data s)) = Some y"
      and e: "e = env" and s: "frozen s \<noteq> 0 \<and> packet_cache s = [] \<and> out_buf_max s \<le> out_pos s \<and> n \<noteq> 0"
    from body s have "f e b n (snd (tds_write_packet e 0 s)) = Some y" by simp
    from IH [OF this] fails [of s] s e show False by simp
  qed
  then have "tds_put_n env bufp n s \<noteq> Some y" for y using assms by blast
  then show ?thesis by (metis not_Some_eq)
qed

theorem tds_put_n_spins_without_memory_witness:
  "tds_put_n \<lparr> malloc = (\<lambda>k n. None), conn_write = (\<lambda>log b final. (int (length b), False)) \<rparr> None 1
     (demo_socket \<lparr> frozen := 1, out_pos := 32 \<rparr>) = None"
  by (rule tds_put_n_spins_without_memory)
    (simp_all add: demo_socket_def demo_env_def tds_init_socket_def tds_init_write_buf_def)

end
