(* ===== verification/Freeze.thy ===== *)
theory Freeze
  imports Wire_Out
begin

text \<open>
  The freeze functions of \<open>src/tds/packet.c\<close>: data written between \<open>tds_freeze\<close> and its
  close stays in a chain of packets, so that its length can be stored in front of it
  afterwards, or all of it can be dropped. A \<open>TDSFREEZE\<close> refers to its packet by the index
  in the chain of \<open>Wire_Out\<close>.
\<close>

record tdsfreeze =
  fr_pkt :: nat
  fr_pkt_pos :: nat
  fr_size_len :: nat

subsection \<open>Freezing\<close>

definition u32_sub :: "nat \<Rightarrow> nat \<Rightarrow> nat" where
  "u32_sub a b = nat ((int a - int b) mod 2 ^ 32)"

definition int32_of :: "nat \<Rightarrow> int" where
  "int32_of n = sint (word_of_nat n :: u32)"

definition tds_freeze :: "env \<Rightarrow> nat \<Rightarrow> tdssocket \<Rightarrow> (tdsfreeze \<times> tdssocket) option" where
  "tds_freeze env size_len s =
     (let s = (if out_buf_max s < out_pos s then snd (tds_write_packet env 0x0 s) else s);
          s = (if frozen s = 0 then s \<lparr> frozen_packets := [] \<rparr> else s);
          s = s \<lparr> frozen := frozen s + 1 \<rparr>;
          f = \<lparr> fr_pkt = length (frozen_packets s), fr_pkt_pos = out_pos s, fr_size_len = size_len \<rparr>
      in if size_len = 0 then Some (f, s)
         else map_option (Pair f) (tds_put_n env None size_len s))"

definition tds_freeze_written :: "tdsfreeze \<Rightarrow> tdssocket \<Rightarrow> nat" where
  "tds_freeze_written f s =
     u32_sub (out_pos s + (\<Sum>p\<leftarrow>drop (fr_pkt f) (frozen_packets s). data_len p - 8)) (fr_pkt_pos f)"

definition tds_freeze_abort :: "tdsfreeze \<Rightarrow> tdssocket \<Rightarrow> tdsret \<times> tdssocket" where
  "tds_freeze_abort f s =
     (let pkts = frozen_packets s @ [send_packet s];
          s = (if fr_pkt f < length (frozen_packets s)
               then (tds_packet_cache_add (drop (Suc (fr_pkt f)) pkts) s)
                      \<lparr> frozen_packets := take (fr_pkt f) pkts, send_packet := pkts ! fr_pkt f \<rparr>
               else s);
          s = s \<lparr> out_pos := fr_pkt_pos f, send_packet := (send_packet s) \<lparr> data_len := 8 \<rparr>,
                  frozen := frozen s - 1 \<rparr>
      in (TDS_SUCCESS, if frozen s = 0 then s \<lparr> frozen_packets := [] \<rparr> else s))"

text \<open>The loop of \<open>tds_freeze_update_size\<close> over the list of packets; \<open>size >>= 8\<close> is the
  arithmetic shift of an \<open>int32_t\<close>.\<close>

fun update_size_loop :: "nat \<Rightarrow> tdspacket list \<Rightarrow> nat \<Rightarrow> nat \<Rightarrow> int \<Rightarrow> tdspacket list" where
  "update_size_loop 0 pkts k pos sz = pkts"
| "update_size_loop (Suc size_len) pkts k pos sz =
     (case (if data_len (pkts ! k) \<le> pos \<and> Suc k < length pkts then (Suc k, 8) else (k, pos)) of
        (k, pos) \<Rightarrow>
          update_size_loop size_len
            (pkts [k := (pkts ! k) \<lparr> pkt_buf := write_at (pkt_buf (pkts ! k)) pos [word_of_int sz] \<rparr>])
            k (pos + 1) (sz div 256))"

definition tds_freeze_update_size :: "tdsfreeze \<Rightarrow> int \<Rightarrow> tdssocket \<Rightarrow> tdssocket" where
  "tds_freeze_update_size f sz s =
     (let pkts = update_size_loop (fr_size_len f) (frozen_packets s @ [send_packet s])
                   (fr_pkt f) (fr_pkt_pos f) sz
      in s \<lparr> frozen_packets := butlast pkts, send_packet := last pkts \<rparr>)"

fun send_frozen :: "env \<Rightarrow> tdspacket list \<Rightarrow> tdssocket \<Rightarrow> tdsret \<times> tdssocket" where
  "send_frozen env [] s = (TDS_SUCCESS, s)"
| "send_frozen env (p # ps) s =
     (case tds_connection_write env (take (data_len p) (pkt_buf p)) 0 s of
        (sent, s) \<Rightarrow> if sent \<le> 0 then (TDS_FAIL, s) else send_frozen env ps s)"

definition tds_freeze_close_len :: "env \<Rightarrow> tdsfreeze \<Rightarrow> int \<Rightarrow> tdssocket \<Rightarrow> tdsret \<times> tdssocket" where
  "tds_freeze_close_len env f sz s =
     (let s = (if fr_size_len f \<noteq> 0 then tds_freeze_update_size f sz s else s);
          s = s \<lparr> frozen := frozen s - 1 \<rparr>
      in if frozen s \<noteq> 0 then (TDS_SUCCESS, s)
         else let pkts = drop (fr_pkt f) (frozen_packets s)
              in case send_frozen env pkts (s \<lparr> frozen_packets := [] \<rparr>) of
                   (rc, s) \<Rightarrow> (rc, if pkts \<noteq> [] then tds_packet_cache_add pkts s else s))"

definition tds_freeze_close :: "env \<Rightarrow> tdsfreeze \<Rightarrow> tdssocket \<Rightarrow> tdsret \<times> tdssocket" where
  "tds_freeze_close env f s =
     tds_freeze_close_len env f
       (if fr_size_len f \<noteq> 0 then int32_of (u32_sub (tds_freeze_written f s) (fr_size_len f)) else 0) s"

definition tds_freeze_close_string :: "env \<Rightarrow> tdsfreeze \<Rightarrow> tdssocket \<Rightarrow> tdsret \<times> tdssocket" where
  "tds_freeze_close_string env f s =
     (let written = u32_sub (tds_freeze_written f s) (fr_size_len f);
          written = (if IS_TDS7_PLUS s then written div 2 else written)
      in tds_freeze_close_len env f (int32_of written) s)"

subsection \<open>Frozen packets as one buffer\<close>

text \<open>Every frozen packet carries the same number of bytes, so a position in the chain of
  packets is an offset in \<open>pending\<close>.\<close>

fun le_bytes :: "nat \<Rightarrow> int \<Rightarrow> byte list" where
  "le_bytes 0 v = []"
| "le_bytes (Suc n) v = word_of_int v # le_bytes n (v div 256)"

lemma length_le_bytes [simp]: "length (le_bytes n v) = n"
  by (induction n arbitrary: v) simp_all

definition views :: "tdspacket list \<Rightarrow> nat \<Rightarrow> byte list list" where
  "views pkts pos = map pkt_payload (butlast pkts) @ [drop 8 (take pos (pkt_buf (last pkts)))]"

lemma pending_views: "pending s = concat (views (frozen_packets s @ [send_packet s]) (out_pos s))"
  by (simp add: pending_def views_def)

lemma length_concat_blocks:
  "list_all (\<lambda>v. length v = m) vs \<Longrightarrow> length (concat vs) = length vs * m"
  by (induction vs) simp_all

lemma concat_update_block:
  assumes "k < length vs" "j < length (vs ! k)" "\<And>i. i < k \<Longrightarrow> length (vs ! i) = m"
  shows "concat (vs [k := (vs ! k) [j := b]]) = (concat vs) [k * m + j := b]"
  using assms
proof (induction vs arbitrary: k)
  case (Cons v vs)
  show ?case
  proof (cases k)
    case 0
    with Cons.prems show ?thesis by (simp add: list_update_append1)
  next
    case (Suc l)
    from Cons.prems(3) [of 0] Suc have "length v = m" by simp
    moreover have "concat (vs [l := (vs ! l) [j := b]]) = (concat vs) [l * m + j := b]"
      using Cons.prems(1,2) Cons.prems(3) [of "Suc i" for i] Suc by (intro Cons.IH) auto
    ultimately show ?thesis using Suc by (simp add: list_update_append add.assoc)
  qed
qed simp

lemma take_concat_blocks:
  assumes "k < length vs" "j \<le> length (vs ! k)" "\<And>i. i < k \<Longrightarrow> length (vs ! i) = m"
  shows "take (k * m + j) (concat vs) = concat (take k vs) @ take j (vs ! k)"
  using assms
proof (induction vs arbitrary: k)
  case (Cons v vs)
  show ?case
  proof (cases k)
    case (Suc l)
    from Cons.prems(3) [of 0] Suc have "length v = m" by simp
    moreover have "take (l * m + j) (concat vs) = concat (take l vs) @ take j (vs ! l)"
      using Cons.prems(1,2) Cons.prems(3) [of "Suc i" for i] Suc by (intro Cons.IH) auto
    ultimately show ?thesis using Suc by (simp add: add.assoc)
  qed (use Cons.prems in simp)
qed simp

lemma write_at_one: "off < length xs \<Longrightarrow> write_at xs off [b] = xs [off := b]"
  by (simp add: write_at_def upd_conv_take_nth_drop)

lemma write_at_Cons:
  "off < length xs \<Longrightarrow> write_at (xs [off := b]) (off + 1) bs = write_at xs off (b # bs)"
  by (simp add: write_at_def upd_conv_take_nth_drop take_Suc_conv_app_nth add.commute)

lemma payload_frozen: "frozen_ok mx p \<Longrightarrow> length (pkt_payload p) = mx - 8"
  by (simp add: frozen_ok_def pkt_payload_def)

lemma wire_packet_update:
  "wire_packet b f \<Longrightarrow> 8 \<le> pos \<Longrightarrow> wire_packet (b [pos := v]) f"
  by (simp add: wire_packet_def)

lemma views_nth:
  "k < length pkts \<Longrightarrow> views pkts lp ! k =
     (if Suc k < length pkts then pkt_payload (pkts ! k) else drop 8 (take lp (pkt_buf (pkts ! k))))"
proof -
  assume k: "k < length pkts"
  then have ne: "pkts \<noteq> []" by auto
  show ?thesis
  proof (cases "Suc k < length pkts")
    case True
    then have "k < length pkts - 1" by simp
    with True show ?thesis by (simp add: views_def nth_append nth_butlast)
  next
    case False
    with k have "k = length pkts - 1" by simp
    with False ne show ?thesis by (simp add: views_def nth_append last_conv_nth)
  qed
qed

lemma length_views [simp]: "pkts \<noteq> [] \<Longrightarrow> length (views pkts lp) = length pkts"
  by (simp add: views_def)

lemma views_update:
  assumes "k < length pkts" "8 \<le> pos" "pos - 8 < length (views pkts lp ! k)"
  shows "views (pkts [k := (pkts ! k) \<lparr> pkt_buf := write_at (pkt_buf (pkts ! k)) pos [b] \<rparr>]) lp =
    (views pkts lp) [k := (views pkts lp ! k) [pos - 8 := b]]" (is "?l = ?r")
proof (rule nth_equalityI)
  show "length ?l = length ?r" using assms by (cases "pkts = []") auto
next
  fix i assume "i < length ?l"
  then have i: "i < length pkts" using assms by (cases "pkts = []") (auto simp: views_def)
  have "pkts \<noteq> []" using i by auto
  moreover have "pos < length (pkt_buf (pkts ! k))"
    using assms by (auto simp: views_nth pkt_payload_def split: if_splits)
  moreover have "drop 8 (take n (xs [pos := b])) = (drop 8 (take n xs)) [pos - 8 := b]" for n and xs :: "byte list"
    using assms(2) by (simp add: take_update_swap drop_update_swap)
  ultimately show "?l ! i = ?r ! i"
    using i assms(1) by (auto simp: views_nth nth_list_update write_at_one pkt_payload_def)
qed

lemma update_size_loop_views:
  assumes "k < length pkts" "list_all (frozen_ok mx) (butlast pkts)" "8 < mx" "8 \<le> pos"
    "Suc k < length pkts \<Longrightarrow> pos \<le> mx"
    "k * (mx - 8) + (pos - 8) + n \<le> length (concat (views pkts lp))"
    "list_all (\<lambda>v. length v = mx - 8) (butlast (views pkts lp))"
  shows "concat (views (update_size_loop n pkts k pos sz) lp) =
      write_at (concat (views pkts lp)) (k * (mx - 8) + (pos - 8)) (le_bytes n sz) \<and>
    length (update_size_loop n pkts k pos sz) = length pkts \<and>
    list_all (frozen_ok mx) (butlast (update_size_loop n pkts k pos sz)) \<and>
    length (pkt_buf (last (update_size_loop n pkts k pos sz))) = length (pkt_buf (last pkts))"
  using assms
proof (induction n arbitrary: pkts k pos sz)
  case (Suc n)
  define m where "m = mx - 8"
  obtain k' pos' where kp: "(if data_len (pkts ! k) \<le> pos \<and> Suc k < length pkts then (Suc k, 8) else (k, pos)) = (k', pos')"
    by fastforce
  have fz: "frozen_ok mx (pkts ! i)" if "Suc i < length pkts" for i
    using Suc.prems(2) that by (auto simp: list_all_length nth_butlast)
  have len: "length (views pkts lp ! i) = m" if "Suc i < length pkts" for i
    using fz [OF that] that by (simp add: views_nth payload_frozen m_def)
  have ne: "pkts \<noteq> []" using Suc.prems(1) by auto
  have total: "length (concat (views pkts lp)) = (length pkts - 1) * m + length (views pkts lp ! (length pkts - 1))"
    using Suc.prems(7) ne by (simp add: views_def length_concat_blocks m_def nth_append)
  have off: "k' * m + (pos' - 8) = k * m + (pos - 8)" and k': "k' < length pkts" "8 \<le> pos'"
    and lim: "Suc k' < length pkts \<Longrightarrow> pos' < mx"
    using kp Suc.prems(1,3,4,5) fz [of k] by (auto simp: m_def frozen_ok_def split: if_splits)
  have in_k: "pos' - 8 < length (views pkts lp ! k')"
  proof (cases "Suc k' < length pkts")
    case True
    with lim len [OF True] k' show ?thesis by (simp add: m_def) 
  next
    case False
    with k' have "k' = length pkts - 1" by simp
    with Suc.prems(6) total off show ?thesis by (simp add: m_def)
  qed
  define pkts' where "pkts' = pkts [k' := (pkts ! k') \<lparr> pkt_buf := write_at (pkt_buf (pkts ! k')) pos' [word_of_int sz] \<rparr>]"
  have v': "views pkts' lp = (views pkts lp) [k' := (views pkts lp ! k') [pos' - 8 := word_of_int sz]]"
    unfolding pkts'_def by (rule views_update [OF k' in_k])
  have c': "concat (views pkts' lp) = (concat (views pkts lp)) [k * m + (pos - 8) := word_of_int sz]"
    unfolding v' off [symmetric] using k' ne in_k by (intro concat_update_block) (auto intro: len)
  have buf': "pos' < length (pkt_buf (pkts ! k'))"
    using in_k k' by (auto simp: views_nth pkt_payload_def split: if_splits)
  have fz': "list_all (frozen_ok mx) (butlast pkts')"
  proof -
    have "frozen_ok mx (pkts' ! i)" if "Suc i < length pkts" for i
      using fz [OF that] k' buf' that
      by (cases "i = k'")
        (simp_all add: pkts'_def frozen_ok_def write_at_one take_update_swap wire_packet_update)
    then show ?thesis by (auto simp: list_all_length nth_butlast pkts'_def)
  qed
  have last': "length (pkt_buf (last pkts')) = length (pkt_buf (last pkts))"
    using ne buf' k' by (auto simp: pkts'_def last_conv_nth nth_list_update)
  have vl: "list_all (\<lambda>v. length v = mx - 8) (butlast (views pkts' lp))"
    using fz' by (auto simp: views_def list_all_length payload_frozen)
  have le: "k' * (mx - 8) + (pos' + 1 - 8) + n \<le> length (concat (views pkts' lp))"
    using Suc.prems(6) off k' by (simp add: c' m_def)
  have "k' < length pkts'" "Suc k' < length pkts' \<Longrightarrow> pos' + 1 \<le> mx" "length pkts' = length pkts"
    using k' lim by (auto simp: pkts'_def)
  note IH = Suc.IH [OF this(1) fz' Suc.prems(3) _ this(2) le vl, of "sz div 256"]
  have "update_size_loop (Suc n) pkts k pos sz = update_size_loop n pkts' k' (pos' + 1) (sz div 256)"
    using kp by (simp add: pkts'_def)
  moreover have "write_at (concat (views pkts' lp)) (k' * m + (pos' + 1 - 8)) (le_bytes n (sz div 256)) =
      write_at (concat (views pkts lp)) (k * m + (pos - 8)) (le_bytes (Suc n) sz)"
  proof -
    have "k' * m + (pos' + 1 - 8) = k * m + (pos - 8) + 1" using off k'(2) by simp
    moreover have "k * m + (pos - 8) < length (concat (views pkts lp))"
      using Suc.prems(6) by (simp add: m_def)
    ultimately show ?thesis by (simp only: c' write_at_Cons le_bytes.simps)
  qed
  ultimately show ?case
    using IH k' last' by (simp add: m_def pkts'_def)
qed simp

subsection \<open>The freeze brackets\<close>

lemma appends_pending:
  assumes "appends data s t" "frozen s \<noteq> 0"
  shows "pending t = pending s @ data"
  using assms by (auto simp: appends_def stream_def)

lemma length_pending:
  assumes "out_inv s"
  shows "length (pending s) = length (frozen_packets s) * (out_buf_max s - 8) + (out_pos s - 8)"
proof -
  note d = out_invD [OF assms]
  have "list_all (\<lambda>v. length v = out_buf_max s - 8) (map pkt_payload (frozen_packets s))"
    using d(6) by (simp add: list_all_length payload_frozen)
  with d show ?thesis by (simp add: pending_def length_concat_blocks)
qed

text \<open>Where a freeze starts, as an offset in \<open>pending\<close>, and when it may be closed.\<close>

definition freeze_at :: "tdsfreeze \<Rightarrow> tdssocket \<Rightarrow> nat" where
  "freeze_at f s = fr_pkt f * (out_buf_max s - 8) + (fr_pkt_pos f - 8)"

definition freeze_ok :: "tdsfreeze \<Rightarrow> tdssocket \<Rightarrow> bool" where
  "freeze_ok f s \<longleftrightarrow>
     fr_pkt f \<le> length (frozen_packets s) \<and> 8 \<le> fr_pkt_pos f \<and> fr_pkt_pos f \<le> out_buf_max s \<and>
     freeze_at f s + fr_size_len f \<le> length (pending s)"

lemma tds_freeze_starts:
  assumes inv: "out_inv s" and can: "can_write env s" "malloc_never_fails env"
  obtains f s0 s1 where "tds_freeze env size_len s = Some (f, s1)"
    "appends [] s s0" "appends (replicate size_len 0) (s0 \<lparr> frozen := frozen s + 1 \<rparr>) s1"
    "fr_size_len f = size_len" "fr_pkt f = length (frozen_packets s0)"
    "fr_pkt_pos f = out_pos s0" "out_pos s0 \<le> out_buf_max s"
proof -
  define s0 where "s0 = (if out_buf_max s < out_pos s then snd (tds_write_packet env 0 s) else s)"
  have s0: "appends [] s s0 \<and> out_pos s0 \<le> out_buf_max s"
  proof (cases "out_buf_max s < out_pos s")
    case True
    obtain r t where t: "tds_write_packet env 0 s = (r, t)" by fastforce
    show ?thesis using tds_write_packet_appends [OF inv can(1) t] True out_invD [OF inv]
      by (simp add: s0_def t)
  qed (use inv in \<open>simp add: s0_def appends_refl\<close>)
  then have inv0: "out_inv s0" and fr0: "frozen s0 = frozen s" by (auto simp: appends_def)
  define sf where "sf = s0 \<lparr> frozen := frozen s + 1 \<rparr>"
  have "out_inv sf" "can_write env sf"
    using inv0 can by (simp_all add: sf_def out_inv_def can_write_def)
  then obtain s1 where s1: "tds_put_n env None size_len sf = Some s1" "appends (replicate size_len 0) sf s1"
    using tds_put_n_appends [of sf env None size_len] by auto
  define f where "f = \<lparr> fr_pkt = length (frozen_packets s0), fr_pkt_pos = out_pos s0, fr_size_len = size_len \<rparr>"
  have "(if frozen s0 = 0 then s0 \<lparr> frozen_packets := [] \<rparr> else s0) = s0"
    using out_invD(7) [OF inv0] by simp
  then have "tds_freeze env size_len s = Some (f, s1)"
    using s1 unfolding tds_freeze_def s0_def [symmetric]
    by (simp add: Let_def fr0 f_def sf_def [symmetric]) (auto simp: sf_def fr0)
  then show ?thesis by (rule that [of f s1 s0]) (use s0 s1 in \<open>simp_all add: f_def sf_def\<close>)
qed

lemma tds_freeze_written_eq:
  assumes inv: "out_inv s" and ok: "freeze_ok f s" and small: "length (pending s) - freeze_at f s < 2 ^ 32"
  shows "tds_freeze_written f s = length (pending s) - freeze_at f s"
proof -
  note d = out_invD [OF inv]
  define n m where "n = length (frozen_packets s)" and "m = out_buf_max s - 8"
  have "(\<Sum>p\<leftarrow>ps. data_len p - 8) = length ps * m" if "list_all (frozen_ok (out_buf_max s)) ps" for ps
    using that by (induction ps) (simp_all add: frozen_ok_def m_def)
  moreover have "list_all (frozen_ok (out_buf_max s)) (drop (fr_pkt f) (frozen_packets s))"
    using d(6) by (auto simp: list_all_length)
  ultimately have sum: "(\<Sum>p\<leftarrow>drop (fr_pkt f) (frozen_packets s). data_len p - 8) = (n - fr_pkt f) * m"
    by (simp add: n_def)
  from ok obtain j where "n = fr_pkt f + j" by (auto simp: freeze_ok_def n_def le_iff_add)
  then have eq: "out_pos s + (n - fr_pkt f) * m = length (pending s) - freeze_at f s + fr_pkt_pos f"
    using d(3) ok by (simp add: length_pending [OF inv] freeze_ok_def freeze_at_def n_def [symmetric]
      m_def [symmetric] algebra_simps, arith)
  show ?thesis
    unfolding tds_freeze_written_def sum u32_sub_def eq using small by simp
qed

lemma tds_freeze_update_size_eq:
  assumes inv: "out_inv s" and ok: "freeze_ok f s"
  shows "\<exists>fp sp. tds_freeze_update_size f sz s = s \<lparr> frozen_packets := fp, send_packet := sp \<rparr> \<and>
    length fp = length (frozen_packets s) \<and> out_inv (tds_freeze_update_size f sz s) \<and>
    pending (tds_freeze_update_size f sz s) =
      write_at (pending s) (freeze_at f s) (le_bytes (fr_size_len f) sz)"
proof -
  note d = out_invD [OF inv]
  define pkts where "pkts = frozen_packets s @ [send_packet s]"
  define pkts' where "pkts' = update_size_loop (fr_size_len f) pkts (fr_pkt f) (fr_pkt_pos f) sz"
  have vl: "list_all (\<lambda>v. length v = out_buf_max s - 8) (butlast (views pkts (out_pos s)))"
    using d(6) by (simp add: views_def pkts_def list_all_length payload_frozen)
  have *: "concat (views pkts' (out_pos s)) =
      write_at (concat (views pkts (out_pos s))) (freeze_at f s) (le_bytes (fr_size_len f) sz) \<and>
    length pkts' = length pkts \<and> list_all (frozen_ok (out_buf_max s)) (butlast pkts') \<and>
    length (pkt_buf (last pkts')) = length (pkt_buf (last pkts))"
    unfolding pkts'_def freeze_at_def using d vl ok
    by (intro update_size_loop_views)
      (simp_all add: freeze_ok_def freeze_at_def pending_views pkts_def [symmetric],
       simp_all add: pkts_def, arith)
  then have ne: "pkts' \<noteq> []" by (auto simp: pkts_def)
  have eq: "tds_freeze_update_size f sz s = s \<lparr> frozen_packets := butlast pkts', send_packet := last pkts' \<rparr>"
    by (simp add: tds_freeze_update_size_def Let_def pkts'_def pkts_def)
  have "length (butlast pkts') = length (frozen_packets s)" using * by (simp add: pkts_def)
  moreover have "out_inv (s \<lparr> frozen_packets := butlast pkts', send_packet := last pkts' \<rparr>)"
  proof -
    have "frozen s = 0 \<Longrightarrow> butlast pkts' = []"
      using d(7) calculation by (metis length_0_conv)
    with inv * show ?thesis by (simp add: out_inv_def pkts_def)
  qed
  moreover have "pending (s \<lparr> frozen_packets := butlast pkts', send_packet := last pkts' \<rparr>) =
      write_at (pending s) (freeze_at f s) (le_bytes (fr_size_len f) sz)"
    using * ne by (simp add: pending_views pkts_def)
  ultimately show ?thesis unfolding eq by blast
qed

lemma send_frozen_log:
  "send_frozen env ps s = (TDS_SUCCESS, s') \<Longrightarrow>
     \<exists>b. s' = s \<lparr> sent_log := sent_log s @ map (\<lambda>p. (take (data_len p) (pkt_buf p), 0)) ps, dead := b \<rparr>"
proof (induction env ps s arbitrary: s' rule: send_frozen.induct)
  case (1 env s)
  then show ?case by (intro exI [of _ "dead s"]) simp
next
  case (2 env p ps s)
  obtain n t where t: "tds_connection_write env (take (data_len p) (pkt_buf p)) 0 s = (n, t)" by fastforce
  from 2 t have "\<exists>b. s' = t \<lparr> sent_log := sent_log t @ map (\<lambda>p. (take (data_len p) (pkt_buf p), 0)) ps, dead := b \<rparr>"
    by (auto split: if_splits)
  with t show ?case by (auto simp: tds_connection_write_def split: prod.splits)
qed

lemma frozen_wire_packets:
  "list_all (frozen_ok mx) ps \<Longrightarrow>
     list_all (\<lambda>(b, final). wire_packet b final) (map (\<lambda>p. (take (data_len p) (pkt_buf p), 0)) ps)"
  by (auto simp: list_all_iff frozen_ok_def)

lemma tds_packet_cache_add_inv:
  "out_inv s \<Longrightarrow> out_inv (tds_packet_cache_add ps s) \<and> stream (tds_packet_cache_add ps s) = stream s"
  by (simp add: tds_packet_cache_add_def out_inv_def stream_def pending_def)

lemma tds_packet_cache_add_frame:
  assumes "num_cached_packets s = length (packet_cache s)"
  shows "\<exists>c n. tds_packet_cache_add ps s = s \<lparr> packet_cache := c, num_cached_packets := n \<rparr> \<and> n = length c"
proof (cases "8 \<le> num_cached_packets s")
  case True
  with assms show ?thesis
    by (intro exI [of _ "packet_cache s"] exI [of _ "num_cached_packets s"])
      (simp add: tds_packet_cache_add_def)
next
  case False
  with assms show ?thesis
    by (intro exI [of _ "ps @ packet_cache s"] exI [of _ "num_cached_packets s + length ps"])
      (simp add: tds_packet_cache_add_def)
qed

lemma close_sends_all:
  assumes inv: "out_inv s" and s: "send_frozen env (frozen_packets s) (s \<lparr> frozen := 0, frozen_packets := [] \<rparr>) = (TDS_SUCCESS, s')"
  shows "out_inv s'" "stream s' = stream s" "prefix (sent_log s) (sent_log s')"
    "frozen s' = 0" "out_buf_max s' = out_buf_max s" "tds_version s' = tds_version s" "login s' = login s"
    "out_flag s' = out_flag s"
proof -
  from send_frozen_log [OF s] obtain b where s':
    "s' = s \<lparr> frozen := 0, frozen_packets := [], sent_log := sent_log s @
        map (\<lambda>p. (take (data_len p) (pkt_buf p), 0)) (frozen_packets s), dead := b \<rparr>" by auto
  have "map (\<lambda>(b, final). drop 8 b) (map (\<lambda>p. (take (data_len p) (pkt_buf p), 0 :: byte)) ps) = map pkt_payload ps" for ps
    by (simp add: pkt_payload_def comp_def)
  then show "stream s' = stream s"
    by (simp add: s' stream_def pending_def del: map_map)
  show "out_inv s'"
    using inv frozen_wire_packets [OF out_invD(6) [OF inv]] by (simp add: s' out_inv_def)
  show "prefix (sent_log s) (sent_log s')" "frozen s' = 0" "out_buf_max s' = out_buf_max s"
    "tds_version s' = tds_version s" "login s' = login s" "out_flag s' = out_flag s"
    by (simp_all add: s')
qed

text \<open>What closing a freeze does to the stream, when the connection takes the packets.\<close>

lemma tds_freeze_close_len_stream:
  assumes inv: "out_inv s" and ok: "freeze_ok f s" and fz: "frozen s \<noteq> 0" "frozen s = 1 \<Longrightarrow> fr_pkt f = 0"
    and c: "tds_freeze_close_len env f sz s = (TDS_SUCCESS, s')"
    and st: "stream s = before @ replicate (fr_size_len f) 0 @ data" "length (pending s) = freeze_at f s + fr_size_len f + length data"
  shows "out_inv s'" "stream s' = before @ le_bytes (fr_size_len f) sz @ data"
    "prefix (sent_log s) (sent_log s')" "frozen s' = frozen s - 1" "out_buf_max s' = out_buf_max s"
    "tds_version s' = tds_version s" "login s' = login s" "out_flag s' = out_flag s"
    "frozen s' \<noteq> 0 \<Longrightarrow> sent_log s' = sent_log s \<and> length (frozen_packets s') = length (frozen_packets s)"
proof -
  define n where "n = fr_size_len f"
  define logged where "logged = concat (map (\<lambda>(b, final). drop 8 b) (sent_log s))"
  define u where "u = (if n \<noteq> 0 then tds_freeze_update_size f sz s else s)"
  obtain fp sp where u: "u = s \<lparr> frozen_packets := fp, send_packet := sp \<rparr>" "length fp = length (frozen_packets s)"
    "out_inv u" "pending u = write_at (pending s) (freeze_at f s) (le_bytes n sz)"
  proof (cases "n = 0")
    case True
    then show ?thesis using that [of "send_packet s" "frozen_packets s"] inv by (simp add: u_def)
  next
    case False
    with that tds_freeze_update_size_eq [OF inv ok, of sz] show ?thesis by (auto simp: u_def n_def)
  qed
  have "stream u = before @ le_bytes n sz @ data"
  proof -
    have l: "length logged + freeze_at f s = length before"
      using arg_cong [OF st(1), of length] st(2) by (simp add: stream_def logged_def)
    have "stream u = logged @ write_at (pending s) (freeze_at f s) (le_bytes n sz)"
      by (simp add: stream_def u(4) logged_def) (simp add: u(1))
    also have "\<dots> = write_at (stream s) (length before) (le_bytes n sz)"
      unfolding l [symmetric] by (simp add: stream_def logged_def [symmetric] write_at_append_right)
    finally show ?thesis unfolding st(1) by (simp add: write_at_def n_def)
  qed
  note su = this
  have close: "tds_freeze_close_len env f sz s =
      (if frozen s \<noteq> 1 then (TDS_SUCCESS, u \<lparr> frozen := frozen s - 1 \<rparr>)
       else let pkts = frozen_packets u
            in case send_frozen env pkts (u \<lparr> frozen := 0, frozen_packets := [] \<rparr>) of
                 (rc, s) \<Rightarrow> (rc, if pkts \<noteq> [] then tds_packet_cache_add pkts s else s))"
    using fz unfolding tds_freeze_close_len_def u_def [unfolded n_def, symmetric]
    by (auto simp: Let_def u(1))
  have "out_inv s' \<and> stream s' = stream u \<and> prefix (sent_log s) (sent_log s') \<and> frozen s' = frozen s - 1 \<and>
    out_buf_max s' = out_buf_max s \<and> tds_version s' = tds_version s \<and> login s' = login s \<and> out_flag s' = out_flag s \<and>
    (frozen s' \<noteq> 0 \<longrightarrow> sent_log s' = sent_log s \<and> length (frozen_packets s') = length (frozen_packets s))"
  proof (cases "frozen s = 1")
    case False
    with c close have s': "s' = u \<lparr> frozen := frozen s - 1 \<rparr>" by simp
    have "out_inv s'" using u(3) fz False by (simp add: s' out_inv_def)
    moreover have "stream s' = stream u" by (simp add: s' stream_def pending_def)
    ultimately show ?thesis using u by (simp add: s')
  next
    case True
    obtain t where t: "send_frozen env (frozen_packets u) (u \<lparr> frozen := 0, frozen_packets := [] \<rparr>) = (TDS_SUCCESS, t)"
      "s' = (if frozen_packets u \<noteq> [] then tds_packet_cache_add (frozen_packets u) t else t)"
      using c close True by (auto simp: Let_def split: prod.splits)
    note ct = close_sends_all [OF u(3) t(1)]
    have "out_inv s'" "stream s' = stream t"
      using ct(1) tds_packet_cache_add_inv by (auto simp: t(2))
    then show ?thesis using ct True u(1)
      by (simp add: t(2) tds_packet_cache_add_def)
  qed
  then show "out_inv s'" "stream s' = before @ le_bytes (fr_size_len f) sz @ data"
    "prefix (sent_log s) (sent_log s')" "frozen s' = frozen s - 1" "out_buf_max s' = out_buf_max s"
    "tds_version s' = tds_version s" "login s' = login s" "out_flag s' = out_flag s"
    "frozen s' \<noteq> 0 \<Longrightarrow> sent_log s' = sent_log s \<and> length (frozen_packets s') = length (frozen_packets s)"
    using su by (simp_all add: n_def)
qed

text \<open>The state between \<open>tds_freeze\<close> and its close: \<open>s0\<close> is the state the freeze
  remembers, with everything before it in the stream.\<close>

definition in_freeze :: "tdsfreeze \<Rightarrow> tdssocket \<Rightarrow> byte list \<Rightarrow> tdssocket \<Rightarrow> bool" where
  "in_freeze f s data s2 \<longleftrightarrow>
     out_inv s2 \<and> freeze_ok f s2 \<and> frozen s2 = frozen s + 1 \<and> (frozen s2 = 1 \<longrightarrow> fr_pkt f = 0) \<and>
     stream s2 = stream s @ replicate (fr_size_len f) 0 @ data \<and>
     length (pending s2) = freeze_at f s2 + fr_size_len f + length data \<and>
     out_buf_max s2 = out_buf_max s \<and> tds_version s2 = tds_version s \<and> login s2 = login s \<and>
     out_flag s2 = out_flag s \<and> prefix (sent_log s) (sent_log s2) \<and>
     (frozen s \<noteq> 0 \<longrightarrow> sent_log s2 = sent_log s \<and> length (frozen_packets s) \<le> fr_pkt f)"

lemma freeze_bracket:
  assumes "out_inv s" "can_write env s" "malloc_never_fails env"
  obtains f s1 where "tds_freeze env size_len s = Some (f, s1)" "fr_size_len f = size_len" "out_inv s1"
    "\<And>data s2. appends data s1 s2 \<Longrightarrow>
       in_freeze f s data s2"
proof -
  obtain f s0 s1 where fr: "tds_freeze env size_len s = Some (f, s1)"
    "appends [] s s0" "appends (replicate size_len 0) (s0 \<lparr> frozen := frozen s + 1 \<rparr>) s1"
    "fr_size_len f = size_len" "fr_pkt f = length (frozen_packets s0)"
    "fr_pkt_pos f = out_pos s0" "out_pos s0 \<le> out_buf_max s"
    using tds_freeze_starts [OF assms] by metis
  let ?sf = "s0 \<lparr> frozen := frozen s + 1 \<rparr>"
  have inv0: "out_inv s0" using fr(2) by (rule appends_inv)
  show thesis
  proof (rule that [OF fr(1,4) appends_inv [OF fr(3)]])
    fix data s2 assume "appends data s1 s2"
    with fr(3) have ap: "appends (replicate size_len 0 @ data) ?sf s2" by (rule appends_trans)
    have "pending ?sf = pending s0" "stream ?sf = stream s0" by (simp_all add: pending_def stream_def)
    then have pend: "pending s2 = pending s0 @ replicate size_len 0 @ data"
      "stream s2 = stream s0 @ replicate size_len 0 @ data"
      using appends_pending [OF ap] ap by (auto simp: appends_def)
    have mx: "out_buf_max s2 = out_buf_max s" "out_buf_max s0 = out_buf_max s"
      using ap fr(2) by (auto simp: appends_def)
    have at: "freeze_at f s2 = length (pending s0)"
      using length_pending [OF inv0] fr mx by (simp add: freeze_at_def)
    have "length (frozen_packets s0) \<le> length (frozen_packets s2)" "out_inv s2"
      using ap by (auto simp: appends_def)
    moreover have "frozen s = 0 \<longrightarrow> frozen_packets s0 = []"
      using out_invD(7) [OF inv0] fr(2) by (simp add: appends_def)
    ultimately show "in_freeze f s data s2"
      using fr pend ap out_invD(3) [OF inv0]
      by (simp add: in_freeze_def at mx freeze_ok_def) (simp add: appends_def)
  qed
qed

lemma send_frozen_succeeds:
  "writes_ok env \<Longrightarrow> list_all (frozen_ok mx) ps \<Longrightarrow> fst (send_frozen env ps s) = TDS_SUCCESS"
proof (induction env ps s rule: send_frozen.induct)
  case (2 env p ps s)
  obtain n t where t: "tds_connection_write env (take (data_len p) (pkt_buf p)) 0 s = (n, t)" by fastforce
  then have "n = fst (conn_write env (sent_log s) (take (data_len p) (pkt_buf p)) 0)"
    by (simp add: tds_connection_write_def split: prod.splits)
  moreover have "take (data_len p) (pkt_buf p) \<noteq> []"
    using 2(3) by (auto simp: frozen_ok_def wire_packet_def)
  ultimately have "0 < n" using 2(2) by (simp add: writes_ok_def)
  with 2 t show ?case by simp
qed simp

lemma tds_freeze_close_len_succeeds:
  assumes "out_inv s" "freeze_ok f s" "frozen s \<noteq> 0" "frozen s \<noteq> 1 \<or> writes_ok env"
  shows "fst (tds_freeze_close_len env f sz s) = TDS_SUCCESS"
proof -
  define u where "u = (if fr_size_len f \<noteq> 0 then tds_freeze_update_size f sz s else s)"
  have "out_inv u" "frozen u = frozen s"
    using tds_freeze_update_size_eq [OF assms(1,2), of sz] assms(1) by (auto simp: u_def)
  then have "list_all (frozen_ok (out_buf_max u)) (drop (fr_pkt f) (frozen_packets u))"
    using out_invD(6) [of u] by (auto simp: list_all_length)
  then have "writes_ok env \<Longrightarrow> fst (send_frozen env (drop (fr_pkt f) (frozen_packets u)) t) = TDS_SUCCESS" for t
    by (rule send_frozen_succeeds [rotated])
  then show ?thesis
    using assms(3,4) \<open>frozen u = frozen s\<close> unfolding tds_freeze_close_len_def u_def [symmetric]
    by (auto simp: Let_def split: prod.splits) (metis fst_conv)+
qed

text \<open>The common form of the closing theorems: the stored size is the argument.\<close>

lemma close_len_appends:
  assumes "out_inv s" and "in_freeze f s data s2"
    and c: "tds_freeze_close_len env f sz s2 = (TDS_SUCCESS, s3)"
  shows "appends (le_bytes (fr_size_len f) sz @ data) s s3"
proof -
  from assms(2) have fr: "freeze_ok f s2" "out_inv s2" "frozen s2 = frozen s + 1"
    "frozen s2 = 1 \<longrightarrow> fr_pkt f = 0" "stream s2 = stream s @ replicate (fr_size_len f) 0 @ data"
    "length (pending s2) = freeze_at f s2 + fr_size_len f + length data"
    "out_buf_max s2 = out_buf_max s" "tds_version s2 = tds_version s" "login s2 = login s"
    "out_flag s2 = out_flag s" "prefix (sent_log s) (sent_log s2)"
    "frozen s \<noteq> 0 \<longrightarrow> sent_log s2 = sent_log s \<and> length (frozen_packets s) \<le> fr_pkt f"
    by (simp_all add: in_freeze_def)
  have "frozen s2 \<noteq> 0" "frozen s2 = 1 \<Longrightarrow> fr_pkt f = 0" using fr by auto
  note r = tds_freeze_close_len_stream [OF fr(2,1) this c fr(5,6)]
  have "fr_pkt f \<le> length (frozen_packets s2)" using fr(1) by (simp add: freeze_ok_def)
  with r fr show ?thesis by (auto simp: appends_def intro: prefix_order.trans)
qed

lemma int32_of_small: "n < 2 ^ 31 \<Longrightarrow> int32_of n = int n"
  by (simp add: int32_of_def sint_uint signed_take_bit_int_eq_self_iff unsigned_of_nat take_bit_nat_eq_self)

lemma u32_sub_add: "n < 2 ^ 32 \<Longrightarrow> u32_sub (a + n) a = n"
  by (simp add: u32_sub_def)

text \<open>C4: \<open>tds_freeze\<close> with a size field, any data put after it (nested freezes included) and
  \<open>tds_freeze_close\<close> amount to putting the little endian length of the data and then the data: the
  field is filled in even when it straddles packets, the packets held back are sent in order,
  and while an outer freeze is open nothing is sent. The close reports success as soon as
  the connection takes the packets, or an outer freeze is open.\<close>

theorem tds_freeze_close_prefixes_length:
  assumes "out_inv s" "malloc_ok env" "malloc_never_fails env"
  shows "\<exists>f s1. tds_freeze env size_len s = Some (f, s1) \<and> out_inv s1 \<and> frozen s1 = frozen s + 1 \<and>
    (\<forall>data s2. appends data s1 s2 \<longrightarrow> length data < 2 ^ 31 - size_len \<longrightarrow>
       (\<forall>s3. tds_freeze_close env f s2 = (TDS_SUCCESS, s3) \<longrightarrow>
          appends (le_bytes size_len (int (length data)) @ data) s s3) \<and>
       (frozen s \<noteq> 0 \<or> writes_ok env \<longrightarrow> fst (tds_freeze_close env f s2) = TDS_SUCCESS))"
proof -
  have "can_write env s" using assms by (simp add: can_write_def)
  then obtain f s1 where f: "tds_freeze env size_len s = Some (f, s1)" "fr_size_len f = size_len"
    and inv1: "out_inv s1"
    and br: "\<And>data s2. appends data s1 s2 \<Longrightarrow> in_freeze f s data s2"
    using freeze_bracket [OF assms(1) _ assms(3), of size_len] by metis
  show ?thesis
  proof (intro exI conjI allI impI, rule f(1), rule inv1)
    show "frozen s1 = frozen s + 1" using br [OF appends_refl [OF inv1]] by (simp add: in_freeze_def)
  next
    fix data s2
    assume ap: "appends data s1 s2" and small: "length data < 2 ^ 31 - size_len"
    note b = br [OF ap]
    have w: "tds_freeze_written f s2 = size_len + length data"
      using b small f by (subst tds_freeze_written_eq) (auto simp: in_freeze_def)
    have cl: "tds_freeze_close env f s2 = tds_freeze_close_len env f (if size_len \<noteq> 0 then int (length data) else 0) s2"
      using small by (simp add: tds_freeze_close_def f w u32_sub_add int32_of_small)
    show "frozen s \<noteq> 0 \<or> writes_ok env \<Longrightarrow> fst (tds_freeze_close env f s2) = TDS_SUCCESS"
      unfolding cl using b by (intro tds_freeze_close_len_succeeds) (auto simp: in_freeze_def)
    fix s3 assume "tds_freeze_close env f s2 = (TDS_SUCCESS, s3)"
    then have "appends (le_bytes (fr_size_len f) (if size_len \<noteq> 0 then int (length data) else 0) @ data) s s3"
      unfolding cl by (rule close_len_appends [OF assms(1) b])
    then show "appends (le_bytes size_len (int (length data)) @ data) s s3"
      by (cases "size_len = 0") (simp_all add: f)
  qed
qed

text \<open>Aborting cuts the pending bytes back to where the freeze started.\<close>

lemma tds_freeze_abort_eq:
  assumes inv: "out_inv s" and ok: "freeze_ok f s" and fz: "frozen s \<noteq> 0" "frozen s = 1 \<longrightarrow> fr_pkt f = 0"
    and a: "tds_freeze_abort f s = (r, s')"
  shows "r = TDS_SUCCESS" "out_inv s'" "pending s' = take (freeze_at f s) (pending s)"
    "frozen s' = frozen s - 1" "length (frozen_packets s') = fr_pkt f"
    "sent_log s' = sent_log s" "out_buf_max s' = out_buf_max s" "tds_version s' = tds_version s"
    "login s' = login s" "out_flag s' = out_flag s"
proof -
  note d = out_invD [OF inv]
  define k pos mx where "k = fr_pkt f" and "pos = fr_pkt_pos f" and "mx = out_buf_max s"
  define fp where "fp = frozen_packets s"
  define pkts where "pkts = fp @ [send_packet s]"
  have k: "k \<le> length fp" "8 \<le> pos" "pos \<le> mx"
    using ok by (simp_all add: freeze_ok_def k_def pos_def mx_def fp_def)
  obtain c n where cn: "s' = s \<lparr> packet_cache := c, num_cached_packets := n, frozen_packets := take k fp,
      send_packet := (pkts ! k) \<lparr> data_len := 8 \<rparr>, out_pos := pos, frozen := frozen s - 1 \<rparr>"
    "n = length c" "r = TDS_SUCCESS"
  proof (cases "k < length fp")
    case True
    obtain c n where t: "tds_packet_cache_add (drop (Suc k) pkts) s = s \<lparr> packet_cache := c, num_cached_packets := n \<rparr>"
      "n = length c"
      using tds_packet_cache_add_frame [OF d(9)] by blast
    have "frozen s - 1 = 0 \<Longrightarrow> k = 0" using fz by (auto simp: k_def)
    with that [of n c] a True t show ?thesis
      by (simp add: tds_freeze_abort_def Let_def k_def [symmetric] pos_def [symmetric] fp_def [symmetric]
        pkts_def [symmetric] split: if_splits) (auto simp: pkts_def nth_append)
  next
    case False
    with k have "k = length fp" by simp
    moreover have "frozen s - 1 = 0 \<Longrightarrow> fp = []" using fz \<open>k = length fp\<close> by (auto simp: k_def)
    ultimately have "(TDS_SUCCESS, s \<lparr> frozen_packets := take k fp,
        send_packet := (pkts ! k) \<lparr> data_len := 8 \<rparr>, out_pos := pos, frozen := frozen s - 1 \<rparr>) = (r, s')"
      unfolding a [symmetric] by (auto simp: tds_freeze_abort_def Let_def k_def pos_def fp_def pkts_def)
    then show ?thesis by (intro that [of "num_cached_packets s" "packet_cache s"]) (auto simp: d(9))
  qed
  note s' = cn(1) [THEN arg_cong, of frozen_packets, simplified]
    cn(1) [THEN arg_cong, of send_packet, simplified] cn(1) [THEN arg_cong, of out_pos, simplified]
  have vs: "views pkts (out_pos s) ! i = pkt_payload (fp ! i)" "frozen_ok mx (fp ! i)" if "i < length fp" for i
    using that d(6) by (simp_all add: views_def pkts_def nth_append mx_def fp_def list_all_length)
  have cap: "mx + 16 \<le> length (pkt_buf (pkts ! k))"
    using k vs(2) [of k] d(5) by (auto simp: pkts_def nth_append mx_def fp_def frozen_ok_def TDS_ADDITIONAL_SPACE_def)
  have vk: "drop 8 (take pos (pkt_buf (pkts ! k))) = take (pos - 8) (views pkts (out_pos s) ! k) \<and>
      pos - 8 \<le> length (views pkts (out_pos s) ! k)"
  proof (cases "k < length fp")
    case True
    then show ?thesis using vs [OF True] k
      by (auto simp: pkts_def nth_append pkt_payload_def frozen_ok_def take_drop min_absorb1)
  next
    case False
    with k have "k = length fp" by simp
    moreover have "freeze_at f s \<le> length (pending s)" using ok by (simp add: freeze_ok_def)
    ultimately have "pos \<le> out_pos s"
      using d(3) k by (simp add: freeze_at_def length_pending [OF inv] fp_def k_def pos_def)
    then show ?thesis using \<open>k = length fp\<close> d(4,5) k(2)
      by (simp add: views_def pkts_def nth_append take_drop min_absorb1)
  qed
  have "take (k * (mx - 8) + (pos - 8)) (concat (views pkts (out_pos s))) =
      concat (take k (views pkts (out_pos s))) @ take (pos - 8) (views pkts (out_pos s) ! k)"
    using k vk vs by (intro take_concat_blocks) (auto simp: views_def pkts_def payload_frozen)
  moreover have "take k (views pkts (out_pos s)) = map pkt_payload (take k fp)"
    using k by (simp add: views_def pkts_def take_map)
  moreover have "pending s' = concat (map pkt_payload (take k fp)) @ drop 8 (take pos (pkt_buf (pkts ! k)))"
    by (simp add: pending_def s')
  moreover have "pending s = concat (views pkts (out_pos s))" "freeze_at f s = k * (mx - 8) + (pos - 8)"
    by (simp_all add: pending_views freeze_at_def pkts_def fp_def k_def pos_def mx_def)
  ultimately show "pending s' = take (freeze_at f s) (pending s)"
    using vk by simp
  have "list_all (frozen_ok mx) (take k fp)"
    using d(6) k by (simp add: list_all_length fp_def mx_def)
  moreover have "frozen s - 1 = 0 \<longrightarrow> take k fp = []" using fz by (auto simp: k_def)
  ultimately show "out_inv s'"
    using inv cap k by (simp add: out_inv_def cn mx_def TDS_ADDITIONAL_SPACE_def)
  show "length (frozen_packets s') = fr_pkt f" using k by (simp add: s' k_def)
  show "r = TDS_SUCCESS" "frozen s' = frozen s - 1" "sent_log s' = sent_log s" "out_buf_max s' = out_buf_max s"
    "tds_version s' = tds_version s" "login s' = login s" "out_flag s' = out_flag s"
    by (simp_all add: cn)
qed

text \<open>C26: \<open>tds_freeze_abort\<close> drops exactly what was put since its \<open>tds_freeze\<close>, size field
  included: the stream is what it was before the freeze, nothing of the dropped data has
  reached the connection, and the state is legal again.\<close>

theorem tds_freeze_abort_undoes:
  assumes "out_inv s" "malloc_ok env" "malloc_never_fails env"
  shows "\<exists>f s1. tds_freeze env size_len s = Some (f, s1) \<and> out_inv s1 \<and> frozen s1 = frozen s + 1 \<and>
    (\<forall>data s2. appends data s1 s2 \<longrightarrow>
       fst (tds_freeze_abort f s2) = TDS_SUCCESS \<and> appends [] s (snd (tds_freeze_abort f s2)))"
proof -
  have "can_write env s" using assms by (simp add: can_write_def)
  then obtain f s1 where f: "tds_freeze env size_len s = Some (f, s1)"
    and inv1: "out_inv s1"
    and br: "\<And>data s2. appends data s1 s2 \<Longrightarrow> in_freeze f s data s2"
    using freeze_bracket [OF assms(1) _ assms(3), of size_len] by metis
  have "fst (tds_freeze_abort f s2) = TDS_SUCCESS \<and> appends [] s (snd (tds_freeze_abort f s2))"
    if "appends data s1 s2" for data s2
  proof -
    note b = br [OF that, unfolded in_freeze_def]
    obtain r s3 where a: "tds_freeze_abort f s2 = (r, s3)" by fastforce
    have "out_inv s2" "freeze_ok f s2" "frozen s2 \<noteq> 0" "frozen s2 = 1 \<longrightarrow> fr_pkt f = 0" using b by simp_all
    note r = tds_freeze_abort_eq [OF this a]
    define logged where "logged = concat (map (\<lambda>(b, final). drop 8 b) (sent_log s2))"
    have st: "logged @ pending s2 = stream s @ replicate (fr_size_len f) 0 @ data"
      using b by (simp add: stream_def logged_def)
    have "length logged + freeze_at f s2 = length (stream s)"
      using arg_cong [OF st, of length] b by simp
    from this [symmetric]
    have "logged @ take (freeze_at f s2) (pending s2) = take (length (stream s)) (logged @ pending s2)"
      by simp
    then have "stream s3 = stream s" unfolding st by (simp add: stream_def r logged_def)
    with r b show ?thesis by (simp add: a appends_def)
  qed
  moreover have "frozen s1 = frozen s + 1" using br [OF appends_refl [OF inv1]] by (simp add: in_freeze_def)
  ultimately show ?thesis using f inv1 by blast
qed

lemma demo_put:
  assumes "out_inv s"
  shows "\<exists>t. tds_put_n demo_env (Some (replicate 300 7)) 300 s = Some t \<and> appends (replicate 300 7) s t"
proof -
  have "can_write demo_env s" by (simp add: can_write_def demo_ok)
  from tds_put_n_appends [OF assms this, of "Some (replicate 300 7)" 300] show ?thesis by auto
qed

theorem tds_freeze_close_prefixes_length_witness:
  "\<exists>f s1 s2 s3. tds_freeze demo_env 2 demo_socket = Some (f, s1) \<and>
     tds_put_n demo_env (Some (replicate 300 7)) 300 s1 = Some s2 \<and>
     tds_freeze_close demo_env f s2 = (TDS_SUCCESS, s3) \<and> stream s3 = [44, 1] @ replicate 300 7"
proof -
  from tds_freeze_close_prefixes_length [OF demo_ok(1-3), of 2]
  obtain f s1 where f: "tds_freeze demo_env 2 demo_socket = Some (f, s1)" "out_inv s1"
    and c: "\<forall>data s2. appends data s1 s2 \<longrightarrow> length data < 2 ^ 31 - 2 \<longrightarrow>
       (\<forall>s3. tds_freeze_close demo_env f s2 = (TDS_SUCCESS, s3) \<longrightarrow>
          appends (le_bytes 2 (int (length data)) @ data) demo_socket s3) \<and>
       (frozen demo_socket \<noteq> 0 \<or> writes_ok demo_env \<longrightarrow> fst (tds_freeze_close demo_env f s2) = TDS_SUCCESS)"
    by blast
  from demo_put [OF f(2)]
  obtain s2 where s2: "tds_put_n demo_env (Some (replicate 300 7)) 300 s1 = Some s2"
    "appends (replicate 300 7) s1 s2" by blast
  have "fst (tds_freeze_close demo_env f s2) = TDS_SUCCESS"
    using c [rule_format, OF s2(2)] demo_ok(4) by simp
  then obtain s3 where s3: "tds_freeze_close demo_env f s2 = (TDS_SUCCESS, s3)"
    by (cases "tds_freeze_close demo_env f s2") simp
  have "appends (le_bytes 2 (int (length (replicate 300 (7 :: byte)))) @ replicate 300 7) demo_socket s3"
    using c [rule_format, OF s2(2)] s3 by simp
  moreover have "le_bytes 2 (int (length (replicate 300 (7 :: byte)))) = [44, 1]"
    by code_simp
  ultimately have "stream s3 = [44, 1] @ replicate 300 7"
    using demo_ok(5) by (simp add: appends_def)
  with f(1) s2(1) s3 show ?thesis by blast
qed

theorem tds_freeze_abort_undoes_witness:
  "\<exists>f s1 s2. tds_freeze demo_env 4 demo_socket = Some (f, s1) \<and>
     tds_put_n demo_env (Some (replicate 300 7)) 300 s1 = Some s2 \<and>
     fst (tds_freeze_abort f s2) = TDS_SUCCESS \<and> stream (snd (tds_freeze_abort f s2)) = []"
proof -
  from tds_freeze_abort_undoes [OF demo_ok(1-3), of 4]
  obtain f s1 where f: "tds_freeze demo_env 4 demo_socket = Some (f, s1)" "out_inv s1"
    and c: "\<forall>data s2. appends data s1 s2 \<longrightarrow>
       fst (tds_freeze_abort f s2) = TDS_SUCCESS \<and> appends [] demo_socket (snd (tds_freeze_abort f s2))"
    by blast
  from demo_put [OF f(2)]
  obtain s2 where s2: "tds_put_n demo_env (Some (replicate 300 7)) 300 s1 = Some s2"
    "appends (replicate 300 7) s1 s2" by blast
  with c f(1) demo_ok(5) show ?thesis by (auto simp: appends_def)
qed

text \<open>\<open>tds_freeze_close_string\<close> stores the number of characters: with TDS 7 or later, where
  strings are UCS-2, half the number of bytes put since the freeze.\<close>

theorem tds_freeze_close_string_counts_characters:
  assumes "out_inv s" "malloc_ok env" "malloc_never_fails env"
  shows "\<exists>f s1. tds_freeze env size_len s = Some (f, s1) \<and> out_inv s1 \<and> frozen s1 = frozen s + 1 \<and>
    (\<forall>data s2 s3. appends data s1 s2 \<longrightarrow> length data < 2 ^ 31 - size_len \<longrightarrow>
       tds_freeze_close_string env f s2 = (TDS_SUCCESS, s3) \<longrightarrow>
       appends (le_bytes size_len (int (if IS_TDS7_PLUS s then length data div 2 else length data)) @ data) s s3)"
proof -
  have "can_write env s" using assms by (simp add: can_write_def)
  then obtain f s1 where f: "tds_freeze env size_len s = Some (f, s1)" "fr_size_len f = size_len"
    and inv1: "out_inv s1"
    and br: "\<And>data s2. appends data s1 s2 \<Longrightarrow> in_freeze f s data s2"
    using freeze_bracket [OF assms(1) _ assms(3), of size_len] by metis
  show ?thesis
  proof (intro exI conjI allI impI, rule f(1), rule inv1)
    show "frozen s1 = frozen s + 1" using br [OF appends_refl [OF inv1]] by (simp add: in_freeze_def)
  next
    fix data s2 s3
    assume ap: "appends data s1 s2" and small: "length data < 2 ^ 31 - size_len"
      and c: "tds_freeze_close_string env f s2 = (TDS_SUCCESS, s3)"
    note b = br [OF ap]
    have w: "tds_freeze_written f s2 = size_len + length data"
      using b small f by (subst tds_freeze_written_eq) (auto simp: in_freeze_def)
    have "IS_TDS7_PLUS s2 = IS_TDS7_PLUS s" using b by (simp add: in_freeze_def IS_TDS7_PLUS_def)
    with c small have "tds_freeze_close_len env f
        (int (if IS_TDS7_PLUS s then length data div 2 else length data)) s2 = (TDS_SUCCESS, s3)"
      by (auto simp: tds_freeze_close_string_def f w u32_sub_add int32_of_small)
    from close_len_appends [OF assms(1) b this]
    show "appends (le_bytes size_len (int (if IS_TDS7_PLUS s then length data div 2 else length data)) @ data) s s3"
      by (simp add: f)
  qed
qed

theorem tds_freeze_close_string_counts_characters_witness:
  "\<exists>f s1 s2. tds_freeze demo_env 2 demo_socket = Some (f, s1) \<and>
     tds_put_n demo_env (Some (replicate 300 7)) 300 s1 = Some s2 \<and>
     stream (snd (tds_freeze_close_string demo_env f s2)) = [150, 0] @ replicate 300 7"
proof -
  from tds_freeze_close_string_counts_characters [OF demo_ok(1-3), of 2]
  obtain f s1 where f: "tds_freeze demo_env 2 demo_socket = Some (f, s1)" "out_inv s1" "frozen s1 = 1"
    and c: "\<forall>data s2 s3. appends data s1 s2 \<longrightarrow> length data < 2 ^ 31 - 2 \<longrightarrow>
       tds_freeze_close_string demo_env f s2 = (TDS_SUCCESS, s3) \<longrightarrow>
       appends (le_bytes 2 (int (if IS_TDS7_PLUS demo_socket then length data div 2 else length data)) @ data)
         demo_socket s3"
    using demo_ok(6) by auto
  from demo_put [OF f(2)]
  obtain s2 where s2: "tds_put_n demo_env (Some (replicate 300 7)) 300 s1 = Some s2"
    "appends (replicate 300 7) s1 s2" by blast
  have "can_write demo_env demo_socket" by (simp add: can_write_def demo_ok)
  from freeze_bracket [OF demo_ok(1) this demo_ok(3), of 2] f(1) s2(2)
  have "in_freeze f demo_socket (replicate 300 7) s2" by (metis option.inject prod.inject)
  then have "fst (tds_freeze_close_len demo_env f sz s2) = TDS_SUCCESS" for sz
    using demo_ok(4) by (intro tds_freeze_close_len_succeeds) (auto simp: in_freeze_def)
  then obtain s3 where s3: "tds_freeze_close_string demo_env f s2 = (TDS_SUCCESS, s3)"
    by (cases "tds_freeze_close_string demo_env f s2") (metis fst_conv tds_freeze_close_string_def)
  have "appends (le_bytes 2 (int (length (replicate 300 (7 :: byte)) div 2)) @ replicate 300 7) demo_socket s3"
    using c [rule_format, OF s2(2) _ s3] demo_ok(7) by simp
  moreover have "le_bytes 2 (int (length (replicate 300 (7 :: byte)) div 2)) = [150, 0]"
    by code_simp
  ultimately have "stream s3 = [150, 0] @ replicate 300 7"
    using demo_ok(5) by (simp add: appends_def)
  with f(1) s2(1) s3 show ?thesis by auto
qed

end
