(* ===== verification/Wire_In.thy ===== *)
theory Wire_In
  imports Wire_Out
begin

text \<open>
  The input half of the packet layer: \<open>src/tds/read.c\<close> and \<open>tds_read_packet\<close> of
  \<open>src/tds/packet.c\<close> in the configuration without MARS.

  The connection is a list of chunks, what successive calls of \<open>recv\<close> would deliver: a read of
  at most \<open>n\<close> bytes gives a non-empty part of the first chunk, an empty chunk is an end of file,
  an empty list an error. The receive packet is its buffer (\<open>in_buf\<close>); \<open>realloc\<close> takes its fresh
  bytes from \<open>malloc\<close> of the environment of \<open>Wire_Out\<close>.
\<close>

record rxsocket =
  in_buf :: "byte list"
  in_pos :: nat
  in_len :: nat
  in_flag :: byte
  rx_dead :: bool
  net :: "byte list list"
  rx_mallocs :: nat

definition tds_close_socket :: "rxsocket \<Rightarrow> rxsocket" where
  "tds_close_socket s = s \<lparr> rx_dead := True \<rparr>"

text \<open>\<open>tds_connection_read\<close>: \<open>None\<close> stands for a result that is zero or negative.\<close>

definition tds_connection_read :: "nat \<Rightarrow> rxsocket \<Rightarrow> (byte list \<times> rxsocket) option" where
  "tds_connection_read n s =
     (case net s of
        [] \<Rightarrow> None
      | c # cs \<Rightarrow>
          if c = [] \<or> n = 0 then None
          else Some (take n c, s \<lparr> net := (if drop n c = [] then cs else drop n c # cs) \<rparr>))"

definition realloc_recv :: "env \<Rightarrow> nat \<Rightarrow> rxsocket \<Rightarrow> rxsocket option" where
  "realloc_recv env len s =
     (if length (in_buf s) < len
      then map_option (\<lambda>b. s \<lparr> in_buf := write_at b 0 (in_buf s), rx_mallocs := rx_mallocs s + 1 \<rparr>)
             (malloc env (rx_mallocs s) len)
      else Some s)"

definition net_left :: "rxsocket \<Rightarrow> nat" where
  "net_left s = length (concat (net s))"

lemma tds_connection_read_props:
  assumes "tds_connection_read n s = Some (data, t)"
  shows "data \<noteq> []" "length data \<le> n" "concat (net s) = data @ concat (net t)" "t = s \<lparr> net := net t \<rparr>"
  using assms by (auto simp: tds_connection_read_def split: list.splits if_splits)

lemma tds_connection_read_left: "tds_connection_read n s = Some (data, t) \<Longrightarrow> net_left t < net_left s"
  using tds_connection_read_props [of n s data t] by (simp add: net_left_def)

text \<open>One round of the loop of \<open>tds_read_packet\<close>: \<open>n\<close> is \<open>p - pkt\<close> and \<open>e\<close> is \<open>end - pkt\<close>. A
  failure (\<open>Inr\<close>) closes the socket.\<close>

definition read_packet_step :: "env \<Rightarrow> nat \<Rightarrow> nat \<Rightarrow> rxsocket \<Rightarrow> (nat \<times> nat \<times> rxsocket) + rxsocket" where
  "read_packet_step env n e s =
     (case tds_connection_read (e - n) s of
        None \<Rightarrow> Inr (tds_close_socket s)
      | Some (data, t) \<Rightarrow>
          let t = t \<lparr> in_buf := write_at (in_buf t) n data \<rparr>;
              n = n + length data
          in if 4 \<le> n
             then let pktlen = TDS_GET_A2BE (in_buf t ! 2) (in_buf t ! 3)
                  in if pktlen < 8 then Inr (tds_close_socket t)
                     else (case realloc_recv env pktlen t of
                             None \<Rightarrow> Inr (tds_close_socket t)
                           | Some t \<Rightarrow> Inl (n, pktlen, t))
             else Inl (n, e, t))"

lemma realloc_recv_net: "realloc_recv env len s = Some t \<Longrightarrow> net t = net s"
  by (auto simp: realloc_recv_def split: if_splits)

lemma read_packet_step_left:
  "read_packet_step env n e s = Inl (n', e', t) \<Longrightarrow> net_left t < net_left s"
  by (fastforce simp: read_packet_step_def Let_def net_left_def split: option.splits if_splits
      dest: tds_connection_read_left realloc_recv_net)

function read_packet_loop :: "env \<Rightarrow> nat \<Rightarrow> nat \<Rightarrow> rxsocket \<Rightarrow> (nat \<times> rxsocket) + rxsocket" where
  "read_packet_loop env n e s =
     (if e \<le> n then Inl (n, s)
      else case read_packet_step env n e s of
             Inr t \<Rightarrow> Inr t
           | Inl (n, e, t) \<Rightarrow> read_packet_loop env n e t)"
  by pat_completeness auto
termination
  by (relation "measure (\<lambda>(env, n, e, s). net_left s)") (auto simp: read_packet_step_left)

declare read_packet_loop.simps [simp del]

text \<open>The result is \<open>tds->in_len\<close>, or \<open>None\<close> for -1.\<close>

definition tds_read_packet :: "env \<Rightarrow> rxsocket \<Rightarrow> nat option \<times> rxsocket" where
  "tds_read_packet env s =
     (if rx_dead s then (None, s)
      else case read_packet_loop env 0 8 (s \<lparr> in_len := 0, in_pos := 0 \<rparr>) of
             Inr t \<Rightarrow> (None, t)
           | Inl (n, t) \<Rightarrow> (Some n, t \<lparr> in_flag := in_buf t ! 0, in_len := n, in_pos := 8 \<rparr>))"

lemma read_packet_loop_left:
  "read_packet_loop env n e s = Inl (m, t) \<Longrightarrow> net_left t \<le> net_left s \<and> (n < e \<longrightarrow> net_left t < net_left s)"
proof (induction env n e s rule: read_packet_loop.induct)
  case (1 env n e s)
  show ?case
  proof (cases "e \<le> n")
    case True
    with 1(2) show ?thesis by (simp add: read_packet_loop.simps [of env n e s])
  next
    case False
    with 1(2) obtain n' e' u where u: "read_packet_step env n e s = Inl (n', e', u)"
      "read_packet_loop env n' e' u = Inl (m, t)"
      by (subst (asm) read_packet_loop.simps) (auto split: sum.splits)
    from 1(1) [OF False u(1) refl refl u(2)] read_packet_step_left [OF u(1)] show ?thesis by simp
  qed
qed

lemma tds_read_packet_left: "tds_read_packet env s = (Some n, t) \<Longrightarrow> net_left t < net_left s"
  by (auto simp: tds_read_packet_def net_left_def split: if_splits sum.splits
      dest!: read_packet_loop_left)

subsection \<open>Reading data\<close>

text \<open>\<open>tds_get_byte\<close> reads packets until one has data.\<close>

function tds_get_byte :: "env \<Rightarrow> rxsocket \<Rightarrow> byte \<times> rxsocket" where
  "tds_get_byte env s =
     (if in_len s \<le> in_pos s
      then (case tds_read_packet env s of
              (None, t) \<Rightarrow> (0, t)
            | (Some _, t) \<Rightarrow> tds_get_byte env t)
      else (in_buf s ! in_pos s, s \<lparr> in_pos := in_pos s + 1 \<rparr>))"
  by pat_completeness auto
termination
  by (relation "measure (\<lambda>(env, s). net_left s)") (auto intro: tds_read_packet_left sym)

declare tds_get_byte.simps [simp del]

definition tds_unget_byte :: "rxsocket \<Rightarrow> rxsocket" where
  "tds_unget_byte s = s \<lparr> in_pos := in_pos s - 1 \<rparr>"

definition tds_peek :: "env \<Rightarrow> rxsocket \<Rightarrow> byte \<times> rxsocket" where
  "tds_peek env s =
     (case tds_get_byte env s of
        (result, t) \<Rightarrow> (result, if 0 < in_pos t then t \<lparr> in_pos := in_pos t - 1 \<rparr> else t))"

definition TDS_STATUS_EOM :: byte where
  "TDS_STATUS_EOM = 0x01"

text \<open>\<open>tds_get_n\<close>: the result is the flag it returns and the bytes it stored at \<open>dest\<close>.\<close>

function tds_get_n :: "env \<Rightarrow> nat \<Rightarrow> rxsocket \<Rightarrow> bool \<times> byte list \<times> rxsocket" where
  "tds_get_n env need s =
     (let have = in_len s - in_pos s
      in if need \<le> have
         then (True, take need (drop (in_pos s) (in_buf s)), s \<lparr> in_pos := in_pos s + need \<rparr>)
         else let got = take have (drop (in_pos s) (in_buf s))
              in if in_buf s ! 1 AND TDS_STATUS_EOM \<noteq> 0 then (False, got, tds_close_socket s)
                 else (case tds_read_packet env s of
                         (None, t) \<Rightarrow> (False, got, tds_close_socket t)
                       | (Some _, t) \<Rightarrow>
                           (case tds_get_n env (need - have) t of (ok, rest, u) \<Rightarrow> (ok, got @ rest, u))))"
  by pat_completeness auto
termination
  by (relation "measure (\<lambda>(env, need, s). net_left s)") (auto intro: tds_read_packet_left sym)

declare tds_get_n.simps [simp del]

text \<open>The fixed-size readers; \<open>None\<close> when \<open>tds_get_n\<close> failed, where the C code decodes whatever
  its local variable holds.\<close>

definition tds_get_usmallint :: "env \<Rightarrow> rxsocket \<Rightarrow> nat option \<times> rxsocket" where
  "tds_get_usmallint env s =
     (case tds_get_n env 2 s of
        (True, [b0, b1], t) \<Rightarrow> (Some (TDS_GET_A2LE b0 b1), t)
      | (_, _, t) \<Rightarrow> (None, t))"

definition tds_get_uint :: "env \<Rightarrow> rxsocket \<Rightarrow> nat option \<times> rxsocket" where
  "tds_get_uint env s =
     (case tds_get_n env 4 s of
        (True, [b0, b1, b2, b3], t) \<Rightarrow> (Some (TDS_GET_A4LE b0 b1 b2 b3), t)
      | (_, _, t) \<Rightarrow> (None, t))"

definition tds_get_uint8 :: "env \<Rightarrow> rxsocket \<Rightarrow> nat option \<times> rxsocket" where
  "tds_get_uint8 env s =
     (case tds_get_n env 8 s of
        (True, [b0, b1, b2, b3, b4, b5, b6, b7], t) \<Rightarrow>
          (Some (TDS_GET_A4LE b4 b5 b6 b7 * 2 ^ 32 + TDS_GET_A4LE b0 b1 b2 b3), t)
      | (_, _, t) \<Rightarrow> (None, t))"

subsection \<open>Packets arrive whatever the chunks are\<close>

text \<open>\<open>feed s pkts\<close>: the open connection will deliver the packets \<open>pkts\<close>, cut into chunks in
  any way.\<close>

definition feed :: "rxsocket \<Rightarrow> byte list list \<Rightarrow> bool" where
  "feed s pkts \<longleftrightarrow> concat (net s) = concat pkts \<and> [] \<notin> set (net s) \<and> \<not> rx_dead s \<and>
     list_all (\<lambda>b. wire_packet b (b ! 1)) pkts"

definition rx_inv :: "rxsocket \<Rightarrow> bool" where
  "rx_inv s \<longleftrightarrow> 8 \<le> length (in_buf s) \<and> in_pos s \<le> in_len s \<and> in_len s \<le> length (in_buf s) \<and>
     (in_len s = 0 \<or> 8 \<le> in_len s)"

lemma tds_connection_read_ok:
  assumes "[] \<notin> set (net s)" "concat (net s) \<noteq> []" "0 < n"
  shows "\<exists>data t. tds_connection_read n s = Some (data, t) \<and> [] \<notin> set (net t)"
proof -
  from assms obtain c cs where "net s = c # cs" "c \<noteq> []" by (cases "net s") auto
  with assms show ?thesis by (auto simp: tds_connection_read_def)
qed

lemma realloc_recv_ok:
  assumes "malloc_ok env" "malloc_never_fails env"
  shows "\<exists>b k. realloc_recv env len s = Some (s \<lparr> in_buf := b, rx_mallocs := k \<rparr>) \<and> len \<le> length b \<and>
    take (length (in_buf s)) b = in_buf s"
proof (cases "length (in_buf s) < len")
  case True
  from assms(2) obtain b where b: "malloc env (rx_mallocs s) len = Some b"
    unfolding malloc_never_fails_def by blast
  with assms(1) have "length b = len" by (simp add: malloc_ok_def)
  with True b show ?thesis
    by (intro exI [of _ "write_at b 0 (in_buf s)"] exI [of _ "rx_mallocs s + 1"])
      (simp add: realloc_recv_def write_at_def)
next
  case False
  then show ?thesis
    by (intro exI [of _ "in_buf s"] exI [of _ "rx_mallocs s"]) (simp add: realloc_recv_def)
qed

text \<open>The loop invariant: the first \<open>n\<close> bytes of the packet \<open>p\<close> are in the buffer.\<close>

definition loading :: "byte list \<Rightarrow> byte list list \<Rightarrow> nat \<Rightarrow> nat \<Rightarrow> rxsocket \<Rightarrow> bool" where
  "loading p ps n e s \<longleftrightarrow>
     n \<le> e \<and> e \<le> length p \<and> e \<le> length (in_buf s) \<and> (4 \<le> n \<longrightarrow> e = length p) \<and> (n < 4 \<longrightarrow> e = 8) \<and>
     take n (in_buf s) = take n p \<and> concat (net s) = drop n p @ concat ps \<and> [] \<notin> set (net s)"

lemma read_packet_step_loading:
  assumes l: "loading p ps n e s" and n: "n < e" and w: "wire_packet p (p ! 1)"
    and mem: "malloc_ok env" "malloc_never_fails env"
  shows "\<exists>n' e' t. read_packet_step env n e s = Inl (n', e', t) \<and> loading p ps n' e' t \<and> rx_dead t = rx_dead s"
proof -
  from l have l': "e \<le> length p" "e \<le> length (in_buf s)" "take n (in_buf s) = take n p"
    "concat (net s) = drop n p @ concat ps" "[] \<notin> set (net s)" by (simp_all add: loading_def)
  with n have "drop n p \<noteq> []" by simp
  then obtain data t where r: "tds_connection_read (e - n) s = Some (data, t)" "[] \<notin> set (net t)"
    using tds_connection_read_ok [of s "e - n"] l' n by auto
  note d = tds_connection_read_props [OF r(1)]
  define n' where "n' = n + length data"
  have n': "n' \<le> e" using d(2) n by (simp add: n'_def)
  from d(3) l'(4) have "data @ concat (net t) = drop n p @ concat ps" by simp
  then have data: "data = take (length data) (drop n p)" and net': "concat (net t) = drop n' p @ concat ps"
    using d(2) l'(1) n by (auto simp: append_eq_append_conv_if n'_def add.commute)
  define b where "b = write_at (in_buf s) n data"
  have lb: "length b = length (in_buf s)" using d(2) l'(2) n by (simp add: b_def)
  have tb: "take n' b = take n' p"
  proof -
    have "take n' b = take n (in_buf s) @ data"
      unfolding b_def n'_def using l'(2) n by (intro take_write_at_end) simp
    also have "\<dots> = take n p @ take (length data) (drop n p)" using l'(3) data by simp
    finally show ?thesis by (simp add: take_add n'_def)
  qed
  let ?t = "t \<lparr> in_buf := b \<rparr>"
  have tbuf: "in_buf t = in_buf s" "rx_dead t = rx_dead s"
    using arg_cong [OF d(4), of in_buf] arg_cong [OF d(4), of rx_dead] by simp_all
  show ?thesis
  proof (cases "4 \<le> n'")
    case False
    then have "read_packet_step env n e s = Inl (n', e, ?t)"
      by (simp add: read_packet_step_def r Let_def n'_def [symmetric] b_def tbuf)
    moreover have "loading p ps n' e ?t"
      using l False n' net' tb lb r(2) by (auto simp: loading_def n'_def)
    ultimately show ?thesis using tbuf by auto
  next
    case True
    have "b ! i = p ! i" if "i < 4" for i
      using arg_cong [OF tb, of "\<lambda>xs. xs ! i"] True that by simp
    then have "b ! 2 = p ! 2" "b ! 3 = p ! 3" by simp_all
    then have pl: "TDS_GET_A2BE (b ! 2) (b ! 3) = length p" "8 \<le> length p"
      using w by (simp_all add: wire_packet_def)
    from realloc_recv_ok [OF mem, of "length p" ?t] obtain b' k
      where b': "realloc_recv env (length p) ?t = Some (?t \<lparr> in_buf := b', rx_mallocs := k \<rparr>)"
        "length p \<le> length b'" "take (length b) b' = b" by auto
    have "read_packet_step env n e s = Inl (n', length p, ?t \<lparr> in_buf := b', rx_mallocs := k \<rparr>)"
      using True pl b' by (simp add: read_packet_step_def r Let_def n'_def [symmetric] tbuf b_def [symmetric])
    moreover have "take n' b' = take n' p"
      using tb b'(3) n' l'(2) lb by (metis take_take min.absorb1 order.trans)
    then have "loading p ps n' (length p) (?t \<lparr> in_buf := b', rx_mallocs := k \<rparr>)"
      using True n' l'(1) b'(2) net' r(2) by (simp add: loading_def)
    ultimately show ?thesis using tbuf by auto
  qed
qed

lemma read_packet_loop_loading:
  assumes "loading p ps n e s" "wire_packet p (p ! 1)" "malloc_ok env" "malloc_never_fails env"
  shows "\<exists>t. read_packet_loop env n e s = Inl (length p, t) \<and> loading p ps (length p) (length p) t \<and>
    rx_dead t = rx_dead s"
  using assms
proof (induction env n e s rule: read_packet_loop.induct)
  case (1 env n e s)
  show ?case
  proof (cases "e \<le> n")
    case True
    have "8 \<le> length p" using 1(3) by (simp add: wire_packet_def)
    with True 1(2) have "n = length p" "e = length p" by (auto simp: loading_def)
    with 1(2) show ?thesis by (subst read_packet_loop.simps) simp
  next
    case False
    then obtain n' e' t where t: "read_packet_step env n e s = Inl (n', e', t)" "loading p ps n' e' t"
      "rx_dead t = rx_dead s"
      using read_packet_step_loading [OF 1(2) _ 1(3-5)] by (metis not_le)
    from 1(1) [OF False t(1) refl refl t(2) 1(3-5)] t False show ?thesis
      by (subst read_packet_loop.simps) simp
  qed
qed

lemma tds_read_packet_next:
  assumes "feed s (p # ps)" "8 \<le> length (in_buf s)" "malloc_ok env" "malloc_never_fails env"
  shows "\<exists>t. tds_read_packet env s = (Some (length p), t) \<and> feed t ps \<and> rx_inv t \<and>
    take (in_len t) (in_buf t) = p \<and> in_len t = length p \<and> in_pos t = 8 \<and> in_flag t = p ! 0"
proof -
  from assms(1) have w: "wire_packet p (p ! 1)" by (simp add: feed_def)
  then have p8: "8 \<le> length p" by (simp add: wire_packet_def)
  have "loading p ps 0 8 (s \<lparr> in_len := 0, in_pos := 0 \<rparr>)"
    using assms(1,2) p8 by (simp add: loading_def feed_def)
  from read_packet_loop_loading [OF this w assms(3,4)] obtain t where
    t: "read_packet_loop env 0 8 (s \<lparr> in_len := 0, in_pos := 0 \<rparr>) = Inl (length p, t)"
      "loading p ps (length p) (length p) t" "rx_dead t = rx_dead s" by auto
  from t(2) have l: "length p \<le> length (in_buf t)" "take (length p) (in_buf t) = p"
    "concat (net t) = concat ps" "[] \<notin> set (net t)" by (simp_all add: loading_def)
  have "in_buf t ! 0 = p ! 0" using arg_cong [OF l(2), of "\<lambda>xs. xs ! 0"] p8 by (cases p) auto
  with assms(1) t l p8 show ?thesis
    by (simp add: tds_read_packet_def feed_def rx_inv_def)
qed

subsection \<open>Bytes, counted reads and the end of the message\<close>

definition eom :: "byte list \<Rightarrow> bool" where
  "eom p \<longleftrightarrow> p ! 1 AND TDS_STATUS_EOM \<noteq> 0"

text \<open>The payload up to the end of the current message.\<close>

fun msg_rest :: "byte list list \<Rightarrow> byte list" where
  "msg_rest [] = []"
| "msg_rest (p # ps) = drop 8 p @ (if eom p then [] else msg_rest ps)"

definition unread :: "rxsocket \<Rightarrow> byte list" where
  "unread s = drop (in_pos s) (take (in_len s) (in_buf s))"

definition avail :: "rxsocket \<Rightarrow> byte list list \<Rightarrow> byte list" where
  "avail s pkts = unread s @ (if eom (in_buf s) then [] else msg_rest pkts)"

lemma length_unread: "rx_inv s \<Longrightarrow> length (unread s) = in_len s - in_pos s"
  by (simp add: unread_def rx_inv_def)

lemma take_unread:
  "n \<le> in_len s - in_pos s \<Longrightarrow> take n (drop (in_pos s) (in_buf s)) = take n (unread s)"
  by (simp add: unread_def drop_take min_absorb1)

lemma tds_read_packet_end:
  assumes "feed s []" shows "\<exists>t. tds_read_packet env s = (None, t) \<and> rx_dead t"
proof -
  have "net s = []" using assms by (cases "net s") (auto simp: feed_def)
  with assms show ?thesis
    by (simp add: tds_read_packet_def feed_def read_packet_loop.simps [of env 0] read_packet_step_def
        tds_connection_read_def tds_close_socket_def)
qed

lemma feed_in_pos [simp]: "feed (s \<lparr> in_pos := k \<rparr>) pkts = feed s pkts"
  by (simp add: feed_def)

lemma tds_get_n_enough:
  assumes "rx_inv s" "need \<le> in_len s - in_pos s"
  shows "tds_get_n env need s = (True, take need (avail s pkts), s \<lparr> in_pos := in_pos s + need \<rparr>) \<and>
    rx_inv (s \<lparr> in_pos := in_pos s + need \<rparr>) \<and>
    avail (s \<lparr> in_pos := in_pos s + need \<rparr>) pkts = drop need (avail s pkts) \<and>
    need \<le> length (avail s pkts)"
proof -
  have n: "need \<le> length (unread s)" using assms by (simp add: length_unread)
  have "unread (s \<lparr> in_pos := in_pos s + need \<rparr>) = drop need (unread s)"
    by (simp add: unread_def add.commute)
  then have "avail (s \<lparr> in_pos := in_pos s + need \<rparr>) pkts = drop need (avail s pkts)"
    using n by (simp add: avail_def)
  moreover have "tds_get_n env need s = (True, take need (avail s pkts), s \<lparr> in_pos := in_pos s + need \<rparr>)"
    using assms n by (subst tds_get_n.simps) (simp add: Let_def avail_def take_unread)
  moreover have "rx_inv (s \<lparr> in_pos := in_pos s + need \<rparr>)"
    using assms by (simp add: rx_inv_def, arith)
  ultimately show ?thesis using n by (simp add: avail_def)
qed

lemma tds_get_n_next_packet:
  assumes "rx_inv s" "in_len s - in_pos s < need" "\<not> eom (in_buf s)" "feed s (p # ps)"
    and mem: "malloc_ok env" "malloc_never_fails env"
  obtains t where "rx_inv t" "8 \<le> in_len t" "feed t ps" "avail s (p # ps) = unread s @ avail t ps"
    "tds_get_n env need s =
       (case tds_get_n env (need - length (unread s)) t of (ok, rest, u) \<Rightarrow> (ok, unread s @ rest, u))"
proof -
  have "8 \<le> length (in_buf s)" using assms(1) by (simp add: rx_inv_def)
  from tds_read_packet_next [OF assms(4) this mem] obtain t where
    t: "tds_read_packet env s = (Some (length p), t)" "feed t ps" "rx_inv t"
      "take (in_len t) (in_buf t) = p" "in_len t = length p" "in_pos t = 8" by blast
  have p8: "8 \<le> length p" using assms(4) by (simp add: feed_def wire_packet_def)
  have "in_buf t ! 1 = p ! 1" using arg_cong [OF t(4), of "\<lambda>xs. xs ! 1"] t(5) p8 by simp
  then have "eom (in_buf t) = eom p" by (simp add: eom_def)
  then have "avail s (p # ps) = unread s @ avail t ps"
    using assms(3) t by (simp add: avail_def unread_def)
  moreover have "tds_get_n env need s =
      (case tds_get_n env (need - length (unread s)) t of (ok, rest, u) \<Rightarrow> (ok, unread s @ rest, u))"
    using assms(1-3) t(1)
    by (subst tds_get_n.simps) (simp add: Let_def length_unread take_unread eom_def split: prod.splits)
  ultimately show thesis using that t p8 by simp
qed

lemma tds_get_n_exhausted:
  assumes "rx_inv s" "in_len s - in_pos s < need" "eom (in_buf s) \<or> feed s []" "eom (in_buf s) \<or> pkts = []"
  shows "\<exists>t. tds_get_n env need s = (False, avail s pkts, t) \<and> rx_dead t"
    "length (avail s pkts) < need"
proof -
  have a: "avail s pkts = unread s" using assms(4) by (auto simp: avail_def)
  then show "length (avail s pkts) < need" using assms(1,2) by (simp add: length_unread)
  show "\<exists>t. tds_get_n env need s = (False, avail s pkts, t) \<and> rx_dead t"
  proof (cases "eom (in_buf s)")
    case True
    with a assms(1,2) show ?thesis
      by (subst tds_get_n.simps) (simp add: Let_def length_unread take_unread tds_close_socket_def eom_def)
  next
    case False
    with assms(3) tds_read_packet_end [of s env] obtain t where "tds_read_packet env s = (None, t)" "rx_dead t"
      by auto
    with a assms(1,2) show ?thesis
      by (subst tds_get_n.simps) (simp add: Let_def length_unread take_unread tds_close_socket_def)
  qed
qed

lemma tds_get_n_avail:
  assumes "rx_inv s" "8 \<le> in_len s" "feed s pkts" "malloc_ok env" "malloc_never_fails env"
  shows "if need \<le> length (avail s pkts)
    then \<exists>t pkts'. tds_get_n env need s = (True, take need (avail s pkts), t) \<and>
      rx_inv t \<and> 8 \<le> in_len t \<and> feed t pkts' \<and> suffix pkts' pkts \<and> avail t pkts' = drop need (avail s pkts)
    else \<exists>t. tds_get_n env need s = (False, avail s pkts, t) \<and> rx_dead t"
  using assms(1-3)
proof (induction pkts arbitrary: s need)
  case (Nil s need)
  show ?case
  proof (cases "need \<le> in_len s - in_pos s")
    case True
    from tds_get_n_enough [OF Nil(1) True, of env "[]"] Nil(2,3) show ?thesis by auto
  next
    case False
    with tds_get_n_exhausted(2) [OF Nil(1), of need "[]"] tds_get_n_exhausted(1) [OF Nil(1), of need "[]" env] Nil(3)
    show ?thesis by simp
  qed
next
  case (Cons p ps s need)
  consider "need \<le> in_len s - in_pos s" | "in_len s - in_pos s < need" "eom (in_buf s)"
    | "in_len s - in_pos s < need" "\<not> eom (in_buf s)" by linarith
  then show ?case
  proof cases
    case 1
    from tds_get_n_enough [OF Cons.prems(1) 1, of env "p # ps"] Cons.prems(2,3) show ?thesis
      by (auto intro!: exI [of _ "p # ps"])
  next
    case 2
    with tds_get_n_exhausted(2) [OF Cons.prems(1), of need "p # ps"]
      tds_get_n_exhausted(1) [OF Cons.prems(1), of need "p # ps" env] show ?thesis by simp
  next
    case 3
    obtain t where t: "rx_inv t" "8 \<le> in_len t" "feed t ps" "avail s (p # ps) = unread s @ avail t ps"
      "tds_get_n env need s =
         (case tds_get_n env (need - length (unread s)) t of (ok, rest, u) \<Rightarrow> (ok, unread s @ rest, u))"
      by (rule tds_get_n_next_packet [OF Cons.prems(1) 3 Cons.prems(3) assms(4,5)])
    have lu: "length (unread s) < need" using 3 Cons.prems(1) by (simp add: length_unread)
    note IH = Cons.IH [OF t(1-3), of "need - length (unread s)"]
    show ?thesis
    proof (cases "need - length (unread s) \<le> length (avail t ps)")
      case True
      with IH obtain u qs where u: "tds_get_n env (need - length (unread s)) t =
          (True, take (need - length (unread s)) (avail t ps), u)" "rx_inv u" "8 \<le> in_len u" "feed u qs"
        "suffix qs ps" "avail u qs = drop (need - length (unread s)) (avail t ps)" by auto
      have "tds_get_n env need s = (True, take need (avail s (p # ps)), u)"
        "avail u qs = drop need (avail s (p # ps))"
        using u lu by (simp_all add: t(4,5))
      moreover have "suffix qs (p # ps)" using u(5) by (simp add: suffix_Cons)
      moreover have "need \<le> length (avail s (p # ps))" using True lu by (simp add: t(4))
      ultimately show ?thesis using u(2-4) by auto
    next
      case False
      with IH obtain u where "tds_get_n env (need - length (unread s)) t = (False, avail t ps, u)" "rx_dead u"
        by auto
      then have "tds_get_n env need s = (False, avail s (p # ps), u)" "rx_dead u" by (simp_all add: t(4,5))
      moreover have "\<not> need \<le> length (avail s (p # ps))" using False lu by (simp add: t(4))
      ultimately show ?thesis by simp
    qed
  qed
qed

text \<open>All that is still to come, beyond the end of the message too.\<close>

definition to_come :: "rxsocket \<Rightarrow> byte list list \<Rightarrow> byte list" where
  "to_come s pkts = unread s @ concat (map (drop 8) pkts)"

lemma tds_get_byte_here:
  assumes "rx_inv s" "in_pos s < in_len s"
  shows "tds_get_byte env s = (hd (to_come s pkts), s \<lparr> in_pos := in_pos s + 1 \<rparr>)"
    "to_come (s \<lparr> in_pos := in_pos s + 1 \<rparr>) pkts = tl (to_come s pkts)" "to_come s pkts \<noteq> []"
    "rx_inv (s \<lparr> in_pos := in_pos s + 1 \<rparr>)" "8 \<le> in_len s"
proof -
  have "in_pos s < length (take (in_len s) (in_buf s))" using assms by (simp add: rx_inv_def)
  from Cons_nth_drop_Suc [OF this] have u: "unread s = in_buf s ! in_pos s # unread (s \<lparr> in_pos := in_pos s + 1 \<rparr>)"
    using assms by (simp add: unread_def)
  then show "to_come (s \<lparr> in_pos := in_pos s + 1 \<rparr>) pkts = tl (to_come s pkts)" "to_come s pkts \<noteq> []"
    by (simp_all add: to_come_def)
  show "tds_get_byte env s = (hd (to_come s pkts), s \<lparr> in_pos := in_pos s + 1 \<rparr>)"
    using u assms(2) by (subst tds_get_byte.simps) (simp add: to_come_def)
  show "rx_inv (s \<lparr> in_pos := in_pos s + 1 \<rparr>)" "8 \<le> in_len s" using assms by (auto simp: rx_inv_def)
qed

lemma tds_get_byte_next:
  assumes "rx_inv s" "feed s pkts" "malloc_ok env" "malloc_never_fails env"
  shows "if to_come s pkts = [] then \<exists>t. tds_get_byte env s = (0, t) \<and> rx_dead t
    else \<exists>t pkts'. tds_get_byte env s = (hd (to_come s pkts), t \<lparr> in_pos := in_pos t + 1 \<rparr>) \<and>
      rx_inv t \<and> rx_inv (t \<lparr> in_pos := in_pos t + 1 \<rparr>) \<and> 8 \<le> in_len t \<and> feed t pkts' \<and>
      to_come (t \<lparr> in_pos := in_pos t + 1 \<rparr>) pkts' = tl (to_come s pkts) \<and> to_come t pkts' = to_come s pkts \<and>
      ((\<exists>qs. pkts = qs @ take (in_len t) (in_buf t) # pkts') \<or> pkts' = pkts \<and> t = s)"
  using assms(1,2)
proof (induction pkts arbitrary: s)
  have here: "if to_come s pkts = [] then \<exists>t. tds_get_byte env s = (0, t) \<and> rx_dead t
    else \<exists>t pkts'. tds_get_byte env s = (hd (to_come s pkts), t \<lparr> in_pos := in_pos t + 1 \<rparr>) \<and>
      rx_inv t \<and> rx_inv (t \<lparr> in_pos := in_pos t + 1 \<rparr>) \<and> 8 \<le> in_len t \<and> feed t pkts' \<and>
      to_come (t \<lparr> in_pos := in_pos t + 1 \<rparr>) pkts' = tl (to_come s pkts) \<and> to_come t pkts' = to_come s pkts \<and>
      ((\<exists>qs. pkts = qs @ take (in_len t) (in_buf t) # pkts') \<or> pkts' = pkts \<and> t = s)"
    if "rx_inv s" "feed s pkts" "in_pos s < in_len s" for s pkts
    unfolding if_not_P [OF tds_get_byte_here(3) [OF that(1,3)]]
    by (rule exI [of _ s], rule exI [of _ pkts]) (use tds_get_byte_here [OF that(1,3)] that in blast)
  {
  case (Nil s)
  show ?case
  proof (cases "in_pos s < in_len s")
    case True
    show ?thesis by (rule here [OF Nil True])
  next
    case False
    with tds_read_packet_end [OF Nil(2), of env] show ?thesis
      by (subst tds_get_byte.simps) (auto simp: to_come_def unread_def)
  qed
next
  case (Cons p ps s)
  show ?case
  proof (cases "in_pos s < in_len s")
    case True
    show ?thesis by (rule here [OF Cons.prems True])
  next
    case False
    have "8 \<le> length (in_buf s)" using Cons.prems(1) by (simp add: rx_inv_def)
    from tds_read_packet_next [OF Cons.prems(2) this assms(3,4)] obtain t where
      t: "tds_read_packet env s = (Some (length p), t)" "feed t ps" "rx_inv t"
        "take (in_len t) (in_buf t) = p" "in_len t = length p" "in_pos t = 8" by blast
    have "unread s = []" using False by (simp add: unread_def)
    moreover have "unread t = drop 8 p" unfolding unread_def t(4) by (simp add: t(6))
    ultimately have "to_come s (p # ps) = to_come t ps" by (simp add: to_come_def)
    moreover have "tds_get_byte env s = tds_get_byte env t"
      using False t(1) by (subst tds_get_byte.simps) simp
    ultimately have eq: "to_come s (p # ps) = to_come t ps" "tds_get_byte env s = tds_get_byte env t" by simp_all
    show ?thesis
    proof (cases "to_come t ps = []")
      case True
      with Cons.IH [OF t(3,2)] have "\<exists>u. tds_get_byte env t = (0, u) \<and> rx_dead u" by simp
      then show ?thesis by (simp add: eq True)
    next
      case False
      with Cons.IH [OF t(3,2)] obtain u qs where u:
        "tds_get_byte env t = (hd (to_come t ps), u \<lparr> in_pos := in_pos u + 1 \<rparr>)" "rx_inv u"
        "rx_inv (u \<lparr> in_pos := in_pos u + 1 \<rparr>)" "8 \<le> in_len u" "feed u qs"
        "to_come (u \<lparr> in_pos := in_pos u + 1 \<rparr>) qs = tl (to_come t ps)" "to_come u qs = to_come t ps"
        "(\<exists>rs. ps = rs @ take (in_len u) (in_buf u) # qs) \<or> qs = ps \<and> u = t" by auto
      have "\<exists>rs. p # ps = rs @ take (in_len u) (in_buf u) # qs"
        using u(8) t(4) by (auto intro: exI [of _ "[]"])
      with u(1-7) False show ?thesis unfolding eq by auto
    qed
  qed
  }
qed

text \<open>\<open>tds_get_byte\<close> returns the next payload byte, skipping packets without payload, and 0 on a
  socket it has closed at the end of the input; \<open>tds_peek\<close> returns the same byte and leaves
  the input as it was, and \<open>tds_unget_byte\<close> undoes one \<open>tds_get_byte\<close>.\<close>

theorem tds_get_byte_and_peek:
  assumes "rx_inv s" "feed s pkts" "malloc_ok env" "malloc_never_fails env" "to_come s pkts \<noteq> []"
  shows "fst (tds_get_byte env s) = hd (to_come s pkts) \<and> fst (tds_peek env s) = hd (to_come s pkts) \<and>
    (\<exists>pkts'. feed (snd (tds_get_byte env s)) pkts' \<and> feed (snd (tds_peek env s)) pkts' \<and>
       rx_inv (snd (tds_get_byte env s)) \<and> rx_inv (snd (tds_peek env s)) \<and>
       to_come (snd (tds_get_byte env s)) pkts' = tl (to_come s pkts) \<and>
       to_come (snd (tds_peek env s)) pkts' = to_come s pkts \<and>
       to_come (tds_unget_byte (snd (tds_get_byte env s))) pkts' = to_come s pkts)"
proof -
  obtain t pkts' where t: "tds_get_byte env s = (hd (to_come s pkts), t \<lparr> in_pos := in_pos t + 1 \<rparr>)"
    "rx_inv t" "rx_inv (t \<lparr> in_pos := in_pos t + 1 \<rparr>)" "feed t pkts'"
    "to_come (t \<lparr> in_pos := in_pos t + 1 \<rparr>) pkts' = tl (to_come s pkts)" "to_come t pkts' = to_come s pkts"
    using tds_get_byte_next [OF assms(1-4)] assms(5) by auto
  have "t \<lparr> in_pos := in_pos t \<rparr> = t" by simp
  then show ?thesis using t
    by (auto simp: tds_peek_def tds_unget_byte_def intro!: exI [of _ pkts'])
qed

subsection \<open>The readers\<close>

text \<open>\<open>tds_read_packet\<close> loads the next packet whole, however the network cuts the bytes into
  chunks, growing the buffer when the header asks for more than it holds, and consumes not a byte
  of the packets after it.\<close>

theorem tds_read_packet_any_chunking:
  assumes "feed s (p # ps)" "8 \<le> length (in_buf s)" "malloc_ok env" "malloc_never_fails env"
  shows "\<exists>t. tds_read_packet env s = (Some (length p), t) \<and> feed t ps \<and> rx_inv t \<and>
    take (in_len t) (in_buf t) = p \<and> in_len t = length p \<and> in_pos t = 8 \<and> in_flag t = p ! 0"
  using assms by (rule tds_read_packet_next)

text \<open>C13: \<open>tds_get_n\<close> delivers the next \<open>need\<close> bytes of the message, packet headers removed, and
  leaves the rest of it; a request beyond the end of the message, be it the packet with the
  end-of-message flag or the end of the connection, gets all there is, reports failure and closes the
  socket.\<close>

theorem tds_get_n_delivers:
  assumes "rx_inv s" "8 \<le> in_len s" "feed s pkts" "malloc_ok env" "malloc_never_fails env"
  shows "if need \<le> length (avail s pkts)
    then \<exists>t pkts'. tds_get_n env need s = (True, take need (avail s pkts), t) \<and>
      rx_inv t \<and> 8 \<le> in_len t \<and> feed t pkts' \<and> suffix pkts' pkts \<and> avail t pkts' = drop need (avail s pkts)
    else \<exists>t. tds_get_n env need s = (False, avail s pkts, t) \<and> rx_dead t"
  using assms by (rule tds_get_n_avail)

text \<open>The integer readers return the number whose little endian bytes come next, in one packet or
  across several: they invert \<open>tds_put_smallint\<close>, \<open>tds_put_int\<close> and \<open>tds_put_int8\<close>.\<close>

theorem tds_get_integers:
  assumes "rx_inv s" "8 \<le> in_len s" "feed s pkts" "malloc_ok env" "malloc_never_fails env"
  shows "(\<forall>v rest. avail s pkts = TDS_PUT_A2LE v @ rest \<and> v < 2 ^ 16 \<longrightarrow>
      (\<exists>t pkts'. tds_get_usmallint env s = (Some v, t) \<and> feed t pkts' \<and> avail t pkts' = rest)) \<and>
    (\<forall>v rest. avail s pkts = TDS_PUT_A4LE v @ rest \<and> v < 2 ^ 32 \<longrightarrow>
      (\<exists>t pkts'. tds_get_uint env s = (Some v, t) \<and> feed t pkts' \<and> avail t pkts' = rest)) \<and>
    (\<forall>v rest. avail s pkts = TDS_PUT_A4LE (v mod 2 ^ 32) @ TDS_PUT_A4LE (v div 2 ^ 32) @ rest \<and> v < 2 ^ 64 \<longrightarrow>
      (\<exists>t pkts'. tds_get_uint8 env s = (Some v, t) \<and> feed t pkts' \<and> avail t pkts' = rest))"
proof (intro conjI allI impI; elim conjE)
  have get: "\<exists>t pkts'. tds_get_n env n s = (True, bytes, t) \<and> feed t pkts' \<and> avail t pkts' = rest"
    if "avail s pkts = bytes @ rest" "length bytes = n" for bytes rest n
    using tds_get_n_avail [OF assms, of n] that by auto
  {
    fix v rest assume "avail s pkts = TDS_PUT_A2LE v @ rest" "v < 2 ^ 16"
    with get [OF this(1), of 2] show "\<exists>t pkts'. tds_get_usmallint env s = (Some v, t) \<and> feed t pkts' \<and> avail t pkts' = rest"
      using get_put_A2LE [of v] by (auto simp: tds_get_usmallint_def TDS_PUT_A2LE_def)
  next
    fix v rest assume "avail s pkts = TDS_PUT_A4LE v @ rest" "v < 2 ^ 32"
    with get [OF this(1), of 4] show "\<exists>t pkts'. tds_get_uint env s = (Some v, t) \<and> feed t pkts' \<and> avail t pkts' = rest"
      using get_put_A4LE [of v] by (auto simp: tds_get_uint_def TDS_PUT_A4LE_def)
  next
    fix v rest assume a: "avail s pkts = TDS_PUT_A4LE (v mod 2 ^ 32) @ TDS_PUT_A4LE (v div 2 ^ 32) @ rest" "v < 2 ^ 64"
    have "v div 2 ^ 32 < 2 ^ 32" using a(2) by (simp add: div_less_iff_less_mult)
    with get [of "TDS_PUT_A4LE (v mod 2 ^ 32) @ TDS_PUT_A4LE (v div 2 ^ 32)" rest 8] a
    show "\<exists>t pkts'. tds_get_uint8 env s = (Some v, t) \<and> feed t pkts' \<and> avail t pkts' = rest"
      using get_put_A4LE [of "v mod 2 ^ 32"] get_put_A4LE [of "v div 2 ^ 32"] div_mult_mod_eq [of v "2 ^ 32"]
      by (auto simp: tds_get_uint8_def TDS_PUT_A4LE_def)
  }
qed

text \<open>A receiving socket for the witnesses: two packets, the second with the end-of-message flag, cut
  into three chunks.\<close>

definition demo_rx :: rxsocket where
  "demo_rx = \<lparr> in_buf = replicate 16 0, in_pos = 0, in_len = 0, in_flag = 0, rx_dead = False,
     net = [[4, 0, 0], [10, 0, 0, 0, 0, 1, 2, 4], [1, 0, 9, 0, 0, 0, 0, 3]], rx_mallocs = 0 \<rparr>"

definition demo_pkts :: "byte list list" where
  "demo_pkts = [[4, 0, 0, 10, 0, 0, 0, 0, 1, 2], [4, 1, 0, 9, 0, 0, 0, 0, 3]]"

lemma demo_rx_ok: "rx_inv demo_rx" "feed demo_rx demo_pkts" "8 \<le> length (in_buf demo_rx)"
  "to_come demo_rx demo_pkts = [1, 2, 3]"
  by (simp_all add: demo_rx_def demo_pkts_def rx_inv_def feed_def wire_packet_def TDS_GET_A2BE_def to_come_def
      unread_def)

theorem tds_read_packet_any_chunking_witness:
  "\<exists>t. tds_read_packet demo_env demo_rx = (Some 10, t) \<and> take (in_len t) (in_buf t) = [4, 0, 0, 10, 0, 0, 0, 0, 1, 2]"
  using tds_read_packet_any_chunking [OF demo_rx_ok(2) [unfolded demo_pkts_def] demo_rx_ok(3) demo_ok(2,3)] by auto

theorem tds_get_byte_and_peek_witness: "fst (tds_get_byte demo_env demo_rx) = 1 \<and> fst (tds_peek demo_env demo_rx) = 1"
  using tds_get_byte_and_peek [OF demo_rx_ok(1,2) demo_ok(2,3)] demo_rx_ok(4) by simp

text \<open>The same socket after the first packet has been loaded.\<close>

definition demo_rx1 :: rxsocket where
  "demo_rx1 = demo_rx \<lparr> in_buf := [4, 0, 0, 10, 0, 0, 0, 0, 1, 2], in_pos := 8, in_len := 10,
     net := [[4], [1, 0, 9, 0, 0, 0, 0, 3]] \<rparr>"

lemma demo_rx1_ok: "rx_inv demo_rx1" "8 \<le> in_len demo_rx1" "feed demo_rx1 [[4, 1, 0, 9, 0, 0, 0, 0, 3]]"
  "avail demo_rx1 [[4, 1, 0, 9, 0, 0, 0, 0, 3]] = [1, 2, 3]"
  by (simp_all add: demo_rx1_def demo_rx_def rx_inv_def feed_def wire_packet_def TDS_GET_A2BE_def avail_def
      unread_def eom_def TDS_STATUS_EOM_def)

theorem tds_get_n_delivers_witness:
  "(\<exists>t. tds_get_n demo_env 3 demo_rx1 = (True, [1, 2, 3], t)) \<and>
   (\<exists>t. tds_get_n demo_env 4 demo_rx1 = (False, [1, 2, 3], t) \<and> rx_dead t)"
  using tds_get_n_delivers [OF demo_rx1_ok(1-3) demo_ok(2,3), of 3]
    tds_get_n_delivers [OF demo_rx1_ok(1-3) demo_ok(2,3), of 4]
  by (auto simp: demo_rx1_ok(4))

theorem tds_get_integers_witness: "fst (tds_get_usmallint demo_env demo_rx1) = Some 513"
proof -
  have "avail demo_rx1 [[4, 1, 0, 9, 0, 0, 0, 0, 3]] = TDS_PUT_A2LE 513 @ [3]"
    by (simp add: demo_rx1_ok(4) TDS_PUT_A2LE_def u8_of_def)
  with tds_get_integers [OF demo_rx1_ok(1-3) demo_ok(2,3)] show ?thesis by fastforce
qed

end
