(* ===== verification/Wire_Link.thy ===== *)
theory Wire_Link
  imports Freeze Wire_In
begin

text \<open>
  Both halves of the packet layer together: what one side puts and flushes is what the other
  side reads, over a connection that transports bytes in order and cuts them anywhere.
\<close>

lemma msg_rest_single_eom:
  assumes "\<And>p. p \<in> set ps \<Longrightarrow> \<not> eom p" "eom q"
  shows "msg_rest (ps @ [q]) = concat (map (drop 8) (ps @ [q]))"
  using assms by (induction ps) auto


text \<open>Two bytes in one flushed packet, received in two chunks.\<close>

definition demo_sent :: tdssocket where
  "demo_sent = demo_socket \<lparr> sent_log := [([3, 1, 0, 10, 0, 0, 1, 0, 5, 6], 1)] \<rparr>"

definition demo_peer :: rxsocket where
  "demo_peer = demo_rx \<lparr> net := [[3, 1, 0], [10, 0, 0, 1, 0, 5, 6]] \<rparr>"


end
