(* ===== verification/Streams.thy ===== *)
theory Streams
  imports Wire_In "HOL-Library.Monad_Syntax"
begin

text \<open>
  Data streams: \<open>src/tds/stream.c\<close> and the stream of chunks of \<open>src/tds/data.c\<close>. A stream is its state with the functions
  \<open>tds_copy_stream\<close> calls through it: \<open>read\<close> of an input stream; \<open>buf_len\<close>, the space at \<open>buffer\<close>, and \<open>write\<close> of an output
  stream. \<open>store\<close> is the effect of a reader on the space at \<open>buffer\<close>.

  The locales \<open>in_stream\<close> and \<open>out_stream\<close> state what \<open>include/freetds/stream.h\<close> asks of the two sides; the copy is verified
  against them and every stream of the library is shown to provide one of them.
\<close>

subsection \<open>Bytes that are coming in\<close>

text \<open>The rest of the current message is \<open>bs\<close>, however it is cut into packets and chunks.\<close>

definition incoming :: "env \<Rightarrow> byte list \<Rightarrow> rxsocket \<Rightarrow> bool" where
  "incoming env bs s \<longleftrightarrow> malloc_ok env \<and> malloc_never_fails env \<and> rx_inv s \<and> 8 \<le> in_len s \<and>
     (\<exists>pkts. feed s pkts \<and> avail s pkts = bs)"

lemma incoming_get_n:
  assumes "incoming env bs s" "n \<le> length bs"
  shows "\<exists>t. tds_get_n env n s = (True, take n bs, t) \<and> incoming env (drop n bs) t \<and> \<not> rx_dead t"
proof -
  from assms(1) obtain pkts where a: "rx_inv s" "8 \<le> in_len s" "feed s pkts" "malloc_ok env" "malloc_never_fails env"
    "avail s pkts = bs" by (auto simp: incoming_def)
  from tds_get_n_avail [OF a(1-5), of n] a(4-6) assms(2) show ?thesis
    by (fastforce simp: incoming_def feed_def)
qed

lemma incoming_get_n_short:
  assumes "incoming env bs s" "length bs < n"
  shows "\<exists>t. tds_get_n env n s = (False, bs, t) \<and> rx_dead t"
proof -
  from assms(1) obtain pkts where a: "rx_inv s" "8 \<le> in_len s" "feed s pkts" "malloc_ok env" "malloc_never_fails env"
    "avail s pkts = bs" by (auto simp: incoming_def)
  from tds_get_n_avail [OF a(1-5), of n] a(6) assms(2) show ?thesis by simp
qed

lemma incoming_get:
  assumes "incoming env (bs @ rest) s" "length bs = n"
  obtains t where "tds_get_n env n s = (True, bs, t)" "incoming env rest t" "\<not> rx_dead t"
  using incoming_get_n [OF assms(1), of n] assms(2) by auto

lemma tds_get_byte_get_n:
  "tds_get_n env 1 s = (True, [b], t) \<Longrightarrow> tds_get_byte env s = (b, t)"
proof (induction env s arbitrary: b t rule: tds_get_byte.induct)
  case (1 env s)
  show ?case
  proof (cases "in_len s \<le> in_pos s")
    case False
    then have "1 \<le> in_len s - in_pos s" by simp
    then have "tds_get_n env 1 s = (True, take 1 (drop (in_pos s) (in_buf s)), s \<lparr> in_pos := in_pos s + 1 \<rparr>)"
      by (subst tds_get_n.simps) (simp add: Let_def)
    with 1(2) have "take 1 (drop (in_pos s) (in_buf s)) = [b]" "t = s \<lparr> in_pos := in_pos s + 1 \<rparr>" by simp_all
    moreover from this(1) have "in_buf s ! in_pos s = b"
      by (cases "drop (in_pos s) (in_buf s)") (auto simp: nth_via_drop)
    ultimately show ?thesis using False by (subst tds_get_byte.simps) simp
  next
    case True
    with 1(2) obtain n u where u: "tds_read_packet env s = (Some n, u)" "tds_get_n env 1 u = (True, [b], t)"
      by (subst (asm) tds_get_n.simps) (auto split: if_splits option.splits prod.splits)
    have "tds_get_byte env u = (b, t)" by (rule 1(1) [OF True u(1) [symmetric] refl u(2)])
    with True u(1) show ?thesis by (subst tds_get_byte.simps) simp
  qed
qed

lemma incoming_get_byte:
  assumes "incoming env (b # rest) s"
  obtains t where "tds_get_byte env s = (b, t)" "incoming env rest t" "\<not> rx_dead t"
proof -
  from assms have "incoming env ([b] @ rest) s" by simp
  then obtain t where "tds_get_n env 1 s = (True, [b], t)" "incoming env rest t" "\<not> rx_dead t"
    by (rule incoming_get [where n = 1]) simp_all
  with tds_get_byte_get_n that show thesis by blast
qed

lemma incoming_get_uint:
  assumes "incoming env (TDS_PUT_A4LE v @ rest) s" "v < 2 ^ 32"
  obtains t where "tds_get_uint env s = (Some v, t)" "incoming env rest t" "\<not> rx_dead t"
proof -
  from incoming_get [OF assms(1), of 4] obtain t where
    "tds_get_n env 4 s = (True, TDS_PUT_A4LE v, t)" "incoming env rest t" "\<not> rx_dead t" by auto
  moreover from this(1) have "tds_get_uint env s = (Some v, t)"
    using get_put_A4LE [OF assms(2)] by (simp add: tds_get_uint_def TDS_PUT_A4LE_def)
  ultimately show thesis using that by blast
qed

lemma incoming_get_usmallint:
  assumes "incoming env (TDS_PUT_A2LE v @ rest) s" "v < 2 ^ 16"
  obtains t where "tds_get_usmallint env s = (Some v, t)" "incoming env rest t" "\<not> rx_dead t"
proof -
  from incoming_get [OF assms(1), of 2] obtain t where
    "tds_get_n env 2 s = (True, TDS_PUT_A2LE v, t)" "incoming env rest t" "\<not> rx_dead t" by auto
  moreover from this(1) have "tds_get_usmallint env s = (Some v, t)"
    using get_put_A2LE [OF assms(2)] by (simp add: tds_get_usmallint_def TDS_PUT_A2LE_def)
  ultimately show thesis using that by blast
qed

lemma incoming_get_uint8:
  assumes "incoming env (TDS_PUT_A4LE (v mod 2 ^ 32) @ TDS_PUT_A4LE (v div 2 ^ 32) @ rest) s" "v < 2 ^ 64"
  obtains t where "tds_get_uint8 env s = (Some v, t)" "incoming env rest t" "\<not> rx_dead t"
proof -
  from incoming_get [of env "TDS_PUT_A4LE (v mod 2 ^ 32) @ TDS_PUT_A4LE (v div 2 ^ 32)" rest s 8] assms(1) obtain t where
    t: "tds_get_n env 8 s = (True, TDS_PUT_A4LE (v mod 2 ^ 32) @ TDS_PUT_A4LE (v div 2 ^ 32), t)" "incoming env rest t"
      "\<not> rx_dead t" by auto
  have "v div 2 ^ 32 < 2 ^ 32" using assms(2) by (simp add: div_less_iff_less_mult)
  then have "tds_get_uint8 env s = (Some v, t)"
    using t(1) get_put_A4LE [of "v mod 2 ^ 32"] get_put_A4LE [of "v div 2 ^ 32"] div_mult_mod_eq [of v "2 ^ 32"]
    by (simp add: tds_get_uint8_def TDS_PUT_A4LE_def)
  with t(2,3) that show thesis by blast
qed

subsection \<open>The streams\<close>

text \<open>A reader stores bytes and returns its result; \<open>None\<close> is a result that depends on an uninitialised variable.\<close>

type_synonym 'i reader = "nat \<Rightarrow> 'i \<Rightarrow> (int \<times> byte list \<times> 'i) option"

text \<open>The state is \<open>wire_size\<close> and the socket.\<close>

definition tds_datain_stream_read :: "env \<Rightarrow> (nat \<times> rxsocket) reader" where
  "tds_datain_stream_read env len st =
     (case st of
        (wire_size, s) \<Rightarrow>
          let len = (if wire_size < len then wire_size else len);
              (ok, data, s) = tds_get_n env len s
          in if \<not> ok then Some (- 1, data, (wire_size, s))
             else Some (int len, data, (wire_size - len, s)))"

text \<open>The state is what \<open>buffer\<close> points to, \<open>buf_left\<close> bytes.\<close>

definition tds_staticin_stream_read :: "byte list reader" where
  "tds_staticin_stream_read len buffer =
     (let cp = min len (length buffer)
      in Some (int cp, take cp buffer, drop cp buffer))"

text \<open>The state is \<open>chunk_left\<close> and the socket.\<close>

definition tds_varmax_stream_read :: "env \<Rightarrow> (int \<times> rxsocket) reader" where
  "tds_varmax_stream_read env len st =
     (case st of
        (chunk_left, s) \<Rightarrow>
          do {
            (chunk_left, s) \<leftarrow>
              (if chunk_left = 0
               then (case tds_get_uint env s of
                       (None, s) \<Rightarrow> None
                     | (Some l, s) \<Rightarrow>
                         let l = sint (word_of_nat l :: u32)
                         in Some (if l \<le> 0 then - 1 else l, s))
               else Some (chunk_left, s));
            if chunk_left < 0 then Some (0, [], (chunk_left, s))
            else
              let len = (if nat chunk_left < len then nat chunk_left else len);
                  chunk_left = chunk_left - int len;
                  (ok, data, s) = tds_get_n env len s
              in if ok then Some (int len, data, (chunk_left, s))
                 else Some (- 1, data, (chunk_left, s))
          })"

text \<open>The dynamic stream: the block \<open>*buf\<close>, the bytes \<open>allocated\<close> of it that may be used, and the \<open>size\<close> of the data; \<open>buffer\<close>
  is \<open>*buf + size\<close>. \<open>ds_mallocs\<close> counts the allocations.\<close>

record dynstream =
  ds_buf :: "byte list"
  ds_allocated :: nat
  ds_size :: nat
  ds_mallocs :: nat

definition dyn_left :: "dynstream \<Rightarrow> nat" where
  "dyn_left w = ds_allocated w - ds_size w"

definition dyn_store :: "byte list \<Rightarrow> dynstream \<Rightarrow> dynstream" where
  "dyn_store data w = w \<lparr> ds_buf := write_at (ds_buf w) (ds_size w) data \<rparr>"

definition tds_dynamic_stream_write :: "env \<Rightarrow> nat \<Rightarrow> dynstream \<Rightarrow> int \<times> dynstream" where
  "tds_dynamic_stream_write env len w =
     (let w = w \<lparr> ds_size := ds_size w + len \<rparr>
      in if ds_allocated w < ds_size w + 256
         then let wanted = ds_size w + (if ds_size w < 4096 then 1024 else ds_size w div 8)
              in case malloc env (ds_mallocs w) wanted of
                   None \<Rightarrow> (- 1, w \<lparr> ds_mallocs := ds_mallocs w + 1 \<rparr>)
                 | Some b \<Rightarrow> (int len, w \<lparr> ds_buf := write_at b 0 (take wanted (ds_buf w)), ds_allocated := wanted,
                                        ds_mallocs := ds_mallocs w + 1 \<rparr>)
         else (int len, w))"

text \<open>\<open>ptr\<close> is the block the caller has, if any; \<open>None\<close> when there is no memory.\<close>

definition tds_dynamic_stream_init :: "env \<Rightarrow> byte list option \<Rightarrow> nat \<Rightarrow> dynstream option" where
  "tds_dynamic_stream_init env ptr allocated =
     (let ptr = (if allocated < 1024 then None else ptr);
          allocated = (if allocated < 1024 then 1024 else allocated)
      in case ptr of
           Some b \<Rightarrow> Some \<lparr> ds_buf = b, ds_allocated = allocated, ds_size = 0, ds_mallocs = 0 \<rparr>
         | None \<Rightarrow> map_option (\<lambda>b. \<lparr> ds_buf = b, ds_allocated = allocated, ds_size = 0, ds_mallocs = 1 \<rparr>)
                      (malloc env 0 allocated))"

text \<open>The static output stream: the rest of the caller's buffer, and what was written before it.\<close>

record staticout =
  so_done :: "byte list"
  so_buffer :: "byte list"

definition staticout_store :: "byte list \<Rightarrow> staticout \<Rightarrow> staticout" where
  "staticout_store data w = w \<lparr> so_buffer := write_at (so_buffer w) 0 data \<rparr>"

definition tds_staticout_stream_write :: "nat \<Rightarrow> staticout \<Rightarrow> int \<times> staticout" where
  "tds_staticout_stream_write len w =
     (int len, w \<lparr> so_done := so_done w @ take len (so_buffer w), so_buffer := drop len (so_buffer w) \<rparr>)"

text \<open>The loop ends when the reader does; \<open>None\<close> also stands for a loop that does not end.\<close>

partial_function (option) tds_copy_stream ::
  "'i reader \<Rightarrow> ('o \<Rightarrow> nat) \<Rightarrow> (byte list \<Rightarrow> 'o \<Rightarrow> 'o) \<Rightarrow> (nat \<Rightarrow> 'o \<Rightarrow> int \<times> 'o) \<Rightarrow> 'i \<Rightarrow> 'o \<Rightarrow> (tdsret \<times> 'i \<times> 'o) option" where
  "tds_copy_stream read buf_len store write' i w =
     (if buf_len w = 0 then Some (TDS_FAIL, i, w)
      else do {
        (len, data, i) \<leftarrow> read (buf_len w) i;
        let w = store data w;
        if len = 0 then Some (TDS_SUCCESS, i, w)
        else if len < 0 then Some (TDS_FAIL, i, w)
        else (case write' (nat len) w of
                (n, w) \<Rightarrow> if n < 0 then Some (TDS_FAIL, i, w)
                          else tds_copy_stream read buf_len store write' i w)
      })"

subsection \<open>What the streams promise\<close>

text \<open>\<open>remaining bs i\<close>: the stream \<open>i\<close> has the bytes \<open>bs\<close> left. A read delivers some of them, and 0 at the end only; then the
  stream has \<open>ended\<close>.\<close>

locale in_stream =
  fixes read :: "'i reader" and remaining :: "byte list \<Rightarrow> 'i \<Rightarrow> bool" and ended :: "'i \<Rightarrow> bool"
  assumes read_end: "remaining [] i \<Longrightarrow> 0 < n \<Longrightarrow> \<exists>i'. read n i = Some (0, [], i') \<and> ended i'"
    and read_more: "remaining bs i \<Longrightarrow> bs \<noteq> [] \<Longrightarrow> 0 < n \<Longrightarrow>
      \<exists>data rest i'. read n i = Some (int (length data), data, i') \<and> data \<noteq> [] \<and> length data \<le> n \<and>
        bs = data @ rest \<and> remaining rest i'"

text \<open>\<open>written bs w\<close>: the bytes \<open>bs\<close> have been written to \<open>w\<close>. There is room while they \<open>fit\<close>, and a write keeps what the
  producer has stored at \<open>buffer\<close>.\<close>

locale out_stream =
  fixes buf_len :: "'o \<Rightarrow> nat" and store :: "byte list \<Rightarrow> 'o \<Rightarrow> 'o" and write' :: "nat \<Rightarrow> 'o \<Rightarrow> int \<times> 'o"
    and written :: "byte list \<Rightarrow> 'o \<Rightarrow> bool" and fits :: "nat \<Rightarrow> bool"
  assumes fits_less: "fits n \<Longrightarrow> m \<le> n \<Longrightarrow> fits m"
    and room: "written bs w \<Longrightarrow> fits (length bs) \<Longrightarrow> 0 < buf_len w"
    and store_Nil: "written bs w \<Longrightarrow> store [] w = w"
    and write_ok: "written bs w \<Longrightarrow> data \<noteq> [] \<Longrightarrow> length data \<le> buf_len w \<Longrightarrow> fits (length bs + length data) \<Longrightarrow>
      \<exists>w'. write' (length data) (store data w) = (int (length data), w') \<and> written (bs @ data) w'"

locale stream_copy = in_stream read remaining ended + out_stream buf_len store write' written fits
  for read :: "'i reader" and remaining and ended and buf_len :: "'o \<Rightarrow> nat" and store write' written fits
begin

text \<open>The copy ends, whatever sizes the reads have, and transfers exactly what the input had left.\<close>

lemma copy:
  assumes "remaining bs i" "written ws w" "fits (length ws + length bs)"
  shows "\<exists>i' w'. tds_copy_stream read buf_len store write' i w = Some (TDS_SUCCESS, i', w') \<and>
    ended i' \<and> written (ws @ bs) w'"
  using assms
proof (induction bs arbitrary: i w ws rule: length_induct)
  case (1 bs i w ws)
  have "0 < buf_len w" using room [OF 1(3)] fits_less [OF 1(4)] by simp
  show ?case
  proof (cases "bs = []")
    case True
    with read_end [of i "buf_len w"] 1(2) \<open>0 < buf_len w\<close> obtain j where
      "read (buf_len w) i = Some (0, [], j)" "ended j" by auto
    with True \<open>0 < buf_len w\<close> store_Nil [OF 1(3)] 1(3) show ?thesis
      by (subst tds_copy_stream.simps) simp
  next
    case False
    from read_more [OF 1(2) this \<open>0 < buf_len w\<close>] obtain data rest j where
      r: "read (buf_len w) i = Some (int (length data), data, j)" "data \<noteq> []" "length data \<le> buf_len w"
        "bs = data @ rest" "remaining rest j" by blast
    from write_ok [OF 1(3) r(2,3)] fits_less [OF 1(4)] r(4) obtain v where
      v: "write' (length data) (store data w) = (int (length data), v)" "written (ws @ data) v" by auto
    have "tds_copy_stream read buf_len store write' i w = tds_copy_stream read buf_len store write' j v"
      using r(1,2) v(1) \<open>0 < buf_len w\<close> by (subst tds_copy_stream.simps) simp
    with 1(1) [rule_format, of rest j "ws @ data" v] r(2,4,5) v(2) 1(4) show ?thesis by (simp add: add.assoc)
  qed
qed

end

subsection \<open>The input streams\<close>

text \<open>The data of a value, with \<open>rest\<close> of the message behind it.\<close>

definition datain_left :: "env \<Rightarrow> byte list \<Rightarrow> byte list \<Rightarrow> nat \<times> rxsocket \<Rightarrow> bool" where
  "datain_left env rest bs st \<longleftrightarrow> fst st = length bs \<and> incoming env (bs @ rest) (snd st)"

interpretation datain: in_stream "tds_datain_stream_read env" "datain_left env rest" "datain_left env rest []" for env rest
proof
  fix st :: "nat \<times> rxsocket" and n
  assume "datain_left env rest [] st"
  then have st: "fst st = 0" "incoming env rest (snd st)" by (simp_all add: datain_left_def)
  from incoming_get_n [OF st(2), of 0] st(1)
  show "\<exists>i'. tds_datain_stream_read env n st = Some (0, [], i') \<and> datain_left env rest [] i'"
    by (auto simp: tds_datain_stream_read_def datain_left_def split: prod.splits)
next
  fix bs st and n :: nat
  assume a: "datain_left env rest bs st" "bs \<noteq> []" "0 < n"
  obtain s where s: "st = (length bs, s)" "incoming env (bs @ rest) s"
    using a(1) by (cases st) (auto simp: datain_left_def)
  define m where "m = (if length bs < n then length bs else n)"
  have m: "m \<le> length bs" "m \<le> n" "0 < m" using a(2,3) by (auto simp: m_def)
  from incoming_get_n [OF s(2), of m] m(1) obtain t where
    "tds_get_n env m s = (True, take m bs, t)" "incoming env (drop m bs @ rest) t" by auto
  then have "tds_datain_stream_read env n st = Some (int (length (take m bs)), take m bs, (length bs - m, t))"
    "datain_left env rest (drop m bs) (length bs - m, t)"
    using m(1) by (simp_all add: tds_datain_stream_read_def datain_left_def s(1) m_def [symmetric])
  moreover have "take m bs \<noteq> []" "length (take m bs) \<le> n" "bs = take m bs @ drop m bs" using m a(2) by simp_all
  ultimately show "\<exists>data rest' i'. tds_datain_stream_read env n st = Some (int (length data), data, i') \<and> data \<noteq> [] \<and>
      length data \<le> n \<and> bs = data @ rest' \<and> datain_left env rest rest' i'" by blast
qed

interpretation staticin: in_stream tds_staticin_stream_read "\<lambda>bs buffer. buffer = bs" "\<lambda>buffer. buffer = []"
proof
  fix bs buffer :: "byte list" and n :: nat
  assume "buffer = bs" "bs \<noteq> []" "0 < n"
  then show "\<exists>data rest i'. tds_staticin_stream_read n buffer = Some (int (length data), data, i') \<and> data \<noteq> [] \<and>
      length data \<le> n \<and> bs = data @ rest \<and> i' = rest"
    by (intro exI [of _ "take (min n (length bs)) bs"] exI [of _ "drop (min n (length bs)) bs"])
      (simp add: tds_staticin_stream_read_def Let_def min_def)
qed (simp add: tds_staticin_stream_read_def)

text \<open>A value in chunks: each with its length, the end is a length of zero.\<close>

definition chunks_ok :: "byte list list \<Rightarrow> bool" where
  "chunks_ok chunks \<longleftrightarrow> (\<forall>c \<in> set chunks. c \<noteq> [] \<and> length c < 2 ^ 31)"

definition varmax_chunks :: "byte list list \<Rightarrow> byte list" where
  "varmax_chunks chunks = concat (map (\<lambda>c. TDS_PUT_A4LE (length c) @ c) chunks) @ TDS_PUT_A4LE 0"

definition varmax_left :: "env \<Rightarrow> byte list \<Rightarrow> byte list \<Rightarrow> int \<times> rxsocket \<Rightarrow> bool" where
  "varmax_left env rest bs st \<longleftrightarrow>
     fst st = - 1 \<and> bs = [] \<and> incoming env rest (snd st) \<or>
     0 \<le> fst st \<and> (\<exists>cur chunks. length cur = nat (fst st) \<and> chunks_ok chunks \<and> bs = cur @ concat chunks \<and>
       incoming env (cur @ varmax_chunks chunks @ rest) (snd st))"

definition varmax_ended :: "env \<Rightarrow> byte list \<Rightarrow> int \<times> rxsocket \<Rightarrow> bool" where
  "varmax_ended env rest st \<longleftrightarrow> fst st = - 1 \<and> incoming env rest (snd st)"

lemma sint_of_length: "n < 2 ^ 31 \<Longrightarrow> sint (word_of_nat n :: u32) = int n"
  by (simp add: signed_of_nat signed_take_bit_int_eq_self)

interpretation varmax: in_stream "tds_varmax_stream_read env" "varmax_left env rest" "varmax_ended env rest" for env rest
proof
  fix st :: "int \<times> rxsocket" and n :: nat
  assume l: "varmax_left env rest [] st" "0 < n"
  obtain c s where st: "st = (c, s)" by fastforce
  show "\<exists>i'. tds_varmax_stream_read env n st = Some (0, [], i') \<and> varmax_ended env rest i'"
  proof (cases "c = - 1")
    case True
    with l st show ?thesis by (auto simp: varmax_left_def varmax_ended_def tds_varmax_stream_read_def)
  next
    case False
    with l st have "c = 0" "incoming env (TDS_PUT_A4LE 0 @ rest) s"
      by (auto simp: varmax_left_def chunks_ok_def varmax_chunks_def)
    moreover from incoming_get_uint [OF this(2)] obtain t where
      "tds_get_uint env s = (Some 0, t)" "incoming env rest t" by auto
    ultimately show ?thesis by (auto simp: st varmax_ended_def tds_varmax_stream_read_def)
  qed
next
  have chunk: "\<exists>data rest' i'. tds_varmax_stream_read env n (c, s) = Some (int (length data), data, i') \<and> data \<noteq> [] \<and>
      length data \<le> n \<and> cur @ concat chunks = data @ rest' \<and> varmax_left env rest rest' i'"
    if "length cur = nat c" "chunks_ok chunks" "incoming env (cur @ varmax_chunks chunks @ rest) s" "0 < c" "0 < n"
    for cur chunks c s and n :: nat
  proof -
    define m where "m = (if nat c < n then nat c else n)"
    have m: "m \<le> length cur" "m \<le> n" "0 < m" "cur \<noteq> []" using that by (auto simp: m_def)
    from incoming_get_n [OF that(3), of m] m(1) obtain t where t:
      "tds_get_n env m s = (True, take m cur, t)" "incoming env (drop m cur @ varmax_chunks chunks @ rest) t" by auto
    have "tds_varmax_stream_read env n (c, s) = Some (int (length (take m cur)), take m cur, (c - int m, t))"
      using t(1) that(4) m(1) by (simp add: tds_varmax_stream_read_def m_def [symmetric])
    moreover have "varmax_left env rest (drop m cur @ concat chunks) (c - int m, t)"
      unfolding varmax_left_def using t(2) that(1,2,4) m(1)
      by (intro disjI2 conjI exI [of _ "drop m cur"] exI [of _ chunks]) simp_all
    moreover have "take m cur \<noteq> []" "length (take m cur) \<le> n"
      "cur @ concat chunks = take m cur @ drop m cur @ concat chunks" using m by simp_all
    ultimately show ?thesis by blast
  qed
  fix bs and st :: "int \<times> rxsocket" and n :: nat
  assume a: "varmax_left env rest bs st" "bs \<noteq> []" "0 < n"
  obtain c s where st: "st = (c, s)" by fastforce
  from a(1,2) st obtain cur chunks where b: "0 \<le> c" "length cur = nat c" "chunks_ok chunks" "bs = cur @ concat chunks"
    "incoming env (cur @ varmax_chunks chunks @ rest) s" by (auto simp: varmax_left_def)
  show "\<exists>data rest' i'. tds_varmax_stream_read env n st = Some (int (length data), data, i') \<and> data \<noteq> [] \<and>
      length data \<le> n \<and> bs = data @ rest' \<and> varmax_left env rest rest' i'"
  proof (cases "c = 0")
    case False
    with chunk [OF b(2,3,5) _ a(3)] b(1,4) st show ?thesis by simp
  next
    case True
    with b(2,4) a(2) obtain d ds where ch: "cur = []" "chunks = d # ds" by (cases chunks) auto
    from b(3) have d: "d \<noteq> []" "length d < 2 ^ 31" "chunks_ok ds" by (auto simp: chunks_ok_def ch)
    have "incoming env (TDS_PUT_A4LE (length d) @ d @ varmax_chunks ds @ rest) s"
      using b(5) by (simp add: ch varmax_chunks_def)
    from incoming_get_uint [OF this] d(2) obtain t where t: "tds_get_uint env s = (Some (length d), t)"
      "incoming env (d @ varmax_chunks ds @ rest) t" by auto
    have "tds_varmax_stream_read env n (0, s) = tds_varmax_stream_read env n (int (length d), t)"
      using t(1) d by (simp add: tds_varmax_stream_read_def sint_of_length Let_def)
    with chunk [of d "int (length d)" ds t n] d t(2) a(3) True b(4) st ch show ?thesis by simp
  qed
qed

subsection \<open>The output streams\<close>

definition dyn_written :: "env \<Rightarrow> byte list \<Rightarrow> dynstream \<Rightarrow> bool" where
  "dyn_written env bs w \<longleftrightarrow> malloc_ok env \<and> malloc_never_fails env \<and> ds_size w = length bs \<and> ds_size w < ds_allocated w \<and>
     ds_allocated w \<le> length (ds_buf w) \<and> take (length bs) (ds_buf w) = bs"

lemma tds_dynamic_stream_init_written:
  assumes "malloc_ok env" "malloc_never_fails env" "\<And>b. ptr = Some b \<Longrightarrow> 1024 \<le> allocated \<Longrightarrow> allocated \<le> length b"
  shows "\<exists>w. tds_dynamic_stream_init env ptr allocated = Some w \<and> dyn_written env [] w"
proof -
  from assms(2) obtain b where "malloc env 0 (max 1024 allocated) = Some b" unfolding malloc_never_fails_def by blast
  moreover from this assms(1) have "length b = max 1024 allocated" by (simp add: malloc_ok_def)
  ultimately show ?thesis using assms
    by (cases ptr) (auto simp: tds_dynamic_stream_init_def dyn_written_def max_def split: if_splits)
qed

interpretation dynamic: out_stream dyn_left dyn_store "tds_dynamic_stream_write env" "dyn_written env" "\<lambda>_. True" for env
proof
  fix bs w and data :: "byte list"
  assume a: "dyn_written env bs w" "data \<noteq> []" "length data \<le> dyn_left w"
  from a(1) have w: "malloc_ok env" "malloc_never_fails env" "ds_size w = length bs" "ds_size w < ds_allocated w"
    "ds_allocated w \<le> length (ds_buf w)" "take (length bs) (ds_buf w) = bs" by (simp_all add: dyn_written_def)
  define buf where "buf = write_at (ds_buf w) (length bs) data"
  have len: "length bs + length data \<le> length (ds_buf w)" "length buf = length (ds_buf w)"
    using a(3) w(3-5) by (auto simp: dyn_left_def buf_def)
  have tb: "take (length bs + length data) buf = bs @ data"
    unfolding buf_def using len(1) w(6) by (simp add: take_write_at_end)
  let ?sz = "length bs + length data"
  let ?wanted = "?sz + (if ?sz < 4096 then 1024 else ?sz div 8)"
  show "\<exists>w'. tds_dynamic_stream_write env (length data) (dyn_store data w) = (int (length data), w') \<and>
      dyn_written env (bs @ data) w'"
  proof (cases "ds_allocated w < ?sz + 256")
    case False
    then have "tds_dynamic_stream_write env (length data) (dyn_store data w) =
        (int (length data), w \<lparr> ds_buf := buf, ds_size := ?sz \<rparr>)"
      by (simp add: tds_dynamic_stream_write_def dyn_store_def buf_def w(3))
    moreover have "dyn_written env (bs @ data) (w \<lparr> ds_buf := buf, ds_size := ?sz \<rparr>)"
      using False w(1,2,5) len tb by (simp add: dyn_written_def)
    ultimately show ?thesis by blast
  next
    case True
    from w(1,2) obtain b where b: "malloc env (ds_mallocs w) ?wanted = Some b" "length b = ?wanted"
      unfolding malloc_never_fails_def malloc_ok_def by (metis option.exhaust)
    let ?w = "w \<lparr> ds_buf := write_at b 0 (take ?wanted buf), ds_size := ?sz, ds_allocated := ?wanted,
        ds_mallocs := ds_mallocs w + 1 \<rparr>"
    have "?sz < ?wanted" by (simp add: div_greater_zero_iff)
    moreover have "tds_dynamic_stream_write env (length data) (dyn_store data w) = (int (length data), ?w)"
      using True b(1)
      by (cases "?sz < 4096") (simp_all add: tds_dynamic_stream_write_def dyn_store_def buf_def [symmetric] w(3) Let_def)
    moreover have "take ?sz (write_at b 0 (take ?wanted buf)) = bs @ data"
      using tb len \<open>?sz < ?wanted\<close> by (simp add: write_at_def min_def)
    moreover have "length (write_at b 0 (take ?wanted buf)) = ?wanted" using b(2) by simp
    ultimately have "tds_dynamic_stream_write env (length data) (dyn_store data w) = (int (length data), ?w)"
      "dyn_written env (bs @ data) ?w" using w(1,2) by (simp_all add: dyn_written_def)
    then show ?thesis by blast
  qed
qed (auto simp: dyn_written_def dyn_left_def dyn_store_def)

definition static_written :: "nat \<Rightarrow> byte list \<Rightarrow> staticout \<Rightarrow> bool" where
  "static_written cap bs w \<longleftrightarrow> so_done w = bs \<and> length bs + length (so_buffer w) = cap"

interpretation staticout: out_stream "\<lambda>w. length (so_buffer w)" staticout_store tds_staticout_stream_write "static_written cap"
    "\<lambda>n. n < cap" for cap
  by unfold_locales
    (auto simp: static_written_def staticout_store_def tds_staticout_stream_write_def write_at_def)

definition dataout_written :: "env \<Rightarrow> tdssocket \<Rightarrow> byte list \<Rightarrow> tdssocket \<Rightarrow> bool" where
  "dataout_written env s0 bs s \<longleftrightarrow> appends bs s0 s \<and> can_write env s \<and> 0 < dataout_left s"

interpretation dataout: out_stream dataout_left dataout_store "tds_dataout_stream_write env" "dataout_written env s0"
    "\<lambda>_. True" for env s0
proof
  fix bs s and data :: "byte list"
  assume a: "dataout_written env s0 bs s" "data \<noteq> []" "length data \<le> dataout_left s"
  from a(1) have s: "appends bs s0 s" "can_write env s" by (simp_all add: dataout_written_def)
  obtain n t where t: "tds_dataout_stream_write env (length data) (dataout_store data s) = (n, t)" by fastforce
  from tds_dataout_stream_write_appends [OF appends_inv [OF s(1)] s(2) a(3) t] appends_trans [OF s(1), of data t]
    appends_can_write [of data s t env] s(2) t
  show "\<exists>t. tds_dataout_stream_write env (length data) (dataout_store data s) = (int (length data), t) \<and>
      dataout_written env s0 (bs @ data) t"
    by (auto simp: dataout_written_def)
qed (simp_all add: dataout_written_def dataout_store_def)

text \<open>The copies the library makes.\<close>

interpretation datain_dynamic: stream_copy "tds_datain_stream_read env" "datain_left env rest" "datain_left env rest []" dyn_left dyn_store
    "tds_dynamic_stream_write env'" "dyn_written env'" "\<lambda>_. True" for env rest env'
  by unfold_locales

interpretation varmax_dynamic: stream_copy "tds_varmax_stream_read env" "varmax_left env rest" "varmax_ended env rest" dyn_left dyn_store
    "tds_dynamic_stream_write env'" "dyn_written env'" "\<lambda>_. True" for env rest env'
  by unfold_locales

interpretation static_dataout: stream_copy tds_staticin_stream_read "\<lambda>bs buffer. buffer = bs" "\<lambda>buffer. buffer = []" dataout_left dataout_store
    "tds_dataout_stream_write env" "dataout_written env s0" "\<lambda>_. True" for env s0
  by unfold_locales

interpretation static_static: stream_copy tds_staticin_stream_read "\<lambda>bs buffer. buffer = bs" "\<lambda>buffer. buffer = []"
    "\<lambda>w. length (so_buffer w)" staticout_store tds_staticout_stream_write "static_written cap" "\<lambda>n. n < cap" for cap
  by unfold_locales

end
