(* ===== verification/Radix.thy ===== *)
theory Radix
  imports Bytes
begin

text \<open>
  Numbers as lists of digits in a base, least significant digit first (\<open>le_val\<close>) or most
  significant first (\<open>be_val\<close>): the vocabulary of the multi-word arithmetic of
  \<open>src/tds/numeric.c\<close> and \<open>src/tds/convert.c\<close>, which works in the bases 256, \<open>2 ^ 16\<close>,
  \<open>2 ^ 32\<close>, \<open>10 ^ 4\<close> and \<open>10 ^ 8\<close>.
\<close>

primrec le_val :: "nat \<Rightarrow> nat list \<Rightarrow> nat" where
  "le_val B [] = 0"
| "le_val B (x # xs) = x + B * le_val B xs"

definition be_val :: "nat \<Rightarrow> nat list \<Rightarrow> nat" where
  "be_val B xs = le_val B (rev xs)"

lemma le_val_append: "le_val B (xs @ ys) = le_val B xs + B ^ length xs * le_val B ys"
  by (induction xs) (simp_all add: algebra_simps)

lemma le_val_replicate_zero [simp]: "le_val B (replicate n 0) = 0"
  by (induction n) simp_all

lemma le_val_less: "list_all (\<lambda>x. x < B) xs \<Longrightarrow> le_val B xs < B ^ length xs"
proof (induction xs)
  case (Cons x xs)
  then have x: "x < B" and "le_val B xs + 1 \<le> B ^ length xs" by simp_all
  then have "B * (le_val B xs + 1) \<le> B * B ^ length xs" by (intro mult_le_mono) simp_all
  with x show ?case by simp
qed simp

lemma be_val_Nil [simp]: "be_val B [] = 0"
  by (simp add: be_val_def)

lemma be_val_Cons: "be_val B (x # xs) = x * B ^ length xs + be_val B xs"
  by (simp add: be_val_def le_val_append mult.commute)

lemma be_val_append: "be_val B (xs @ ys) = be_val B xs * B ^ length ys + be_val B ys"
  by (simp add: be_val_def le_val_append mult.commute)

lemma be_val_snoc: "be_val B (xs @ [x]) = be_val B xs * B + x"
  by (simp add: be_val_append be_val_Cons)

lemma be_val_less: "list_all (\<lambda>x. x < B) xs \<Longrightarrow> be_val B xs < B ^ length xs"
  using le_val_less [of B "rev xs"] by (simp add: be_val_def)

lemma be_val_dropWhile_zero: "be_val B (dropWhile ((=) 0) xs) = be_val B xs"
  by (induction xs) (simp_all add: be_val_Cons)

lemma be_val_ge:
  assumes "x \<noteq> 0" shows "B ^ length xs \<le> be_val B (x # xs)"
  using assms by (cases x) (simp_all add: be_val_Cons)

lemma be_val_zero_iff: "0 < B \<Longrightarrow> be_val B xs = 0 \<longleftrightarrow> dropWhile ((=) 0) xs = []"
  by (induction xs) (auto simp: be_val_Cons)

text \<open>The bytes of a number, most significant first.\<close>

definition bytes_val :: "byte list \<Rightarrow> nat" where
  "bytes_val bs = be_val 256 (map unat bs)"

lemma bytes_val_Nil [simp]: "bytes_val [] = 0"
  by (simp add: bytes_val_def)

lemma bytes_val_Cons: "bytes_val (b # bs) = unat b * 256 ^ length bs + bytes_val bs"
  by (simp add: bytes_val_def be_val_Cons)

lemma bytes_val_append: "bytes_val (as @ bs) = bytes_val as * 256 ^ length bs + bytes_val bs"
  by (simp add: bytes_val_def be_val_append)

lemma bytes_val_less: "bytes_val bs < 256 ^ length bs"
  using be_val_less [of 256 "map unat bs"] by (simp add: bytes_val_def list_all_iff unat_byte_less)

lemma bytes_val_replicate_zero [simp]: "bytes_val (replicate n 0 @ bs) = bytes_val bs"
  by (induction n) (simp_all add: bytes_val_Cons)

lemma TDS_GET_A2BE_val: "TDS_GET_A2BE a b = bytes_val [a, b]"
  by (simp add: TDS_GET_A2BE_def bytes_val_Cons)

lemma TDS_GET_A4BE_val: "TDS_GET_A4BE a b c d = bytes_val [a, b, c, d]"
  by (simp add: TDS_GET_A4BE_def bytes_val_Cons)

lemma TDS_PUT_A4BE_val: "v < 2 ^ 32 \<Longrightarrow> bytes_val (TDS_PUT_A4BE v) = v"
  using get_put_A4BE [of v] by (simp add: TDS_PUT_A4BE_def TDS_GET_A4BE_val)

lemma bytes_val_inj: "length as = length bs \<Longrightarrow> bytes_val as = bytes_val bs \<Longrightarrow> as = bs"
proof (induction as bs rule: list_induct2)
  case (Cons a as b bs)
  let ?P = "(256 :: nat) ^ length bs"
  have *: "unat a * ?P + bytes_val as = unat b * ?P + bytes_val bs" using Cons by (simp add: bytes_val_Cons)
  have l: "bytes_val as < ?P" "bytes_val bs < ?P" using bytes_val_less Cons.hyps by metis+
  have "unat a = (unat a * ?P + bytes_val as) div ?P" using l(1) by simp
  also have "\<dots> = unat b" unfolding * using l(2) by simp
  finally have "unat a = unat b" .
  with * Cons.IH show ?case by (simp add: word_unat_eq_iff)
qed simp

subsection \<open>Decimal digits of a fixed width\<close>

primrec dec :: "nat \<Rightarrow> nat \<Rightarrow> string" where
  "dec 0 v = []"
| "dec (Suc w) v = dec w (v div 10) @ [digit (v mod 10)]"

lemma length_dec [simp]: "length (dec w v) = w"
  by (induction w arbitrary: v) simp_all

lemma dec_digits [simp]: "list_all is_digit (dec w v)"
  by (induction w arbitrary: v) simp_all

lemma read_dec: "read_nat (dec w v) = v mod 10 ^ w"
proof (induction w arbitrary: v)
  case (Suc w)
  have "v div 10 mod 10 ^ w * 10 + v mod 10 = v mod (10 * 10 ^ w)"
    by (simp add: mod_mult2_eq)
  with Suc show ?case by (simp add: read_nat_snoc)
qed simp

text \<open>A prefix of the digits.\<close>

lemma dec_append: "dec (a + b) v = dec a (v div 10 ^ b) @ dec b v"
proof (induction b arbitrary: v)
  case (Suc b)
  have "v div 10 div 10 ^ b = v div 10 ^ Suc b" by (simp add: div_mult2_eq)
  with Suc show ?case by simp
qed simp

lemma dec_mod [simp]: "dec w (v mod 10 ^ w) = dec w v"
proof (induction w arbitrary: v)
  case (Suc w)
  have "v mod 10 ^ Suc w div 10 = v div 10 mod 10 ^ w"
    by (simp add: mod_mult2_eq)
  moreover have "v mod 10 ^ Suc w mod 10 = v mod 10" by (simp add: mod_mult2_eq)
  ultimately show ?case using Suc [of "v div 10"] by simp
qed simp

lemma dec_Suc_Cons:
  assumes "v < 10 ^ Suc w" shows "dec (Suc w) v = digit (v div 10 ^ w) # dec w (v mod 10 ^ w)"
proof -
  have "v div 10 ^ w < 10" using assms by (simp add: div_less_iff_less_mult)
  with dec_append [of 1 w v] show ?thesis by simp
qed

lemma show_nat_dec: "v < 10 ^ w \<Longrightarrow> 0 < w \<Longrightarrow> w = 1 \<or> 10 ^ (w - 1) \<le> v \<Longrightarrow> show_nat v = dec w v"
proof (induction w arbitrary: v)
  case (Suc w)
  show ?case
  proof (cases w)
    case 0
    with Suc.prems show ?thesis by (subst show_nat.simps) simp
  next
    case (Suc u)
    with Suc.prems have "10 \<le> v" by (auto intro: order_trans [rotated])
    moreover have "v div 10 < 10 ^ w" using Suc.prems by (simp add: div_less_iff_less_mult mult.commute)
    moreover have "w = 1 \<or> 10 ^ (w - 1) \<le> v div 10"
      using Suc Suc.prems by (simp add: less_eq_div_iff_mult_less_eq mult.commute)
    ultimately show ?thesis
      using Suc.IH [of "v div 10"] Suc by (subst show_nat.simps) simp
  qed
qed simp

subsection \<open>Dropping the highest words\<close>

text \<open>The loops that lower the number of words while the highest one is zero, keeping at least one.\<close>

fun strip_high :: "nat list \<Rightarrow> nat list" where
  "strip_high packet = (if 1 < length packet \<and> last packet = 0 then strip_high (butlast packet) else packet)"

declare strip_high.simps [simp del]

lemma strip_high_val:
  assumes "ws \<noteq> []"
  shows "le_val B (strip_high ws) = le_val B ws \<and> strip_high ws \<noteq> [] \<and> set (strip_high ws) \<subseteq> set ws \<and>
    (length (strip_high ws) = 1 \<or> last (strip_high ws) \<noteq> 0)"
  using assms
proof (induction ws rule: strip_high.induct)
  case (1 ws)
  show ?case
  proof (cases "1 < length ws \<and> last ws = 0")
    case True
    then have b: "butlast ws \<noteq> []" "ws = butlast ws @ [0]"
      using append_butlast_last_id [OF 1(2)] by (auto simp: length_butlast dest: arg_cong [of _ _ length])
    have "le_val B ws = le_val B (butlast ws)" by (subst b(2)) (simp add: le_val_append)
    then show ?thesis using 1(1) [OF True b(1)] True
      by (subst (1 2 3 4 5) strip_high.simps) (auto dest: in_set_butlastD)
  next
    case False
    then show ?thesis using 1(2) by (subst (1 2 3 4 5) strip_high.simps) (cases ws; auto)
  qed
qed

subsection \<open>Skipping characters\<close>

lemma dropWhile_prefix: "list_all P xs \<Longrightarrow> ys = [] \<or> \<not> P (hd ys) \<Longrightarrow> dropWhile P (xs @ ys) = ys"
  by (induction xs) (auto simp: dropWhile_eq_self_iff)

lemma dropWhile_split: "\<exists>xs. s = xs @ dropWhile P s \<and> list_all P xs"
  by (rule exI [of _ "takeWhile P s"]) (auto simp: list_all_iff dest: set_takeWhileD)

end
