(* ===== verification/Numeric.thy ===== *)
theory Numeric
  imports Radix
begin

text \<open>
  Exact numbers: \<open>src/tds/numeric.c\<close>. A \<open>TDS_NUMERIC\<close> is a precision, a scale and 33 bytes: the sign and
  the number, most significant byte first, in as many bytes as the precision needs. The words of
  the multi-word arithmetic are natural numbers; where the C code computes in 32 or 64 bits the
  wrap-around is written out.

  The tables \<open>limits\<close> and \<open>limit_indexes\<close> are in a header the build generates, so they are a
  parameter (\<open>num_limits\<close>) with the law \<open>limits_ok\<close>.
\<close>

subsection \<open>Data\<close>

record tds_numeric =
  precision :: nat
  scale :: nat
  array :: "byte list"

datatype conv_error = TDS_CONVERT_FAIL | TDS_CONVERT_NOAVAIL | TDS_CONVERT_SYNTAX | TDS_CONVERT_NOMEM | TDS_CONVERT_OVERFLOW

definition MAXPRECISION :: nat where
  "MAXPRECISION = 77"

definition tds_numeric_bytes_per_prec :: "nat list" where
  "tds_numeric_bytes_per_prec =
     [1,
      2,  2,  3,  3,  4,  4,  4,  5,  5,
      6,  6,  6,  7,  7,  8,  8,  9,  9,  9,
      10, 10, 11, 11, 11, 12, 12, 13, 13, 14,
      14, 14, 15, 15, 16, 16, 16, 17, 17, 18,
      18, 19, 19, 19, 20, 20, 21, 21, 21, 22,
      22, 23, 23, 24, 24, 24, 25, 25, 26, 26,
      26, 27, 27, 28, 28, 28, 29, 29, 30, 30,
      31, 31, 31, 32, 32, 33, 33, 33]"

definition bad_prec_scale :: "nat \<Rightarrow> nat \<Rightarrow> bool" where
  "bad_prec_scale prec sc \<longleftrightarrow> prec < 1 \<or> MAXPRECISION < prec \<or> prec < sc"

subsection \<open>Money\<close>

text \<open>\<open>tds_money_to_string\<close>: \<open>mymoney\<close> is put together from the two halves; \<open>-mymoney\<close> is computed in 64 bits
  and read as unsigned.\<close>

definition tds_money_to_string :: "32 word \<Rightarrow> 32 word \<Rightarrow> bool \<Rightarrow> string" where
  "tds_money_to_string mnyhigh mnylow use_2_digits =
     (let mymoney = push_bit 32 (ucast mnyhigh) OR ucast mnylow :: 64 word;
          n = (if mymoney <s 0 then - mymoney else mymoney);
          sgn = (if mymoney <s 0 then ''-'' else [])
      in if use_2_digits
         then let n = (n + 50) div 100
              in sgn @ show_nat (unat (n div 100)) @ ''.'' @ dec 2 (unat (n mod 100))
         else sgn @ show_nat (unat (n div 10000)) @ ''.'' @ dec 4 (unat (n mod 10000)))"

subsection \<open>Numbers to strings\<close>

text \<open>The number in 16-bit words, most significant first: the part of \<open>packet\<close> from \<open>pnum\<close> on.\<close>

fun pack16 :: "byte list \<Rightarrow> nat \<Rightarrow> nat list \<Rightarrow> nat list" where
  "pack16 number n pnum =
     (if 1 < n then pack16 number (n - 2) (TDS_GET_A2BE (number ! (n - 1)) (number ! n) # pnum)
      else if n = 1 then unat (number ! n) # pnum
      else pnum)"

declare pack16.simps [simp del]

text \<open>One round of the change of base: the words from \<open>packet_start\<close> are divided by 10000.\<close>

fun div_rest :: "nat \<Rightarrow> nat list \<Rightarrow> nat list \<times> nat" where
  "div_rest remainder [] = ([], remainder)"
| "div_rest remainder (w # pnum) =
     (let n = (remainder * (256 * 256) + w) mod 2 ^ 32;
          (q, r) = div_rest (n mod 10000) pnum
      in (n div 10000 # q, r))"

lemma length_div_rest [simp]: "length (fst (div_rest r ws)) = length ws"
  by (induction r ws rule: div_rest.induct) (simp_all add: Let_def case_prod_unfold)

lemma div_rest_length: "(q, x) = div_rest r ws \<Longrightarrow> length q = length ws"
  using length_div_rest [of r ws] by (metis fst_conv)

function to_packet10k :: "nat list \<Rightarrow> nat list \<Rightarrow> nat list" where
  "to_packet10k [] p = p"
| "to_packet10k (n # ws) p =
     (case div_rest (n mod 10000) ws of
        (q, r) \<Rightarrow> to_packet10k (if n div 10000 = 0 then q else n div 10000 # q) (r # p))"
  by pat_completeness auto
termination
  by (relation "measures [\<lambda>(ws, p). length ws, \<lambda>(ws, p). hd ws]") (auto dest: div_rest_length intro: div_less_dividend)

text \<open>The first digit that is printed.\<close>

function skip_leading :: "nat \<Rightarrow> nat \<Rightarrow> nat \<Rightarrow> nat \<times> nat" where
  "skip_leading remainder n i = (if remainder < n then skip_leading remainder (n div 10) (i - 1) else (n, i))"
  by pat_completeness auto
termination
  by (relation "measure (\<lambda>(r, n, i). n)") auto

declare skip_leading.simps [simp del]

text \<open>The printing loop; \<open>p\<close> is what follows \<open>*p\<close> in \<open>packet10k\<close>.\<close>

function out_digits :: "nat \<Rightarrow> nat \<Rightarrow> nat \<Rightarrow> nat \<Rightarrow> nat list \<Rightarrow> string" where
  "out_digits sc remainder n i p =
     digit (remainder div n) #
     (if n div 10 = 0
      then (case p of
              [] \<Rightarrow> []
            | r # p \<Rightarrow> (if i - 1 = sc then ''.'' else []) @ out_digits sc r 1000 (i - 1) p)
      else (if i - 1 = sc then ''.'' else []) @ out_digits sc (remainder mod n) (n div 10) (i - 1) p)"
  by pat_completeness auto
termination
  by (relation "measures [\<lambda>(sc, r, n, i, p). length p, \<lambda>(sc, r, n, i, p). n]") auto

declare out_digits.simps [simp del]

text \<open>\<open>None\<close> is \<open>TDS_CONVERT_FAIL\<close>.\<close>

definition tds_numeric_to_string :: "tds_numeric \<Rightarrow> string option" where
  "tds_numeric_to_string numeric =
     (if bad_prec_scale (precision numeric) (scale numeric) then None
      else
        let sgn = (if array numeric ! 0 = 1 then ''-'' else []);
            num_bytes = tds_numeric_bytes_per_prec ! precision numeric;
            pnum = dropWhile ((=) 0) (pack16 (array numeric) (num_bytes - 1) [])
        in if pnum = [] then Some (sgn @ ''0'' @ (if scale numeric \<noteq> 0 then ''.'' @ replicate (scale numeric) CHR ''0'' else []))
           else let p = to_packet10k pnum [];
                    (n, i) = skip_leading (hd p) 1000 (4 * length p)
                in Some (sgn @ (if i \<le> scale numeric then ''0.'' @ replicate (scale numeric - i) CHR ''0'' else []) @
                         out_digits (scale numeric) (hd p) n i (tl p)))"

subsection \<open>Properties of the printing\<close>

text \<open>The magnitude and the legal numbers.\<close>

definition magnitude :: "tds_numeric \<Rightarrow> nat" where
  "magnitude n = bytes_val (take (tds_numeric_bytes_per_prec ! precision n - 1) (drop 1 (array n)))"

definition numeric_ok :: "tds_numeric \<Rightarrow> bool" where
  "numeric_ok n \<longleftrightarrow> \<not> bad_prec_scale (precision n) (scale n) \<and> length (array n) = 33 \<and> array n ! 0 \<in> {0, 1} \<and>
     magnitude n < 10 ^ precision n"

lemma bytes_per_prec:
  assumes "1 \<le> p" "p \<le> 77"
  shows "2 \<le> tds_numeric_bytes_per_prec ! p" "tds_numeric_bytes_per_prec ! p \<le> 33"
    "10 ^ p \<le> (256 :: nat) ^ (tds_numeric_bytes_per_prec ! p - 1)"
proof -
  have "list_all (\<lambda>p. 2 \<le> tds_numeric_bytes_per_prec ! p \<and> tds_numeric_bytes_per_prec ! p \<le> 33 \<and>
      10 ^ p \<le> (256 :: nat) ^ (tds_numeric_bytes_per_prec ! p - 1)) [1..<78]"
    by (simp add: tds_numeric_bytes_per_prec_def upt_rec)
  moreover have "p \<in> set [1..<78]" using assms by simp
  ultimately show "2 \<le> tds_numeric_bytes_per_prec ! p" "tds_numeric_bytes_per_prec ! p \<le> 33"
    "10 ^ p \<le> (256 :: nat) ^ (tds_numeric_bytes_per_prec ! p - 1)"
    unfolding list_all_iff by blast+
qed

lemma bytes_per_prec_mono:
  assumes "p \<le> q" "q \<le> 77" shows "tds_numeric_bytes_per_prec ! p \<le> tds_numeric_bytes_per_prec ! q"
proof -
  have "sorted tds_numeric_bytes_per_prec" by (simp add: tds_numeric_bytes_per_prec_def)
  moreover have "length tds_numeric_bytes_per_prec = 78" by (simp add: tds_numeric_bytes_per_prec_def)
  ultimately show ?thesis using assms by (simp add: sorted_iff_nth_mono)
qed

lemma take_Suc_Suc_drop:
  assumes "n < length xs" "1 < n"
  shows "take n (drop 1 xs) = take (n - 2) (drop 1 xs) @ [xs ! (n - 1), xs ! n]"
proof -
  obtain m where n: "n = Suc (Suc m)" using assms(2) by (metis Suc_lessE less_natE One_nat_def)
  from assms show ?thesis by (simp add: n take_Suc_conv_app_nth)
qed

lemma pack16_val:
  assumes "n < length number" "list_all (\<lambda>w. w < 65536) acc"
  shows "list_all (\<lambda>w. w < 65536) (pack16 number n acc) \<and>
    be_val 65536 (pack16 number n acc) = bytes_val (take n (drop 1 number)) * 65536 ^ length acc + be_val 65536 acc"
  using assms
proof (induction number n acc rule: pack16.induct)
  case (1 number n acc)
  have b: "unat b < 256" for b :: byte by (rule unat_byte_less)
  consider "1 < n" | "n = 1" | "n = 0" by linarith
  then show ?case
  proof cases
    case 1
    have g: "TDS_GET_A2BE x y < 65536" for x y using b [of x] b [of y] by (simp add: TDS_GET_A2BE_def)
    have "bytes_val (take n (drop 1 number)) =
        bytes_val (take (n - 2) (drop 1 number)) * 65536 + TDS_GET_A2BE (number ! (n - 1)) (number ! n)"
      using take_Suc_Suc_drop [OF "1.prems"(1) 1] by (simp add: bytes_val_append TDS_GET_A2BE_val)
    with "1.IH" [OF 1] "1.prems" g 1 show ?thesis
      by (subst (1 2) pack16.simps) (simp add: be_val_Cons algebra_simps)
  next
    case 2
    then have "take n (drop 1 number) = [number ! 1]" using "1.prems" by (simp add: take_Suc_conv_app_nth)
    with 2 "1.prems" b [of "number ! 1"] show ?thesis
      by (subst (1 2) pack16.simps) (simp add: be_val_Cons bytes_val_Cons)
  next
    case 3
    with "1.prems" show ?thesis by (subst (1 2) pack16.simps) simp
  qed
qed

lemma div_mod_times: "n * X = n div 10000 * X * 10000 + n mod 10000 * (X :: nat)"
proof -
  have "n * X = (n div 10000 * 10000 + n mod 10000) * X" by simp
  then show ?thesis by (simp only: add_mult_distrib mult.assoc mult.commute [of 10000])
qed

lemma div_rest_val:
  assumes "r < 10000" "list_all (\<lambda>w. w < 65536) ws" "div_rest r ws = (q, r')"
  shows "r' < 10000 \<and> list_all (\<lambda>w. w < 65536) q \<and> length q = length ws \<and>
    r * 65536 ^ length ws + be_val 65536 ws = be_val 65536 q * 10000 + r'"
  using assms
proof (induction r ws arbitrary: q rule: div_rest.induct)
  case (2 r w ws)
  define n where "n = r * 65536 + w"
  have n: "n < 2 ^ 32" "n div 10000 < 65536"
    using 2(2,3) by (simp_all add: n_def div_less_iff_less_mult)
  obtain q0 where q: "div_rest (n mod 10000) ws = (q0, r')" "q = n div 10000 # q0"
    using 2(4) n by (auto simp: n_def Let_def split: prod.splits)
  have "r' < 10000 \<and> list_all (\<lambda>w. w < 65536) q0 \<and> length q0 = length ws \<and>
      n mod 10000 * 65536 ^ length ws + be_val 65536 ws = be_val 65536 q0 * 10000 + r'"
    using 2(1) [of n] 2(3) n q(1) by (simp add: n_def)
  moreover have "r * 65536 ^ length (w # ws) + be_val 65536 (w # ws) = n * 65536 ^ length ws + be_val 65536 ws"
    by (simp add: be_val_Cons n_def algebra_simps)
  ultimately show ?case
    unfolding q(2) be_val_Cons using n(2) div_mod_times [of n "65536 ^ length ws"] by simp
qed simp

lemma to_packet10k_val:
  assumes "list_all (\<lambda>w. w < 65536) ws" "ws = [] \<or> hd ws \<noteq> 0"
  shows "\<exists>ds. to_packet10k ws p = ds @ p \<and> list_all (\<lambda>d. d < 10000) ds \<and>
    be_val 10000 ds = be_val 65536 ws \<and> (ws = [] \<longrightarrow> ds = []) \<and> (ws \<noteq> [] \<longrightarrow> ds \<noteq> [] \<and> hd ds \<noteq> 0)"
  using assms
proof (induction ws p rule: to_packet10k.induct)
  case (2 n ws p)
  obtain q r where qr: "div_rest (n mod 10000) ws = (q, r)" by fastforce
  let ?ws = "if n div 10000 = 0 then q else n div 10000 # q"
  have d: "r < 10000" "list_all (\<lambda>w. w < 65536) q" "length q = length ws"
      "n mod 10000 * 65536 ^ length ws + be_val 65536 ws = be_val 65536 q * 10000 + r"
    using div_rest_val [of "n mod 10000" ws q r] 2(2) qr by simp_all
  have lead: "?ws = [] \<or> hd ?ws \<noteq> 0"
  proof (cases "n div 10000 = 0 \<and> ws \<noteq> []")
    case True
    then obtain w ws' where ws: "ws = w # ws'" by (auto simp: neq_Nil_conv)
    with 2(2,3) True have b: "0 < n" "n < 10000" "w < 65536" by auto
    then have "hd q = (n * 65536 + w) div 10000" using qr ws by (auto simp: Let_def split: prod.splits)
    moreover have "1 \<le> (n * 65536 + w) div 10000" using b by (simp add: less_eq_div_iff_mult_less_eq)
    ultimately show ?thesis using True by auto
  qed (use d(3) in auto)
  have "list_all (\<lambda>w. w < 65536) ?ws" using 2(2) d(2) by (auto simp: div_less_iff_less_mult)
  from 2(1) [OF qr [symmetric] this lead] obtain ds where
    ds: "to_packet10k ?ws (r # p) = ds @ r # p" "list_all (\<lambda>d. d < 10000) ds" "be_val 10000 ds = be_val 65536 ?ws"
      "?ws = [] \<longrightarrow> ds = []" "?ws \<noteq> [] \<longrightarrow> ds \<noteq> [] \<and> hd ds \<noteq> 0"
    by auto
  have v: "be_val 65536 ?ws = n div 10000 * 65536 ^ length ws + be_val 65536 q" using d(3) by (simp add: be_val_Cons)
  have val: "be_val 10000 (ds @ [r]) = be_val 65536 (n # ws)"
    unfolding be_val_snoc be_val_Cons ds(3) v using d(4) div_mod_times [of n "65536 ^ length ws"] by simp
  have hd: "hd (ds @ [r]) \<noteq> 0"
  proof (cases "?ws = []")
    case True
    then have "ws = []" "n div 10000 = 0" using d(3) by (auto split: if_splits)
    with qr 2(3) have "r \<noteq> 0" by auto
    with True ds(4) show ?thesis by simp
  qed (use ds(5) in auto)
  have "to_packet10k (n # ws) p = (ds @ [r]) @ p" by (simp add: qr ds(1))
  with val hd ds(2) d(1) show ?case by (intro exI [of _ "ds @ [r]"]) simp
qed simp

text \<open>Digits with the dot before the last \<open>sc\<close> of them.\<close>

primrec dotted :: "nat \<Rightarrow> nat \<Rightarrow> nat \<Rightarrow> string" where
  "dotted sc 0 v = []"
| "dotted sc (Suc k) v =
     digit (v div 10 ^ k) # (if k = 0 then [] else (if k = sc then ''.'' else []) @ dotted sc k (v mod 10 ^ k))"

lemma dotted_dec:
  "v < 10 ^ w \<Longrightarrow>
     dotted sc w v = (if 0 < sc \<and> sc < w then dec (w - sc) (v div 10 ^ sc) @ ''.'' @ dec sc v else dec w v)"
proof (induction w arbitrary: v)
  case (Suc w)
  have h: "digit (v div 10 ^ w) # dec w (v mod 10 ^ w) = dec (Suc w) v"
    using dec_Suc_Cons [OF Suc.prems] by simp
  consider "w = 0" | "w \<noteq> 0" "sc = w" | "w \<noteq> 0" "0 < sc" "sc < w" | "w \<noteq> 0" "sc = 0 \<or> w < sc" by linarith
  then show ?case
  proof cases
    case 1
    with Suc.prems show ?thesis by auto
  next
    case 2
    have "v div 10 ^ w < 10" using Suc.prems by (simp add: div_less_iff_less_mult)
    with 2 Suc.IH [of "v mod 10 ^ w"] show ?thesis by simp
  next
    case 3
    define u where "u = v div 10 ^ sc"
    have pw: "(10 :: nat) ^ w = 10 ^ sc * 10 ^ (w - sc)" using 3 by (simp add: power_add [symmetric])
    have "v mod 10 ^ w div 10 ^ sc = u mod 10 ^ (w - sc)" "v div 10 ^ w = u div 10 ^ (w - sc)"
      by (simp_all add: pw u_def mod_mult2_eq div_mult2_eq)
    moreover have "u < 10 ^ Suc (w - sc)"
      using Suc.prems by (simp add: u_def div_less_iff_less_mult pw mult.commute mult.left_commute)
    moreover have "dec sc (v mod 10 ^ w) = dec sc v"
      using dec_mod [of sc "v mod 10 ^ w"] by (simp add: pw mod_mult2_eq)
    ultimately show ?thesis
      using 3 Suc.IH [of "v mod 10 ^ w"] dec_Suc_Cons [of u "w - sc"] by (simp add: u_def [symmetric] Suc_diff_le)
  next
    case 4
    with Suc.IH [of "v mod 10 ^ w"] h show ?thesis by auto
  qed
qed simp

lemma out_digits_dotted:
  assumes "remainder < 10 ^ Suc j" "n = 10 ^ j" "j \<le> 3" "list_all (\<lambda>d. d < 10000) p" "i = Suc (j + 4 * length p)"
  shows "out_digits sc remainder n i p = dotted sc i (remainder * 10000 ^ length p + be_val 10000 p)"
  using assms
proof (induction sc remainder n i p arbitrary: j rule: out_digits.induct)
  case (1 sc r n i p)
  define V where "V = r * 10000 ^ length p + be_val 10000 p"
  have bp: "be_val 10000 p < 10000 ^ length p" using be_val_less 1(6) by blast
  have e: "(10 :: nat) ^ (j + 4 * length p) = 10 ^ j * 10000 ^ length p"
    by (simp add: power_add power_mult)
  have i: "i = Suc (j + 4 * length p)" by (fact 1(7))
  define L where "L = j + 4 * length p"
  define W where "W = r mod n * 10000 ^ length p + be_val 10000 p"
  have "V div 10 ^ L = V div 10000 ^ length p div 10 ^ j"
    by (simp only: L_def e mult.commute [of "10 ^ j"] div_mult2_eq)
  then have "V div 10 ^ L = r div n" using bp 1(4) by (simp add: V_def)
  moreover have "V mod 10 ^ L = W"
    using bp 1(4) by (simp add: L_def W_def e V_def mult.commute [of "10 ^ j"] mod_mult2_eq)
  ultimately have rhs: "dotted sc i V = digit (r div n) # (if L = 0 then [] else (if L = sc then ''.'' else []) @ dotted sc L W)"
    by (simp add: i L_def [symmetric])
  have iL: "i - 1 = L" by (simp add: i L_def)
  show ?case
  proof (cases j)
    case 0
    then have n: "n = 1" "n div 10 = 0" using 1(4) by simp_all
    show ?thesis
    proof (cases p)
      case Nil
      with 0 have "L = 0" by (simp add: L_def)
      then show ?thesis unfolding V_def [symmetric] rhs using n Nil by (subst out_digits.simps) simp
    next
      case (Cons x xs)
      then have "L \<noteq> 0" by (simp add: L_def)
      moreover have "out_digits sc x 1000 L xs = dotted sc L (x * 10000 ^ length xs + be_val 10000 xs)"
        using 1(6,7) 0 Cons by (intro "1.IH"(1) [OF n(2) Cons, of 3, unfolded iL]) (simp_all add: L_def)
      moreover have "W = x * 10000 ^ length xs + be_val 10000 xs"
        using n Cons by (simp add: W_def be_val_Cons)
      ultimately show ?thesis unfolding V_def [symmetric] rhs using n Cons
        by (subst out_digits.simps) (simp add: iL [simplified])
    qed
  next
    case (Suc k)
    then have n: "n div 10 = 10 ^ k" "n div 10 \<noteq> 0" using 1(4) by simp_all
    have "L \<noteq> 0" using Suc by (simp add: L_def)
    moreover have "out_digits sc (r mod n) (n div 10) L p = dotted sc L W"
      unfolding W_def using 1(4-7) Suc n by (intro "1.IH"(2) [of k, unfolded iL]) (simp_all add: L_def)
    ultimately show ?thesis unfolding V_def [symmetric] rhs using n
      by (subst out_digits.simps) (simp add: iL [simplified])
  qed
qed

lemma skip_leading_4:
  assumes "0 < r" "r < 10000" "4 \<le> i"
  shows "\<exists>k \<le> 3. skip_leading r 1000 i = (10 ^ k, i - (3 - k)) \<and> 10 ^ k \<le> r \<and> r < 10 ^ Suc k"
proof -
  have s: "n \<le> r \<Longrightarrow> skip_leading r n i' = (n, i')" "r < n \<Longrightarrow> skip_leading r n i' = skip_leading r (n div 10) (i' - 1)" for n i'
    by (subst skip_leading.simps; simp)+
  consider "1000 \<le> r" | "100 \<le> r" "r < 1000" | "10 \<le> r" "r < 100" | "r < 10" by linarith
  then show ?thesis
  proof cases
    case 1 then show ?thesis using assms by (intro exI [of _ 3]) (simp add: s)
  next
    case 2 then show ?thesis using assms by (intro exI [of _ 2]) (simp add: s)
  next
    case 3
    then have "skip_leading r 1000 i = (10, i - 2)" using assms by (simp add: s)
    with 3 show ?thesis by (intro exI [of _ 1]) simp
  next
    case 4
    then have "skip_leading r 1000 i = (1, i - 3)" using assms by (simp add: s)
    with 4 assms show ?thesis by (intro exI [of _ 0]) simp
  qed
qed

text \<open>The number \<open>v\<close> with \<open>sc\<close> digits after the dot.\<close>

definition decimal :: "nat \<Rightarrow> nat \<Rightarrow> string" where
  "decimal sc v = show_nat (v div 10 ^ sc) @ (if sc = 0 then [] else ''.'' @ dec sc v)"

lemma digit_0 [simp]: "digit 0 = CHR ''0''"
  unfolding digit_def by code_simp

lemma dec_zero [simp]: "dec w 0 = replicate w CHR ''0''"
  by (induction w) (simp_all add: replicate_append_same)

lemma show_nat_0: "show_nat 0 = ''0''"
  by (subst show_nat.simps) simp

lemma decimal_short:
  assumes "i \<le> sc" "0 < i" "v < 10 ^ i"
  shows "decimal sc v = ''0.'' @ replicate (sc - i) CHR ''0'' @ dec i v"
proof -
  have "v < 10 ^ sc" using assms(1,3) by (meson less_le_trans power_increasing one_le_numeral)
  moreover have "dec sc v = replicate (sc - i) CHR ''0'' @ dec i v"
    using dec_append [of "sc - i" i v] assms by simp
  ultimately show ?thesis using assms(1,2) by (simp add: decimal_def show_nat_0)
qed

lemma decimal_long:
  assumes "sc < i" "v < 10 ^ i" "10 ^ (i - 1) \<le> v"
  shows "decimal sc v = dotted sc i v"
proof -
  have p: "(10 :: nat) ^ i = 10 ^ sc * 10 ^ (i - sc)" "(10 :: nat) ^ (i - 1) = 10 ^ sc * 10 ^ (i - sc - 1)"
    using assms(1) by (simp_all add: power_add [symmetric])
  have "show_nat (v div 10 ^ sc) = dec (i - sc) (v div 10 ^ sc)"
    using assms p by (intro show_nat_dec) (simp_all add: div_less_iff_less_mult less_eq_div_iff_mult_less_eq mult.commute)
  with dotted_dec [OF assms(2), of sc] assms(1) show ?thesis by (simp add: decimal_def)
qed

lemma packet10k_digits:
  assumes "list_all (\<lambda>d. d < 10000) ds" "ds \<noteq> []" "hd ds \<noteq> 0" "skip_leading (hd ds) 1000 (4 * length ds) = (n, i)"
  shows "out_digits sc (hd ds) n i (tl ds) = dotted sc i (be_val 10000 ds)"
    "10 ^ (i - 1) \<le> be_val 10000 ds" "be_val 10000 ds < 10 ^ i" "0 < i"
proof -
  obtain d rest where ds: "ds = d # rest" using assms(2) by (cases ds) auto
  obtain k where k: "k \<le> 3" "n = 10 ^ k" "i = 4 * length ds - (3 - k)" "10 ^ k \<le> d" "d < 10 ^ Suc k"
    using skip_leading_4 [of d "4 * length ds"] assms ds by auto
  have i: "i = Suc (k + 4 * length rest)" using k(1,3) by (simp add: ds)
  show "out_digits sc (hd ds) n i (tl ds) = dotted sc i (be_val 10000 ds)"
    unfolding ds list.sel be_val_Cons using k i assms(1) by (intro out_digits_dotted [of d k]) (simp_all add: ds)
  have e: "(10 :: nat) ^ (k + 4 * length rest) = 10 ^ k * 10000 ^ length rest" by (simp add: power_add power_mult)
  show "10 ^ (i - 1) \<le> be_val 10000 ds"
    using k(4) by (simp add: i e ds be_val_Cons trans_le_add1)
  have "be_val 10000 ds < (d + 1) * 10000 ^ length rest"
    using be_val_less [of 10000 rest] assms(1) by (simp add: ds be_val_Cons)
  also have "\<dots> \<le> 10 ^ Suc k * 10000 ^ length rest" using k(5) by (intro mult_le_mono1) simp
  finally show "be_val 10000 ds < 10 ^ i" by (simp add: i e)
  show "0 < i" by (simp add: i)
qed

lemma to_string_decimal:
  assumes "\<not> bad_prec_scale (precision n) (scale n)" "length (array n) = 33"
  shows "tds_numeric_to_string n =
    Some ((if array n ! 0 = 1 then ''-'' else []) @ decimal (scale n) (magnitude n))"
proof -
  define ws where "ws = pack16 (array n) (tds_numeric_bytes_per_prec ! precision n - 1) []"
  have "tds_numeric_bytes_per_prec ! precision n - 1 < length (array n)"
    using bytes_per_prec(1,2) [of "precision n"] assms by (simp add: bad_prec_scale_def MAXPRECISION_def)
  from pack16_val [OF this, of "[]"]
  have ws: "list_all (\<lambda>w. w < 65536) ws" "be_val 65536 ws = magnitude n"
    by (simp_all add: ws_def magnitude_def)
  define pn where "pn = dropWhile ((=) 0) ws"
  have pn: "list_all (\<lambda>w. w < 65536) pn" "be_val 65536 pn = magnitude n"
    using ws by (auto simp: pn_def be_val_dropWhile_zero list_all_iff dest: set_dropWhileD)
  have pn0: "pn = [] \<or> hd pn \<noteq> 0" using hd_dropWhile [of "(=) 0" ws] unfolding pn_def by metis
  show ?thesis
  proof (cases "pn = []")
    case True
    then have "magnitude n = 0" using pn(2) by simp
    with True assms(1) show ?thesis
      unfolding tds_numeric_to_string_def Let_def ws_def [symmetric] pn_def [symmetric]
      by (simp add: decimal_def show_nat_0)
  next
    case False
    obtain ds where ds: "to_packet10k pn [] = ds" "list_all (\<lambda>d. d < 10000) ds" "be_val 10000 ds = magnitude n"
      "ds \<noteq> []" "hd ds \<noteq> 0"
      using to_packet10k_val [OF pn(1) pn0, of "[]"] False pn(2) by auto
    obtain m i where mi: "skip_leading (hd ds) 1000 (4 * length ds) = (m, i)" by fastforce
    note out = packet10k_digits(1) [OF ds(2,4,5) mi, of "scale n", unfolded ds(3)]
      packet10k_digits(2-4) [OF ds(2,4,5) mi, unfolded ds(3)]
    have "(if i \<le> scale n then ''0.'' @ replicate (scale n - i) CHR ''0'' else []) @ out_digits (scale n) (hd ds) m i (tl ds) =
        decimal (scale n) (magnitude n)"
      using out dotted_dec [OF out(3), of "scale n"] decimal_short [of i "scale n"] decimal_long [of "scale n" i]
      by (cases "i \<le> scale n") auto
    with False assms(1) mi ds(1) show ?thesis
      unfolding tds_numeric_to_string_def Let_def ws_def [symmetric] pn_def [symmetric] by simp
  qed
qed

lemma show_nat_length: "m < 10 ^ k \<Longrightarrow> length (show_nat m) \<le> max 1 k"
proof (induction m arbitrary: k rule: show_nat.induct)
  case (1 m)
  show ?case
  proof (cases "m < 10")
    case True
    then show ?thesis by (subst show_nat.simps) simp
  next
    case False
    then obtain j where k: "k = Suc j" using 1(2) by (cases k) auto
    then have "m div 10 < 10 ^ j" using 1(2) by (simp add: div_less_iff_less_mult mult.commute)
    with 1(1) [OF False] have "length (show_nat (m div 10)) \<le> max 1 j" by blast
    moreover have "1 \<le> j" using \<open>m div 10 < 10 ^ j\<close> False by (cases j) auto
    ultimately show ?thesis using False k by (subst show_nat.simps) simp
  qed
qed

lemma length_decimal:
  assumes "v < 10 ^ p" "sc \<le> p" shows "length (decimal sc v) \<le> max 1 (p - sc) + (if sc = 0 then 0 else 1 + sc)"
proof -
  have "(10 :: nat) ^ p = 10 ^ (p - sc) * 10 ^ sc" using assms(2) by (simp add: power_add [symmetric])
  then have "v div 10 ^ sc < 10 ^ (p - sc)" using assms(1) by (simp add: div_less_iff_less_mult)
  from show_nat_length [OF this] show ?thesis by (cases "sc = 0") (simp_all add: decimal_def)
qed

subsection \<open>Printing: properties\<close>

text \<open>The number -123.45 with precision 5 and scale 2.\<close>

definition demo_numeric :: tds_numeric where
  "demo_numeric = \<lparr> precision = 5, scale = 2, array = [1, 0, 0x30, 0x39] @ replicate 29 0 \<rparr>"

lemma demo_numeric_ok: "numeric_ok demo_numeric" "magnitude demo_numeric = 12345"
  by (simp_all add: numeric_ok_def demo_numeric_def bad_prec_scale_def MAXPRECISION_def magnitude_def
      tds_numeric_bytes_per_prec_def bytes_val_Cons)

text \<open>C14: \<open>tds_numeric_to_string\<close> prints the decimal representation: a sign, the digits of the integral part without
  leading zeroes, and after a dot exactly as many decimals as the scale says. The change of base
  from 65536 to 10000 and the placing of the dot are exact for every precision.\<close>

theorem tds_numeric_to_string_decimal:
  assumes "\<not> bad_prec_scale (precision n) (scale n)" "length (array n) = 33"
  shows "tds_numeric_to_string n =
    Some ((if array n ! 0 = 1 then ''-'' else []) @ show_nat (magnitude n div 10 ^ scale n) @
      (if scale n = 0 then [] else ''.'' @ dec (scale n) (magnitude n)))"
  using to_string_decimal [OF assms] by (simp add: decimal_def)

theorem tds_numeric_to_string_decimal_witness: "tds_numeric_to_string demo_numeric = Some ''-123.45''"
proof -
  have "tds_numeric_to_string demo_numeric = Some (''-'' @ show_nat 123 @ ''.'' @ dec 2 12345)"
    using tds_numeric_to_string_decimal [of demo_numeric] demo_numeric_ok
    by (simp add: numeric_ok_def) (simp add: demo_numeric_def)
  moreover have "show_nat 123 = ''123''" "dec 2 12345 = ''45''"
  proof -
    have "digit 4 = CHR ''4''" "digit 5 = CHR ''5''" by code_simp+
    then have "dec (Suc (Suc 0)) 12345 = ''45''" by simp
    then show "dec 2 12345 = ''45''" by (simp only: numeral_2_eq_2)
  qed code_simp
  ultimately show ?thesis by simp
qed

definition longest_numeric :: tds_numeric where
  "longest_numeric = \<lparr> precision = 77, scale = 77, array = 1 # replicate 31 0 @ [1] \<rparr>"

lemma longest_numeric_ok: "numeric_ok longest_numeric" "magnitude longest_numeric = 1"
  by (simp_all add: numeric_ok_def longest_numeric_def bad_prec_scale_def MAXPRECISION_def magnitude_def
      tds_numeric_bytes_per_prec_def bytes_val_Cons)

text \<open>C37: the string of a legal number has at most 80 characters, and 80 is reached: a buffer needs 81 bytes with the
  terminator.\<close>

theorem tds_numeric_to_string_length:
  "(\<forall>n s. numeric_ok n \<and> tds_numeric_to_string n = Some s \<longrightarrow> length s \<le> MAXPRECISION + 3) \<and>
   (\<exists>n s. numeric_ok n \<and> tds_numeric_to_string n = Some s \<and> length s = MAXPRECISION + 3)"
proof (intro conjI allI impI)
  fix n s assume a: "numeric_ok n \<and> tds_numeric_to_string n = Some s"
  then have "s = (if array n ! 0 = 1 then ''-'' else []) @ decimal (scale n) (magnitude n)"
    using to_string_decimal [of n] by (simp add: numeric_ok_def)
  moreover have "magnitude n < 10 ^ precision n" "scale n \<le> precision n" "precision n \<le> MAXPRECISION"
    using a by (simp_all add: numeric_ok_def bad_prec_scale_def)
  ultimately show "length s \<le> MAXPRECISION + 3"
    using length_decimal [of "magnitude n" "precision n" "scale n"] by (auto split: if_splits)
next
  show "\<exists>n s. numeric_ok n \<and> tds_numeric_to_string n = Some s \<and> length s = MAXPRECISION + 3"
    using to_string_decimal [of longest_numeric] longest_numeric_ok
    by (intro exI [of _ longest_numeric] exI [of _ "''-'' @ decimal 77 1"])
       (simp add: numeric_ok_def, simp add: longest_numeric_def decimal_def show_nat_0 MAXPRECISION_def)
qed

theorem tds_numeric_to_string_length_witness: "\<exists>s. tds_numeric_to_string demo_numeric = Some s \<and> length s \<le> 80"
proof -
  obtain s where "tds_numeric_to_string demo_numeric = Some s"
    using to_string_decimal [of demo_numeric] demo_numeric_ok(1) by (auto simp: numeric_ok_def)
  with tds_numeric_to_string_length demo_numeric_ok(1) show ?thesis by (auto simp: MAXPRECISION_def)
qed

end
