(* ===== verification/Rescale.thy ===== *)
theory Rescale
  imports Numeric
begin

text \<open>
  Changing the precision and the scale of a number: \<open>tds_numeric_change_prec_scale\<close> and
  \<open>tds_packet_check_overflow\<close> of \<open>src/tds/numeric.c\<close>, in the build that has 128-bit products
  (\<open>USE_128_MULTIPLY\<close>); the quotient of the build with 64-bit products is \<open>quotient_64\<close>.

  \<open>packet\<close> is the list of its first \<open>packet_len\<close> words, least significant first; the C array has room for
  \<open>PACKET_WORDS\<close> of them.
\<close>

abbreviation W32 :: nat where
  "W32 \<equiv> 4294967296"

definition PACKET_WORDS :: nat where
  "PACKET_WORDS = 8"

subsection \<open>Overflow check\<close>

text \<open>The generated tables. The words of \<open>10 ^ prec\<close> from the highest one down to the last that is not zero
  start at \<open>limit_indexes[prec] + LIMIT_INDEXES_ADJUST * prec\<close> in \<open>limits\<close>.\<close>

record num_limits =
  limits :: "nat list"
  limit_indexes :: "int list"
  limit_indexes_adjust :: int

definition limit_at :: "num_limits \<Rightarrow> nat \<Rightarrow> nat list" where
  "limit_at L prec = drop (nat (limit_indexes L ! prec + limit_indexes_adjust L * int prec)) (limits L)"

definition limit_len :: "num_limits \<Rightarrow> nat \<Rightarrow> nat" where
  "limit_len L prec = nat (limit_indexes L ! (prec + 1) - limit_indexes L ! prec + limit_indexes_adjust L)"

fun test_limit :: "nat list \<Rightarrow> nat list \<Rightarrow> nat \<Rightarrow> nat \<Rightarrow> bool" where
  "test_limit packet limit i stop =
     (if i \<le> stop then hd limit \<le> packet ! i
      else if hd limit < packet ! i then True
      else if packet ! i < hd limit then False
      else test_limit packet (tl limit) (i - 1) stop)"

declare test_limit.simps [simp del]

definition tds_packet_check_overflow :: "num_limits \<Rightarrow> nat list \<Rightarrow> nat \<Rightarrow> bool" where
  "tds_packet_check_overflow L packet prec =
     (let len = limit_len L prec;
          stop = prec div 32
      in if len + stop \<le> length packet
         then list_ex (\<lambda>w. 0 < w) (drop (len + stop) packet) \<or> test_limit packet (limit_at L prec) (len + stop - 1) stop
         else False)"

definition limits_ok :: "num_limits \<Rightarrow> bool" where
  "limits_ok L \<longleftrightarrow>
     list_all (\<lambda>w. w < W32) (limits L) \<and>
     (\<forall>p \<le> 77. 0 < limit_len L p \<and> limit_len L p \<le> length (limit_at L p) \<and> hd (limit_at L p) \<noteq> 0 \<and>
        be_val W32 (take (limit_len L p) (limit_at L p)) * W32 ^ (p div 32) = 10 ^ p)"

subsection \<open>Multiplication and division by a power of ten\<close>

definition factors :: "nat list" where
  "factors = [1, 10, 100, 1000, 10000, 100000, 1000000, 10000000, 100000000, 1000000000]"

definition reverse_dividers :: "nat list" where
  "reverse_dividers =
     [1, 1844674407370955162, 184467440737095517, 18446744073709552, 1844674407370956, 737869762948383,
      2361183241434823, 15111572745182865, 48357032784585167, 1237940039285380275]"

definition reverse_dividers_shift :: "nat list" where
  "reverse_dividers_shift = [0, 0, 0, 0, 0, 2, 7, 13, 18, 26]"

definition TDS_WORD_DDIGIT :: nat where
  "TDS_WORD_DDIGIT = 9"

fun mul_pass :: "nat \<Rightarrow> nat \<Rightarrow> nat list \<Rightarrow> nat list" where
  "mul_pass factor carry [] = (if carry \<noteq> 0 then [carry] else [])"
| "mul_pass factor carry (w # ws) =
     (let n = (w * factor + carry) mod 2 ^ 64
      in n mod 2 ^ 32 # mul_pass factor (n div 2 ^ 32) ws)"

function multiply :: "nat \<Rightarrow> nat list \<Rightarrow> nat list" where
  "multiply scale_diff packet =
     (let n = min scale_diff TDS_WORD_DDIGIT;
          packet = mul_pass (factors ! n) 0 packet
      in if 0 < scale_diff - n then multiply (scale_diff - n) packet else packet)"
  by pat_completeness auto
termination
  by (relation "measure fst") (auto simp: TDS_WORD_DDIGIT_def)

declare multiply.simps [simp del]

definition umulh :: "nat \<Rightarrow> nat \<Rightarrow> nat" where
  "umulh multiplier multiplicand = multiplier * multiplicand div 2 ^ 64"

text \<open>The quotient from 64-bit products.\<close>

definition quotient_64 :: "nat \<Rightarrow> nat \<Rightarrow> nat \<Rightarrow> nat" where
  "quotient_64 borrow word reverse_divider =
     (let low = reverse_divider mod 2 ^ 32;
          high = reverse_divider div 2 ^ 32 mod 2 ^ 32;
          mul1 = word * low mod 2 ^ 64;
          mul2 = (borrow * low + mul1 div 2 ^ 32) mod 2 ^ 64;
          mul3 = word * high mod 2 ^ 64;
          quotient = (borrow * high + mul3 div 2 ^ 32) mod 2 ^ 64
      in (quotient + (mul2 + mul3 mod 2 ^ 32) mod 2 ^ 64 div 2 ^ 32) mod 2 ^ 64)"

text \<open>The division runs from the highest word to the lowest; the result is the quotient and the last borrow.\<close>

fun div_pass :: "nat \<Rightarrow> nat list \<Rightarrow> nat list \<times> nat" where
  "div_pass k [] = ([], 0)"
| "div_pass k (w # ws) =
     (let (q, borrow) = div_pass k ws;
          n = (borrow * 2 ^ 32 + w) mod 2 ^ 64;
          quotient = umulh n (reverse_dividers ! k) div 2 ^ (reverse_dividers_shift ! k)
      in (quotient mod 2 ^ 32 # q, nat ((int n - int quotient * int (factors ! k)) mod 2 ^ 32)))"

function divide :: "nat \<Rightarrow> nat list \<Rightarrow> nat list" where
  "divide scale_diff packet =
     (let n = min scale_diff TDS_WORD_DDIGIT;
          packet = fst (div_pass n packet)
      in if 0 < scale_diff - n then divide (scale_diff - n) packet else packet)"
  by pat_completeness auto
termination
  by (relation "measure fst") (auto simp: TDS_WORD_DDIGIT_def)

declare divide.simps [simp del]

subsection \<open>Packing and unpacking\<close>

text \<open>\<open>mem\<close> is the whole structure: the two bytes in front of \<open>array\<close> are read when fewer than four bytes are
  left, and masked out again.\<close>

fun pack32 :: "byte list \<Rightarrow> nat \<Rightarrow> nat list" where
  "pack32 mem bytes =
     (let w = TDS_GET_A4BE (mem ! (bytes - 1)) (mem ! bytes) (mem ! (bytes + 1)) (mem ! (bytes + 2))
      in if 4 < bytes then w # pack32 mem (bytes - 4) else [w mod 2 ^ (8 * bytes)])"

declare pack32.simps [simp del]

definition numeric_mem :: "tds_numeric \<Rightarrow> byte list" where
  "numeric_mem n = [u8_of (precision n), u8_of (scale n)] @ array n"

text \<open>The words up to \<open>bytes / 4\<close> that are not part of the number are cleared. The list is longer than
  \<open>PACKET_WORDS\<close> when the code clears a word behind the array.\<close>

definition clear_rest :: "nat \<Rightarrow> nat list \<Rightarrow> nat list" where
  "clear_rest bytes packet = packet @ replicate (bytes div 4 + 1 - length packet) 0"

fun put_rest :: "byte list \<Rightarrow> nat \<Rightarrow> nat \<Rightarrow> byte list" where
  "put_rest arr 0 remainder = arr"
| "put_rest arr (Suc bytes) remainder = put_rest (arr [Suc bytes := u8_of remainder]) bytes (remainder div 2 ^ 8)"

fun put_words :: "byte list \<Rightarrow> nat \<Rightarrow> nat list \<Rightarrow> byte list" where
  "put_words arr bytes [] = arr"
| "put_words arr bytes (w # ws) =
     (if 4 \<le> bytes then put_words (write_at arr (bytes - 3) (TDS_PUT_A4BE w)) (bytes - 4) ws
      else put_rest arr bytes w)"

text \<open>\<open>memmove\<close> inside the array, with the bytes in front cleared.\<close>

definition widen :: "nat \<Rightarrow> byte list \<Rightarrow> byte list" where
  "widen i arr =
     (if 0 < i then write_at (write_at arr (1 + i) (take (32 - i) (drop 1 arr))) 1 (replicate i 0) else arr)"

definition narrow :: "nat \<Rightarrow> byte list \<Rightarrow> byte list" where
  "narrow i arr = (if 0 < i then write_at arr 1 (take (32 - i) (drop (1 + i) arr)) else arr)"

definition packed :: "tds_numeric \<Rightarrow> nat list" where
  "packed numeric =
     strip_high (pack32 (numeric_mem numeric) (tds_numeric_bytes_per_prec ! precision numeric - 1))"

text \<open>The end of the function: back to the byte format.\<close>

definition repack :: "tds_numeric \<Rightarrow> nat \<Rightarrow> nat \<Rightarrow> nat list \<Rightarrow> tds_numeric" where
  "repack numeric new_prec new_scale packet =
     (let bytes = tds_numeric_bytes_per_prec ! new_prec - 1
      in numeric \<lparr> precision := new_prec, scale := new_scale,
                   array := put_words (array numeric) bytes (clear_rest bytes packet) \<rparr>)"

definition tds_numeric_change_prec_scale ::
    "num_limits \<Rightarrow> tds_numeric \<Rightarrow> nat \<Rightarrow> nat \<Rightarrow> conv_error + tds_numeric" where
  "tds_numeric_change_prec_scale L numeric new_prec new_scale =
     (let prec = precision numeric; sc = scale numeric;
          old_bytes = tds_numeric_bytes_per_prec ! prec; new_bytes = tds_numeric_bytes_per_prec ! new_prec;
          packet = packed numeric
      in if bad_prec_scale prec sc then Inl TDS_CONVERT_FAIL
         else if bad_prec_scale new_prec new_scale then Inl TDS_CONVERT_FAIL
         else if new_scale = sc \<and> prec \<le> new_prec
         then Inr (numeric \<lparr> array := widen (new_bytes - old_bytes) (array numeric), precision := new_prec \<rparr>)
         else if sc \<le> new_scale
         then if tds_packet_check_overflow L packet (new_prec - (new_scale - sc)) then Inl TDS_CONVERT_OVERFLOW
              else if new_scale = sc
              then Inr (numeric \<lparr> array := narrow (old_bytes - new_bytes) (array numeric), precision := new_prec \<rparr>)
              else Inr (repack numeric new_prec new_scale (multiply (new_scale - sc) packet))
         else if new_prec + (sc - new_scale) < prec \<and> tds_packet_check_overflow L packet (new_prec + (sc - new_scale))
         then Inl TDS_CONVERT_OVERFLOW
         else Inr (repack numeric new_prec new_scale (divide (sc - new_scale) packet)))"

subsection \<open>The overflow check compares with a power of ten\<close>

abbreviation words :: "nat list \<Rightarrow> bool" where
  "words \<equiv> list_all (\<lambda>w. w < W32)"

lemma words_take_drop: "words xs \<Longrightarrow> words (take n xs)" "words xs \<Longrightarrow> words (drop n xs)"
  by (auto simp: list_all_iff dest: in_set_takeD in_set_dropD)

lemma less_digit:
  assumes "(a :: nat) < c" "b < B" shows "b + B * a < d + B * c"
proof -
  have "b + B * a < B * Suc a" using assms(2) by simp
  also have "\<dots> \<le> B * c" using assms(1) by (intro mult_le_mono2) simp
  finally show ?thesis by simp
qed

lemma test_limit_compares:
  assumes "words packet" "words limit" "m < length limit" "stop + m < length packet"
  shows "test_limit packet limit (stop + m) stop \<longleftrightarrow>
    be_val W32 (take (Suc m) limit) \<le> le_val W32 (take (Suc m) (drop stop packet))"
  using assms(2-4)
proof (induction m arbitrary: limit)
  case 0
  then obtain l ls where l: "limit = l # ls" by (cases limit) auto
  have "take (Suc 0) (drop stop packet) = [packet ! stop]" using 0 by (simp add: take_Suc_conv_app_nth)
  with l show ?case by (subst test_limit.simps) (simp add: be_val_Cons)
next
  case (Suc m)
  then obtain l ls where l: "limit = l # ls" by (cases limit) auto
  define x where "x = packet ! (stop + Suc m)"
  define a where "a = le_val W32 (take (Suc m) (drop stop packet))"
  define b where "b = be_val W32 (take (Suc m) ls)"
  have p: "le_val W32 (take (Suc (Suc m)) (drop stop packet)) = a + W32 ^ Suc m * x"
    using Suc.prems by (simp add: take_Suc_conv_app_nth [of "Suc m"] le_val_append a_def x_def)
  have q: "be_val W32 (take (Suc (Suc m)) limit) = b + W32 ^ Suc m * l"
    using Suc.prems by (simp add: l be_val_Cons b_def min_absorb2 mult.commute)
  have len: "length (take (Suc m) (drop stop packet)) = Suc m" "length (take (Suc m) ls) = Suc m"
    using Suc.prems by (simp_all add: l)
  have a: "a < W32 ^ Suc m" unfolding a_def
    using le_val_less [OF words_take_drop(1) [OF words_take_drop(2) [OF assms(1)]], of "Suc m" stop] len(1) by metis
  have b: "b < W32 ^ Suc m" unfolding b_def
    using be_val_less [OF words_take_drop(1), of ls "Suc m"] Suc.prems(1) len(2) by (simp add: l)
  have "test_limit packet limit (stop + Suc m) stop \<longleftrightarrow> (l < x \<or> l = x \<and> b \<le> a)"
    using Suc.IH [of ls] Suc.prems by (subst test_limit.simps) (auto simp: l x_def a_def b_def)
  also have "\<dots> \<longleftrightarrow> b + W32 ^ Suc m * l \<le> a + W32 ^ Suc m * x"
    using less_digit [of l x b "W32 ^ Suc m" a] less_digit [of x l a "W32 ^ Suc m" b] a b
    by (cases l x rule: linorder_cases) auto
  finally show ?case unfolding p q .
qed

lemma check_overflow_iff:
  assumes ok: "limits_ok L" and p: "prec \<le> 77" and w: "words packet"
  shows "tds_packet_check_overflow L packet prec \<longleftrightarrow> 10 ^ prec \<le> le_val W32 packet"
proof -
  define len where "len = limit_len L prec"
  define stop where "stop = prec div 32"
  define ls where "ls = take len (limit_at L prec)"
  have wl: "words (limit_at L prec)"
    using ok unfolding limits_ok_def limit_at_def by (blast intro: words_take_drop)
  have l: "0 < len" "len \<le> length (limit_at L prec)" "hd (limit_at L prec) \<noteq> 0" "words ls"
    "be_val W32 ls * W32 ^ stop = 10 ^ prec"
    using ok p words_take_drop(1) [OF wl] by (simp_all add: limits_ok_def len_def stop_def ls_def)
  have lsl: "length ls = len" using l(2) by (simp add: ls_def)
  then obtain x xs where x: "ls = x # xs" "x \<noteq> 0" "length xs = len - 1"
    using l(1,3) by (cases "limit_at L prec"; cases len) (auto simp: ls_def)
  have "W32 ^ (len - 1) \<le> be_val W32 ls" using be_val_ge [OF x(2), of W32 xs] by (simp add: x)
  then have "W32 ^ (len - 1) * W32 ^ stop \<le> 10 ^ prec" unfolding l(5) [symmetric] by (rule mult_le_mono1)
  then have low: "W32 ^ (len + stop - 1) \<le> 10 ^ prec"
    using l(1) by (simp add: power_add [symmetric])
  have "be_val W32 ls < W32 ^ len" using be_val_less [OF l(4)] lsl by simp
  then have "be_val W32 ls * W32 ^ stop < W32 ^ len * W32 ^ stop" by simp
  then have high: "10 ^ prec < W32 ^ (len + stop)" unfolding l(5) by (simp add: power_add)
  show ?thesis
  proof (cases "len + stop \<le> length packet")
    case False
    then have "W32 ^ length packet \<le> W32 ^ (len + stop - 1)" by (intro power_increasing) auto
    with le_val_less [OF w] low have "le_val W32 packet < 10 ^ prec" by linarith
    with False show ?thesis by (simp add: tds_packet_check_overflow_def Let_def len_def stop_def)
  next
    case True
    define a where "a = take stop packet"
    define b where "b = take len (drop stop packet)"
    define c where "c = drop (len + stop) packet"
    have packet: "packet = a @ b @ c"
      unfolding a_def b_def c_def by (metis add.commute append_take_drop_id drop_drop)
    have lens: "length a = stop" "length b = len" using True by (simp_all add: a_def b_def)
    have v: "le_val W32 packet = le_val W32 a + W32 ^ stop * (le_val W32 b + W32 ^ len * le_val W32 c)"
      by (subst packet) (simp add: le_val_append lens)
    have al: "le_val W32 a < W32 ^ stop" using le_val_less [of W32 a] w lens(1) by (simp add: a_def words_take_drop)
    have eq: "tds_packet_check_overflow L packet prec \<longleftrightarrow>
        list_ex (\<lambda>w. 0 < w) c \<or> test_limit packet (limit_at L prec) (stop + (len - 1)) stop"
      using True l(1) by (simp add: tds_packet_check_overflow_def Let_def len_def [symmetric] stop_def [symmetric] c_def add.commute)
    have tl: "test_limit packet (limit_at L prec) (stop + (len - 1)) stop \<longleftrightarrow> be_val W32 ls \<le> le_val W32 b"
      using test_limit_compares [OF w wl, of "len - 1" stop] l(1,2) True by (simp add: ls_def b_def)
    show ?thesis
    proof (cases "le_val W32 c = 0")
      case False
      have "list_ex (\<lambda>w. 0 < w) c" using False by (induction c) auto
      moreover have "W32 ^ (len + stop) \<le> le_val W32 packet"
      proof -
        have "W32 ^ (len + stop) = W32 ^ stop * (W32 ^ len * 1)" by (simp add: power_add)
        also have "\<dots> \<le> W32 ^ stop * (W32 ^ len * le_val W32 c)" using False by (intro mult_le_mono2) simp
        also have "\<dots> \<le> le_val W32 packet" unfolding v by (simp add: add_mult_distrib2)
        finally show ?thesis .
      qed
      ultimately show ?thesis using eq high by auto
    next
      case True
      then have "\<not> list_ex (\<lambda>w. 0 < w) c" by (induction c) auto
      moreover have "be_val W32 ls \<le> le_val W32 b \<longleftrightarrow> W32 ^ stop * be_val W32 ls \<le> le_val W32 a + W32 ^ stop * le_val W32 b"
        using less_digit [OF _ al, of "le_val W32 b" "be_val W32 ls" 0]
        by (cases "be_val W32 ls \<le> le_val W32 b") (auto intro: trans_le_add2 simp: not_le)
      ultimately show ?thesis using eq tl l(5) True by (simp add: v mult.commute)
    qed
  qed
qed

subsection \<open>The passes multiply and divide\<close>

lemma factors_nth: "k \<le> 9 \<Longrightarrow> factors ! k = 10 ^ k"
proof -
  assume "k \<le> 9"
  then have "k \<in> set [0..<10]" by simp
  moreover have "list_all (\<lambda>k. factors ! k = 10 ^ k) [0..<10]" by (simp add: factors_def upt_rec)
  ultimately show ?thesis by (simp only: list_all_iff)
qed

lemma mul_pass_val:
  assumes "words ws" "factor < W32" "carry < W32"
  shows "words (mul_pass factor carry ws) \<and> le_val W32 (mul_pass factor carry ws) = factor * le_val W32 ws + carry"
  using assms
proof (induction factor carry ws rule: mul_pass.induct)
  case (2 factor carry w ws)
  define n where "n = w * factor + carry"
  have "w * factor \<le> (W32 - 1) * (W32 - 1)" using 2(2,3) by (intro mult_le_mono) simp_all
  then have n: "n < 2 ^ 64" using 2(4) by (simp add: n_def)
  have "n div W32 < W32" using n by (simp add: div_less_iff_less_mult)
  with 2(1) [of n] 2(2,3) n have IH: "words (mul_pass factor (n div W32) ws)"
      "le_val W32 (mul_pass factor (n div W32) ws) = factor * le_val W32 ws + n div W32"
    by (simp_all add: n_def)
  have m: "mul_pass factor carry (w # ws) = n mod W32 # mul_pass factor (n div W32) ws"
    using n by (simp add: n_def Let_def)
  have "n mod W32 + W32 * (n div W32) = n" by simp
  then show ?case unfolding m using IH by (simp add: n_def algebra_simps)
qed simp

lemma mul_pass_normal:
  assumes "words ws" "0 < factor" "factor < W32" "carry < W32" "ws \<noteq> []" "last ws \<noteq> 0"
  shows "mul_pass factor carry ws \<noteq> [] \<and> last (mul_pass factor carry ws) \<noteq> 0"
  using assms
proof (induction factor carry ws rule: mul_pass.induct)
  case (2 factor carry w ws)
  define n where "n = w * factor + carry"
  have "w * factor \<le> (W32 - 1) * (W32 - 1)" using 2(2,4) by (intro mult_le_mono) simp_all
  then have n: "n < 2 ^ 64" using 2(5) by (simp add: n_def)
  have d: "n div W32 < W32" using n by (simp add: div_less_iff_less_mult)
  have m: "mul_pass factor carry (w # ws) = n mod W32 # mul_pass factor (n div W32) ws"
    using n by (simp add: n_def Let_def)
  show ?case
  proof (cases ws)
    case Nil
    then have "n \<noteq> 0" using 2(3,7) by (simp add: n_def)
    then show ?thesis unfolding m using Nil by (auto simp: div_eq_0_iff)
  next
    case (Cons x xs)
    with 2(1) [of n] 2(2-7) n d have "mul_pass factor (n div W32) ws \<noteq> [] \<and> last (mul_pass factor (n div W32) ws) \<noteq> 0"
      by (simp add: n_def)
    then show ?thesis unfolding m by simp
  qed
qed simp

text \<open>A number is normalised when its highest word is not zero, unless it has one word only.\<close>

definition normal :: "nat list \<Rightarrow> bool" where
  "normal ws \<longleftrightarrow> words ws \<and> ws \<noteq> [] \<and> (length ws = 1 \<or> last ws \<noteq> 0)"

lemma mul_pass_zero: "mul_pass factor 0 [0] = [0]"
  by simp

lemma mul_pass_ok:
  assumes "normal ws" "k \<le> 9"
  shows "normal (mul_pass (factors ! k) 0 ws)" "le_val W32 (mul_pass (factors ! k) 0 ws) = 10 ^ k * le_val W32 ws"
proof -
  have f: "factors ! k = 10 ^ k" using assms(2) by (rule factors_nth)
  have "(10 :: nat) ^ k \<le> 10 ^ 9" using assms(2) by (intro power_increasing) simp_all
  then have b: "0 < factors ! k" "factors ! k < W32" unfolding f by simp_all
  have w: "words ws" "ws \<noteq> []" using assms(1) by (simp_all add: normal_def)
  have v: "words (mul_pass (factors ! k) 0 ws)" "le_val W32 (mul_pass (factors ! k) 0 ws) = factors ! k * le_val W32 ws"
    using mul_pass_val [OF w(1) b(2), of 0] by simp_all
  then show "le_val W32 (mul_pass (factors ! k) 0 ws) = 10 ^ k * le_val W32 ws" by (simp only: f)
  show "normal (mul_pass (factors ! k) 0 ws)"
  proof (cases "last ws = 0")
    case True
    with assms(1) have "ws = [0]" by (cases ws) (auto simp: normal_def)
    then show ?thesis by (simp add: normal_def)
  next
    case False
    from mul_pass_normal [OF w(1) b _ w(2) this, of 0] v(1) show ?thesis by (simp add: normal_def)
  qed
qed

lemma multiply_ok:
  "normal ws \<Longrightarrow> normal (multiply d ws) \<and> le_val W32 (multiply d ws) = 10 ^ d * le_val W32 ws"
proof (induction d ws rule: multiply.induct)
  case (1 d ws)
  define n where "n = min d TDS_WORD_DDIGIT"
  have n: "n \<le> 9" "n \<le> d" by (simp_all add: n_def TDS_WORD_DDIGIT_def)
  note m = mul_pass_ok [OF 1(2) n(1)]
  have u: "multiply d ws = (if 0 < d - n then multiply (d - n) (mul_pass (factors ! n) 0 ws) else mul_pass (factors ! n) 0 ws)"
    by (subst multiply.simps) (simp add: Let_def n_def)
  show ?case
  proof (cases "0 < d - n")
    case True
    have "(10 :: nat) ^ d = 10 ^ (d - n) * 10 ^ n" using n(2) by (simp add: power_add [symmetric])
    with 1(1) [OF n_def refl True m(1)] m(2) True show ?thesis by (simp add: u)
  next
    case False
    with n(2) m show ?thesis by (simp add: u)
  qed
qed

text \<open>Multiplying by the scaled reciprocal gives the exact quotient for every dividend below \<open>2 ^ 32\<close> times the
  divisor.\<close>

lemma reciprocal_division:
  assumes rd: "rd * D = M + e" "0 < rd" and e: "(2 ^ 32 + 1) * e \<le> rd" and n: "n < D * 2 ^ 32"
  shows "n * rd div M = (n :: nat) div D"
proof -
  define q where "q = n div D"
  define r where "r = n mod D"
  have D: "0 < D" using n by (cases D) simp_all
  have q: "q < 2 ^ 32" using n D by (simp add: q_def div_less_iff_less_mult mult.commute)
  have r: "r + 1 \<le> D" using D by (simp add: r_def Suc_leI)
  have "n = q * D + r" by (simp add: q_def r_def)
  then have "n * rd = q * (rd * D) + r * rd" by (simp add: algebra_simps)
  then have nr: "n * rd = q * M + (q * e + r * rd)" unfolding rd(1) by (simp add: algebra_simps)
  have "(r + 1) * rd \<le> rd * D" using mult_le_mono1 [OF r, of rd] by (simp add: mult.commute)
  then have "r * rd + rd \<le> M + e" unfolding rd(1) by (simp add: algebra_simps)
  moreover have "(q + 1) * e \<le> W32 * e" using q by (intro mult_le_mono1) simp
  then have "q * e + e \<le> W32 * e" by simp
  moreover have "W32 * e + e \<le> rd" using e by simp
  ultimately have "q * e + r * rd < M" using rd(2) by linarith
  then show ?thesis unfolding nr q_def [symmetric] by simp
qed

lemma reverse_divider_exact:
  assumes "1 \<le> k" "k \<le> 9" "n < factors ! k * 2 ^ 32"
  shows "umulh n (reverse_dividers ! k) div 2 ^ (reverse_dividers_shift ! k) = n div factors ! k"
proof -
  define M where "M k = (2 :: nat) ^ 64 * 2 ^ (reverse_dividers_shift ! k)" for k
  have "list_all (\<lambda>k. M k \<le> reverse_dividers ! k * factors ! k \<and> 0 < reverse_dividers ! k \<and>
      (2 ^ 32 + 1) * (reverse_dividers ! k * factors ! k - M k) \<le> reverse_dividers ! k) [1..<10]"
    by (simp add: M_def factors_def reverse_dividers_def reverse_dividers_shift_def upt_rec)
  moreover have "k \<in> set [1..<10]" using assms by simp
  ultimately have "M k \<le> reverse_dividers ! k * factors ! k" "0 < reverse_dividers ! k"
      "(2 ^ 32 + 1) * (reverse_dividers ! k * factors ! k - M k) \<le> reverse_dividers ! k"
    unfolding list_all_iff by blast+
  then have "n * reverse_dividers ! k div M k = n div factors ! k"
    using assms(3) by (intro reciprocal_division [where e = "reverse_dividers ! k * factors ! k - M k"]) simp_all
  then show ?thesis by (simp add: umulh_def M_def div_mult2_eq)
qed

lemma div_pass_val:
  assumes "1 \<le> k" "k \<le> 9" "words ws"
  shows "words (fst (div_pass k ws)) \<and> length (fst (div_pass k ws)) = length ws \<and>
    snd (div_pass k ws) < factors ! k \<and> le_val W32 ws = le_val W32 (fst (div_pass k ws)) * factors ! k + snd (div_pass k ws)"
  using assms(3)
proof (induction ws)
  case Nil
  show ?case using factors_nth [OF assms(2)] by simp
next
  case (Cons w ws)
  obtain q b where qb: "div_pass k ws = (q, b)" by fastforce
  with Cons have IH: "words q" "length q = length ws" "b < factors ! k" "le_val W32 ws = le_val W32 q * factors ! k + b"
    by simp_all
  define D where "D = factors ! k"
  have "(10 :: nat) ^ k \<le> 10 ^ 9" using assms(2) by (intro power_increasing) simp_all
  then have D: "0 < D" "D < W32" using factors_nth [OF assms(2)] by (simp_all add: D_def)
  define n where "n = b * W32 + w"
  have w: "w < W32" using Cons.prems by simp
  have "(b + 1) * W32 \<le> D * W32" using IH(3) by (intro mult_le_mono1) (simp add: D_def)
  then have nD: "n < D * 2 ^ 32" using w by (simp add: n_def)
  moreover have "D * W32 \<le> (W32 - 1) * W32" using D(2) by (intro mult_le_mono1) simp
  ultimately have n64: "n < 2 ^ 64" by simp
  have quot: "umulh n (reverse_dividers ! k) div 2 ^ (reverse_dividers_shift ! k) = n div D"
    using reverse_divider_exact [OF assms(1,2)] nD by (simp add: D_def)
  have qs: "n div D < W32" using nD D(1) by (simp add: div_less_iff_less_mult mult.commute)
  have "int n - int (n div D) * int D = int (n mod D)" by (simp add: minus_mult_div_eq_mod [symmetric] of_nat_diff mult.commute flip: of_nat_mult)
  moreover have "n mod D < W32" using D mod_less_divisor [OF D(1), of n] by linarith
  ultimately have r: "nat ((int n - int (n div D) * int D) mod 2 ^ 32) = n mod D" by simp
  have dp: "div_pass k (w # ws) = (n div D # q, n mod D)"
    using n64 quot qs r by (simp add: qb Let_def n_def [symmetric] D_def [symmetric])
  have "le_val W32 (w # ws) = n + W32 * (le_val W32 q * D)" using IH(4) by (simp add: n_def D_def algebra_simps)
  also have "\<dots> = (n div D * D + n mod D) + W32 * (le_val W32 q * D)" by simp
  also have "\<dots> = le_val W32 (n div D # q) * D + n mod D" by (simp only: le_val.simps algebra_simps)
  finally show ?case unfolding dp using IH(1,2) qs D(1) by (simp add: D_def [symmetric])
qed

lemma divide_ok:
  "0 < d \<Longrightarrow> words ws \<Longrightarrow> words (divide d ws) \<and> length (divide d ws) = length ws \<and>
     le_val W32 (divide d ws) = le_val W32 ws div 10 ^ d"
proof (induction d ws rule: divide.induct)
  case (1 d ws)
  define n where "n = min d TDS_WORD_DDIGIT"
  have n: "1 \<le> n" "n \<le> 9" "n \<le> d" using 1(2) by (simp_all add: n_def TDS_WORD_DDIGIT_def)
  note m = div_pass_val [OF n(1,2) 1(3), unfolded factors_nth [OF n(2)]]
  then have v: "le_val W32 (fst (div_pass n ws)) = le_val W32 ws div 10 ^ n" by simp
  have u: "divide d ws = (if 0 < d - n then divide (d - n) (fst (div_pass n ws)) else fst (div_pass n ws))"
    by (subst divide.simps) (simp add: Let_def n_def)
  show ?case
  proof (cases "0 < d - n")
    case True
    have "(10 :: nat) ^ d = 10 ^ n * 10 ^ (d - n)" using n(3) by (simp add: power_add [symmetric])
    then have "le_val W32 ws div 10 ^ n div 10 ^ (d - n) = le_val W32 ws div 10 ^ d" by (simp add: div_mult2_eq)
    moreover have w: "words (fst (div_pass n ws))" "length (fst (div_pass n ws)) = length ws" using m by blast+
    note IH = 1(1) [OF n_def refl True True w(1)]
    ultimately show ?thesis using IH True w(2) unfolding u v by simp
  next
    case False
    then have "n = d" using n(3) by simp
    moreover have "words (fst (div_pass n ws))" "length (fst (div_pass n ws)) = length ws" using m by blast+
    ultimately show ?thesis using False v unfolding u by simp
  qed
qed

lemma split_product:
  assumes "w * l = m1q * W + m1r" "w * h = m3q * W + m3r"
  shows "(b * W + w) * (h * W + l) = (b * h + m3q) * (W * W) + (b * l + m1q + m3r) * W + (m1r :: nat)"
proof -
  have "(b * W + w) * (h * W + l) = b * h * (W * W) + b * l * W + w * h * W + w * l" by (simp add: algebra_simps)
  also have "\<dots> = (b * h + m3q) * (W * W) + (b * l + m1q + m3r) * W + m1r" unfolding assms by (simp add: algebra_simps)
  finally show ?thesis .
qed

text \<open>The 64-bit build computes the same high half of the product.\<close>

lemma quotient_64_umulh:
  assumes "borrow < W32" "word < W32" "rd < 2 ^ 64"
  shows "quotient_64 borrow word rd = umulh (borrow * 2 ^ 32 + word) rd"
proof -
  define l where "l = rd mod W32"
  define h where "h = rd div W32"
  have lh: "l < W32" "h < W32" "rd = h * W32 + l" using assms(3) by (simp_all add: l_def h_def div_less_iff_less_mult)
  have prod: "x * y \<le> (W32 - 1) * (W32 - 1)" if "x < W32" "y < W32" for x y
    using that by (intro mult_le_mono) simp_all
  define m1 where "m1 = word * l"
  define m2 where "m2 = borrow * l + m1 div W32"
  define m3 where "m3 = word * h"
  have "m1 < 2 ^ 64" "m3 < 2 ^ 64" using prod [OF assms(2) lh(1)] prod [OF assms(2) lh(2)] by (simp_all add: m1_def m3_def)
  then have d: "m1 div W32 < W32" "m3 div W32 < W32" by (simp_all add: div_less_iff_less_mult)
  have b2: "m2 + m3 mod W32 < 2 ^ 64"
    using prod [OF assms(1) lh(1)] d(1) mod_less_divisor [of W32 m3] by (simp add: m2_def)
  have b3: "borrow * h + m3 div W32 < 2 ^ 64" using prod [OF assms(1) lh(2)] d(2) by simp
  have full: "(borrow * W32 + word) * rd =
      (borrow * h + m3 div W32) * (W32 * W32) + (m2 + m3 mod W32) * W32 + m1 mod W32"
    unfolding lh(3) m2_def by (rule split_product) (simp_all add: m1_def m3_def)
  have "umulh (borrow * 2 ^ 32 + word) rd = (borrow * W32 + word) * rd div W32 div W32"
    by (simp add: umulh_def div_mult2_eq [symmetric])
  also have "(borrow * W32 + word) * rd div W32 = (borrow * h + m3 div W32) * W32 + (m2 + m3 mod W32)"
    unfolding full by (simp add: div_add1_eq [of _ "m1 mod W32"])
  also have "\<dots> div W32 = borrow * h + m3 div W32 + (m2 + m3 mod W32) div W32" by (rule div_mult_self3) simp
  finally have u: "umulh (borrow * 2 ^ 32 + word) rd = borrow * h + m3 div W32 + (m2 + m3 mod W32) div W32" .
  have "umulh (borrow * 2 ^ 32 + word) rd < 2 ^ 64"
  proof -
    have "borrow * W32 + word < 2 ^ 64" using less_digit [of borrow W32 word W32 0] assms(1,2) by (simp add: mult.commute)
    then have "(borrow * W32 + word) * rd < 2 ^ 64 * 2 ^ 64" using assms(3) by (intro mult_strict_mono) simp_all
    then show ?thesis by (simp add: umulh_def div_less_iff_less_mult)
  qed
  then show ?thesis
    using b2 b3 \<open>m1 < 2 ^ 64\<close> \<open>m3 < 2 ^ 64\<close> lh(2)
    unfolding u by (simp add: quotient_64_def Let_def l_def [symmetric] h_def [symmetric] m1_def [symmetric] m2_def [symmetric] m3_def [symmetric])
qed

end
