(* ===== verification/Rescale_Correct.thy ===== *)
theory Rescale_Correct
  imports Rescale
begin

text \<open>
  \<open>tds_numeric_change_prec_scale\<close> computes the number with the new scale, truncated, and fails exactly when it
  does not fit the new precision: the words hold the number, the passes multiply and divide it, and
  the bytes written back are the result.
\<close>

subsection \<open>Bytes to words\<close>

lemma take_snoc4:
  assumes "4 \<le> b" "b < length arr"
  shows "take b (drop 1 arr) = take (b - 4) (drop 1 arr) @ [arr ! (b - 3), arr ! (b - 2), arr ! (b - 1), arr ! b]"
proof -
  obtain m where b: "b = m + 4" using assms(1) by (metis add.commute le_Suc_ex)
  have "drop (Suc m) arr = arr ! Suc m # arr ! (m + 2) # arr ! (m + 3) # arr ! (m + 4) # drop (m + 5) arr"
    using assms(2) by (simp add: b Cons_nth_drop_Suc eval_nat_numeral)
  then have "take 4 (drop m (drop 1 arr)) = [arr ! Suc m, arr ! (m + 2), arr ! (m + 3), arr ! (m + 4)]" by simp
  moreover have "take b (drop 1 arr) = take m (drop 1 arr) @ take 4 (drop m (drop 1 arr))"
    unfolding b by (rule take_add)
  moreover have "b - 4 = m" "b - 3 = Suc m" "b - 2 = m + 2" "b - 1 = m + 3" by (simp_all add: b)
  ultimately show ?thesis by (simp only: b)
qed

lemma four_bytes_mod:
  assumes "1 \<le> b" "b \<le> 4" "length bs = 4"
  shows "bytes_val bs mod 2 ^ (8 * b) = bytes_val (drop (4 - b) bs)"
proof -
  have "bytes_val bs = bytes_val (take (4 - b) bs) * 256 ^ b + bytes_val (drop (4 - b) bs)"
    using assms by (subst append_take_drop_id [of "4 - b", symmetric], subst bytes_val_append) simp
  moreover have "bytes_val (drop (4 - b) bs) < 256 ^ b"
    using bytes_val_less [of "drop (4 - b) bs"] assms by simp
  moreover have "(2 :: nat) ^ (8 * b) = 256 ^ b" by (simp add: power_mult)
  ultimately show ?thesis by simp
qed

lemma pack32_val:
  assumes "1 \<le> b" "b < length arr"
  shows "words (pack32 ([p, s] @ arr) b) \<and> pack32 ([p, s] @ arr) b \<noteq> [] \<and>
    le_val W32 (pack32 ([p, s] @ arr) b) = bytes_val (take b (drop 1 arr))"
  using assms
proof (induction b rule: less_induct)
  case (less b)
  define mem where "mem = [p, s] @ arr"
  define w where "w = bytes_val [mem ! (b - 1), mem ! b, mem ! (b + 1), mem ! (b + 2)]"
  have w: "w < W32" using bytes_val_less [of "[mem ! (b - 1), mem ! b, mem ! (b + 1), mem ! (b + 2)]"] by (simp add: w_def)
  have u: "pack32 mem b = (if 4 < b then w # pack32 mem (b - 4) else [w mod 2 ^ (8 * b)])"
    by (subst pack32.simps) (simp add: Let_def w_def TDS_GET_A4BE_val)
  have nth: "mem ! (i + 2) = arr ! i" for i by (simp add: mem_def nth_append)
  show ?case
  proof (cases "4 < b")
    case True
    have "b - 3 + 2 = b - 1" "b - 2 + 2 = b" "b - 1 + 2 = b + 1" using True by simp_all
    then have "w = bytes_val [arr ! (b - 3), arr ! (b - 2), arr ! (b - 1), arr ! b]"
      using nth [of "b - 3"] nth [of "b - 2"] nth [of "b - 1"] nth [of b] by (simp only: w_def)
    then have "bytes_val (take b (drop 1 arr)) = w + W32 * bytes_val (take (b - 4) (drop 1 arr))"
      using take_snoc4 [of b arr] True less.prems by (simp add: bytes_val_append)
    with less.IH [of "b - 4"] True less.prems w u show ?thesis by (simp add: mem_def)
  next
    case False
    have "w mod 2 ^ (8 * b) = bytes_val (drop (4 - b) [mem ! (b - 1), mem ! b, mem ! (b + 1), mem ! (b + 2)])"
      unfolding w_def using less.prems False by (intro four_bytes_mod) simp_all
    also have "drop (4 - b) [mem ! (b - 1), mem ! b, mem ! (b + 1), mem ! (b + 2)] = take b (drop 1 arr)"
    proof (rule nth_equalityI)
      show "length (drop (4 - b) [mem ! (b - 1), mem ! b, mem ! (b + 1), mem ! (b + 2)]) = length (take b (drop 1 arr))"
        using False less.prems by simp
      fix i assume "i < length (drop (4 - b) [mem ! (b - 1), mem ! b, mem ! (b + 1), mem ! (b + 2)])"
      then have i: "i < b" using False by simp
      have "[mem ! (b - 1), mem ! b, mem ! (b + 1), mem ! (b + 2)] ! j = mem ! (b - 1 + j)" if "j < 4" for j
        using that less.prems by (auto simp: less_Suc_eq numeral_eq_Suc)
      moreover have "b - 1 + (4 - b + i) = Suc i + 2" using i False by simp
      ultimately show "drop (4 - b) [mem ! (b - 1), mem ! b, mem ! (b + 1), mem ! (b + 2)] ! i = take b (drop 1 arr) ! i"
        using i False less.prems nth [of "Suc i"] by (simp add: numeral_3_eq_3)
    qed
    finally have "w mod 2 ^ (8 * b) = bytes_val (take b (drop 1 arr))" .
    moreover have "w mod 2 ^ (8 * b) < W32" using w mod_less_eq_dividend [of w "2 ^ (8 * b)"] by linarith
    ultimately show ?thesis using False u by (simp add: mem_def)
  qed
qed

lemma strip_high_ok:
  assumes "words ws" "ws \<noteq> []"
  shows "normal (strip_high ws) \<and> le_val W32 (strip_high ws) = le_val W32 ws"
  using strip_high_val [OF assms(2), of W32] assms(1) by (auto simp: normal_def list_all_iff)

lemma packed_ok:
  assumes "numeric_ok n" shows "normal (packed n)" "le_val W32 (packed n) = magnitude n"
proof -
  have p: "1 \<le> precision n" "precision n \<le> 77" "length (array n) = 33"
    using assms by (simp_all add: numeric_ok_def bad_prec_scale_def MAXPRECISION_def)
  have "1 \<le> tds_numeric_bytes_per_prec ! precision n - 1" "tds_numeric_bytes_per_prec ! precision n - 1 < length (array n)"
    using bytes_per_prec(1,2) [OF p(1,2)] p(3) by simp_all
  from pack32_val [OF this, of "u8_of (precision n)" "u8_of (scale n)"]
  have "words (pack32 (numeric_mem n) (tds_numeric_bytes_per_prec ! precision n - 1))"
    "pack32 (numeric_mem n) (tds_numeric_bytes_per_prec ! precision n - 1) \<noteq> []"
    "le_val W32 (pack32 (numeric_mem n) (tds_numeric_bytes_per_prec ! precision n - 1)) = magnitude n"
    unfolding numeric_mem_def magnitude_def by blast+
  with strip_high_ok show "normal (packed n)" "le_val W32 (packed n) = magnitude n"
    unfolding packed_def by simp_all
qed

subsection \<open>Words to bytes\<close>

lemma put_rest_val:
  assumes "b < length arr"
  shows "length (put_rest arr b w) = length arr \<and> put_rest arr b w ! 0 = arr ! 0 \<and>
    drop (Suc b) (put_rest arr b w) = drop (Suc b) arr \<and> bytes_val (take b (drop 1 (put_rest arr b w))) = w mod 256 ^ b"
  using assms
proof (induction arr b w rule: put_rest.induct)
  case (2 arr b w)
  define res where "res = put_rest (arr [Suc b := u8_of w]) b (w div 256)"
  have IH: "length res = length arr" "res ! 0 = arr ! 0" "drop (Suc b) res = drop (Suc b) (arr [Suc b := u8_of w])"
    "bytes_val (take b (drop 1 res)) = w div 256 mod 256 ^ b"
    using 2 by (simp_all add: res_def)
  have "res ! Suc b = drop (Suc b) res ! 0" using IH(1) 2(2) by simp
  then have n: "res ! Suc b = u8_of w" using 2(2) by (simp add: IH(3))
  have "drop (Suc (Suc b)) res = drop 1 (drop (Suc b) res)" by simp
  also have "\<dots> = drop (Suc (Suc b)) arr" unfolding IH(3) by simp
  finally have d: "drop (Suc (Suc b)) res = drop (Suc (Suc b)) arr" .
  have "take (Suc b) (drop 1 res) = take b (drop 1 res) @ [u8_of w]"
    using IH(1) 2(2) n by (simp add: take_Suc_conv_app_nth)
  then have "bytes_val (take (Suc b) (drop 1 res)) = w div 256 mod 256 ^ b * 256 + w mod 256"
    using IH(4) by (simp add: bytes_val_append bytes_val_Cons)
  also have "\<dots> = w mod 256 ^ Suc b" by (simp add: mod_mult2_eq)
  finally show ?case using IH(1,2) d by (simp add: res_def)
qed simp

lemma put_words_val:
  assumes "b < length arr" "words ws" "b \<le> 4 * length ws"
  shows "length (put_words arr b ws) = length arr \<and> put_words arr b ws ! 0 = arr ! 0 \<and>
    drop (Suc b) (put_words arr b ws) = drop (Suc b) arr \<and>
    bytes_val (take b (drop 1 (put_words arr b ws))) = le_val W32 ws mod 256 ^ b"
  using assms
proof (induction arr b ws rule: put_words.induct)
  case (2 arr b w ws)
  show ?case
  proof (cases "4 \<le> b")
    case False
    have "W32 = 256 ^ b * 256 ^ (4 - b)" using False by (simp add: power_add [symmetric])
    then have "le_val W32 (w # ws) = w + 256 ^ b * (256 ^ (4 - b) * le_val W32 ws)" by (simp add: mult.assoc [symmetric])
    then have "le_val W32 (w # ws) mod 256 ^ b = w mod 256 ^ b" by (simp only: mod_mult_self2)
    with put_rest_val [OF 2(2), of w] False show ?thesis by simp
  next
    case True
    define arr1 where "arr1 = write_at arr (b - 3) (TDS_PUT_A4BE w)"
    define res where "res = put_words arr1 (b - 4) ws"
    have a: "length arr1 = length arr" using True 2(2) by (simp add: arr1_def)
    have IH: "length res = length arr" "res ! 0 = arr1 ! 0" "drop (Suc (b - 4)) res = drop (Suc (b - 4)) arr1"
      "bytes_val (take (b - 4) (drop 1 res)) = le_val W32 ws mod 256 ^ (b - 4)"
      using 2(1) [OF True] 2(2-4) True a by (simp_all add: res_def arr1_def)
    have s: "Suc (b - 4) = b - 3" "b - 3 + 4 = Suc b" using True by simp_all
    have "drop (b - 3) arr1 = TDS_PUT_A4BE w @ drop (Suc b) arr"
      using True 2(2) s(2) by (simp add: arr1_def write_at_def)
    then have d: "drop (b - 3) res = TDS_PUT_A4BE w @ drop (Suc b) arr" using IH(3) s(1) by simp
    have z: "res ! 0 = arr ! 0" using IH(2) True 2(2) by (simp add: arr1_def write_at_def nth_append)
    have d5: "drop (Suc b) res = drop (Suc b) arr"
    proof -
      have "drop (Suc b) res = drop 4 (drop (b - 3) res)" using s(2) by (simp add: add.commute)
      then show ?thesis unfolding d by simp
    qed
    have "take b (drop 1 res) = take (b - 4) (drop 1 res) @ take 4 (drop (b - 4) (drop 1 res))"
      using True take_add [of "b - 4" 4 "drop 1 res"] by simp
    also have "drop (b - 4) (drop 1 res) = TDS_PUT_A4BE w @ drop (Suc b) arr" using d s(1) by (simp only: drop_drop) (simp add: add.commute)
    finally have "take b (drop 1 res) = take (b - 4) (drop 1 res) @ TDS_PUT_A4BE w" by simp
    then have "bytes_val (take b (drop 1 res)) = le_val W32 ws mod 256 ^ (b - 4) * W32 + w"
      using IH(4) 2(3) TDS_PUT_A4BE_val [of w] by (simp add: bytes_val_append)
    also have "\<dots> = le_val W32 (w # ws) mod 256 ^ b"
    proof -
      have "(256 :: nat) ^ b = 256 ^ 4 * 256 ^ (b - 4)" using True by (simp only: power_add [symmetric]) simp
      then have p: "(256 :: nat) ^ b = W32 * 256 ^ (b - 4)" by simp
      show ?thesis unfolding p using 2(3) by (simp add: mod_mult2_eq)
    qed
    finally show ?thesis using True IH(1) z d5 by (simp add: res_def arr1_def)
  qed
qed simp

subsection \<open>The result\<close>

lemma clear_rest_val:
  "words ws \<Longrightarrow> words (clear_rest b ws)" "le_val W32 (clear_rest b ws) = le_val W32 ws" "b \<le> 4 * length (clear_rest b ws)"
  by (auto simp: clear_rest_def le_val_append list_all_iff)

lemma repack_ok:
  assumes "numeric_ok n" "\<not> bad_prec_scale p s" "words ws" "le_val W32 ws < 10 ^ p"
  shows "numeric_ok (repack n p s ws)" "magnitude (repack n p s ws) = le_val W32 ws"
    "precision (repack n p s ws) = p" "scale (repack n p s ws) = s" "array (repack n p s ws) ! 0 = array n ! 0"
proof -
  define b where "b = tds_numeric_bytes_per_prec ! p - 1"
  have p: "1 \<le> p" "p \<le> 77" using assms(2) by (simp_all add: bad_prec_scale_def MAXPRECISION_def)
  note bp = bytes_per_prec [OF p]
  have l: "length (array n) = 33" using assms(1) by (simp add: numeric_ok_def)
  have "b < length (array n)" using bp(1,2) l by (simp add: b_def)
  note v = put_words_val [OF this clear_rest_val(1) [OF assms(3)] clear_rest_val(3)]
  have arr: "array (repack n p s ws) = put_words (array n) b (clear_rest b ws)" by (simp add: repack_def b_def Let_def)
  show ps: "precision (repack n p s ws) = p" "scale (repack n p s ws) = s" by (simp_all add: repack_def Let_def)
  show z: "array (repack n p s ws) ! 0 = array n ! 0" unfolding arr using v by blast
  have "le_val W32 ws < 256 ^ b" using assms(4) bp(3) by (simp add: b_def)
  then show m: "magnitude (repack n p s ws) = le_val W32 ws"
    unfolding magnitude_def arr ps b_def [symmetric] using v by (simp add: clear_rest_val(2))
  have "length (array (repack n p s ws)) = 33" unfolding arr using v l by simp
  with assms m z ps show "numeric_ok (repack n p s ws)" by (simp add: numeric_ok_def)
qed

lemma widen_ok:
  assumes "length arr = 33" "k + i \<le> 32"
  shows "length (widen i arr) = 33" "widen i arr ! 0 = arr ! 0" "bytes_val (take (k + i) (drop 1 (widen i arr))) = bytes_val (take k (drop 1 arr))"
proof -
  have w: "widen i arr = take 1 arr @ replicate i 0 @ take (32 - i) (drop 1 arr)"
    using assms by (auto simp: widen_def write_at_def min_absorb2 Suc_diff_le)
  have t: "length (take 1 arr) = 1" using assms(1) by simp
  show "length (widen i arr) = 33" using assms by (simp add: w)
  show "widen i arr ! 0 = arr ! 0" unfolding w using assms(1) by (simp add: nth_append)
  have "drop 1 (widen i arr) = replicate i 0 @ take (32 - i) (drop 1 arr)" unfolding w using t by simp
  then have "take (k + i) (drop 1 (widen i arr)) = replicate i 0 @ take k (drop 1 arr)" using assms by (simp add: min_def)
  then show "bytes_val (take (k + i) (drop 1 (widen i arr))) = bytes_val (take k (drop 1 arr))" by simp
qed

lemma narrow_ok:
  assumes "length arr = 33" "k + i \<le> 32" "bytes_val (take (k + i) (drop 1 arr)) < 256 ^ k"
  shows "length (narrow i arr) = 33" "narrow i arr ! 0 = arr ! 0" "bytes_val (take k (drop 1 (narrow i arr))) = bytes_val (take (k + i) (drop 1 arr))"
proof -
  have s: "take (k + i) (drop 1 arr) = take i (drop 1 arr) @ take k (drop (1 + i) arr)"
    using take_add [of i k "drop 1 arr"] by (simp add: add.commute)
  have "bytes_val (take (k + i) (drop 1 arr)) = bytes_val (take i (drop 1 arr)) * 256 ^ k + bytes_val (take k (drop (1 + i) arr))"
    unfolding s bytes_val_append using assms(1,2) by (simp add: min_absorb1)
  with assms(3) have v: "bytes_val (take (k + i) (drop 1 arr)) = bytes_val (take k (drop (1 + i) arr))"
    by (cases "bytes_val (take i (drop 1 arr))") simp_all
  show "length (narrow i arr) = 33" using assms(1,2) by (simp add: narrow_def)
  show "narrow i arr ! 0 = arr ! 0" using assms(1) by (simp add: narrow_def write_at_def nth_append)
  have "take k (drop 1 (narrow i arr)) = take k (drop (1 + i) arr)"
    using assms(1,2) by (simp add: narrow_def write_at_def min_def)
  then show "bytes_val (take k (drop 1 (narrow i arr))) = bytes_val (take (k + i) (drop 1 arr))" using v by simp
qed

text \<open>The number with \<open>sc\<close> decimals as one with \<open>new_sc\<close> decimals, truncated.\<close>

definition rescaled :: "nat \<Rightarrow> nat \<Rightarrow> nat \<Rightarrow> nat" where
  "rescaled sc new_sc v = (if sc \<le> new_sc then v * 10 ^ (new_sc - sc) else v div 10 ^ (sc - new_sc))"

lemma rescaled_up_fits:
  assumes "sc \<le> new_sc" "new_sc \<le> new_prec"
  shows "v * 10 ^ (new_sc - sc) < 10 ^ new_prec \<longleftrightarrow> (v :: nat) < 10 ^ (new_prec - (new_sc - sc))"
proof -
  have "(10 :: nat) ^ new_prec = 10 ^ (new_prec - (new_sc - sc)) * 10 ^ (new_sc - sc)"
    using assms by (simp add: power_add [symmetric])
  then show ?thesis by simp
qed

lemma rescaled_down_fits:
  "v div 10 ^ d < 10 ^ p \<longleftrightarrow> (v :: nat) < 10 ^ (p + d)"
  by (simp add: div_less_iff_less_mult power_add)

definition rescale_to :: "tds_numeric \<Rightarrow> nat \<Rightarrow> nat \<Rightarrow> tds_numeric \<Rightarrow> bool" where
  "rescale_to n p s n' \<longleftrightarrow> numeric_ok n' \<and> precision n' = p \<and> scale n' = s \<and> array n' ! 0 = array n ! 0 \<and>
     magnitude n' = rescaled (scale n) s (magnitude n)"

lemma widen_numeric:
  assumes "numeric_ok n" "\<not> bad_prec_scale p (scale n)" "precision n \<le> p"
  shows "rescale_to n p (scale n)
    (n \<lparr> array := widen (tds_numeric_bytes_per_prec ! p - tds_numeric_bytes_per_prec ! precision n) (array n), precision := p \<rparr>)"
proof -
  define k where "k = tds_numeric_bytes_per_prec ! precision n - 1"
  define i where "i = tds_numeric_bytes_per_prec ! p - tds_numeric_bytes_per_prec ! precision n"
  have p: "1 \<le> p" "p \<le> 77" "1 \<le> precision n" "precision n \<le> 77"
    using assms by (simp_all add: bad_prec_scale_def MAXPRECISION_def numeric_ok_def)
  have ki: "k + i = tds_numeric_bytes_per_prec ! p - 1" "k + i \<le> 32" "length (array n) = 33"
    using bytes_per_prec(1,2) [OF p(1,2)] bytes_per_prec_mono [OF assms(3) p(2)] bytes_per_prec(1) [OF p(3,4)] assms
    by (simp_all add: k_def i_def numeric_ok_def)
  note w = widen_ok [OF ki(3,2)]
  have "magnitude n < 10 ^ p" using assms(1,3) by (auto simp: numeric_ok_def intro: less_le_trans [OF _ power_increasing])
  moreover have "magnitude (n \<lparr> array := widen i (array n), precision := p \<rparr>) = magnitude n"
    unfolding magnitude_def using w(3) ki(1) by (simp add: k_def)
  ultimately show ?thesis
    using assms(1,2) w(1,2) by (simp add: rescale_to_def numeric_ok_def rescaled_def i_def [symmetric])
qed

lemma narrow_numeric:
  assumes "numeric_ok n" "\<not> bad_prec_scale p (scale n)" "p \<le> precision n" "magnitude n < 10 ^ p"
  shows "rescale_to n p (scale n)
    (n \<lparr> array := narrow (tds_numeric_bytes_per_prec ! precision n - tds_numeric_bytes_per_prec ! p) (array n), precision := p \<rparr>)"
proof -
  define k where "k = tds_numeric_bytes_per_prec ! p - 1"
  define i where "i = tds_numeric_bytes_per_prec ! precision n - tds_numeric_bytes_per_prec ! p"
  have p: "1 \<le> p" "p \<le> 77" "1 \<le> precision n" "precision n \<le> 77"
    using assms by (simp_all add: bad_prec_scale_def MAXPRECISION_def numeric_ok_def)
  have ki: "k + i = tds_numeric_bytes_per_prec ! precision n - 1" "k + i \<le> 32" "length (array n) = 33"
    using bytes_per_prec(1,2) [OF p(3,4)] bytes_per_prec_mono [OF assms(3) p(4)] bytes_per_prec(1) [OF p(1,2)] assms
    by (simp_all add: k_def i_def numeric_ok_def)
  have m: "magnitude n = bytes_val (take (k + i) (drop 1 (array n)))" by (simp add: magnitude_def ki(1))
  have "magnitude n < 256 ^ k" using assms(4) bytes_per_prec(3) [OF p(1,2)] by (simp add: k_def)
  note w = narrow_ok [OF ki(3,2) this [unfolded m]]
  have "magnitude (n \<lparr> array := narrow i (array n), precision := p \<rparr>) = magnitude n"
    unfolding m using w(3) by (simp add: magnitude_def k_def)
  then show ?thesis
    using assms(1,2,4) w(1,2) by (simp add: rescale_to_def numeric_ok_def rescaled_def i_def [symmetric])
qed

lemma change_prec_scale_correct:
  assumes L: "limits_ok L" and n: "numeric_ok n" and new: "\<not> bad_prec_scale p s"
  shows "if rescaled (scale n) s (magnitude n) < 10 ^ p
    then \<exists>n'. tds_numeric_change_prec_scale L n p s = Inr n' \<and> rescale_to n p s n'
    else tds_numeric_change_prec_scale L n p s = Inl TDS_CONVERT_OVERFLOW"
proof -
  have old: "\<not> bad_prec_scale (precision n) (scale n)" "magnitude n < 10 ^ precision n" using n by (simp_all add: numeric_ok_def)
  have ps: "p \<le> 77" "s \<le> p" using new by (simp_all add: bad_prec_scale_def MAXPRECISION_def)
  note pk = packed_ok [OF n]
  have w: "words (packed n)" using pk(1) by (simp add: normal_def)
  have chk: "tds_packet_check_overflow L (packed n) q \<longleftrightarrow> \<not> magnitude n < 10 ^ q" if "q \<le> 77" for q
    using check_overflow_iff [OF L that w] pk(2) by (simp add: not_less)
  note defs = tds_numeric_change_prec_scale_def Let_def
  consider (wide) "s = scale n" "precision n \<le> p" | (narrow) "s = scale n" "p < precision n"
    | (up) "scale n < s" | (down) "s < scale n" by linarith
  then show ?thesis
  proof cases
    case wide
    moreover have "magnitude n < 10 ^ p" using old(2) wide(2) by (auto intro: less_le_trans [OF _ power_increasing])
    ultimately show ?thesis using old(1) new widen_numeric [OF n, of p] by (simp add: defs rescaled_def)
  next
    case narrow
    then show ?thesis using old(1) new narrow_numeric [OF n, of p] chk [OF ps(1)] by (simp add: defs rescaled_def)
  next
    case up
    have fits: "rescaled (scale n) s (magnitude n) < 10 ^ p \<longleftrightarrow> magnitude n < 10 ^ (p - (s - scale n))"
      using rescaled_up_fits [of "scale n" s p] up ps(2) by (simp add: rescaled_def)
    have m: "words (multiply (s - scale n) (packed n))"
      "le_val W32 (multiply (s - scale n) (packed n)) = rescaled (scale n) s (magnitude n)"
      using multiply_ok [OF pk(1), of "s - scale n"] pk(2) up by (simp_all add: normal_def rescaled_def mult.commute)
    show ?thesis
      using fits chk [of "p - (s - scale n)"] ps(1) up old(1) new repack_ok [OF n new m(1)] m(2)
      by (simp add: defs rescale_to_def)
  next
    case down
    have fits: "rescaled (scale n) s (magnitude n) < 10 ^ p \<longleftrightarrow> magnitude n < 10 ^ (p + (scale n - s))"
      using rescaled_down_fits [of "magnitude n" "scale n - s" p] down by (simp add: rescaled_def)
    have m: "words (divide (scale n - s) (packed n))"
      "le_val W32 (divide (scale n - s) (packed n)) = rescaled (scale n) s (magnitude n)"
      using divide_ok [OF _ w, of "scale n - s"] pk(2) down by (simp_all add: rescaled_def)
    have "magnitude n < 10 ^ (p + (scale n - s))" if "precision n \<le> p + (scale n - s)"
      using old(2) that by (auto intro: less_le_trans [OF _ power_increasing])
    moreover have "p + (scale n - s) \<le> 77" if "p + (scale n - s) < precision n"
      using that old(1) by (simp add: bad_prec_scale_def MAXPRECISION_def)
    ultimately show ?thesis
      using fits chk [of "p + (scale n - s)"] down old(1) new repack_ok [OF n new m(1)] m(2)
      by (cases "p + (scale n - s) < precision n") (simp_all add: defs rescale_to_def not_less)
  qed
qed

subsection \<open>The generated tables\<close>

text \<open>Tables of the shape \<open>src/tds/num_limits.pl\<close> prints: for every precision up to 77 the words of the power of
  ten, highest first, without the zero words at either end.\<close>

fun word_digits :: "nat \<Rightarrow> nat list" where
  "word_digits v = (if v = 0 then [] else v mod W32 # word_digits (v div W32))"

declare word_digits.simps [simp del]

definition limit_words :: "nat \<Rightarrow> nat list" where
  "limit_words i = rev (word_digits (10 ^ i div W32 ^ (i div 32)))"

definition num_limits_pl :: num_limits where
  "num_limits_pl =
     \<lparr> limits = concat (map limit_words [0..<78]),
       limit_indexes = map (\<lambda>i. int (length (concat (map limit_words [0..<i]))) - 4 * int i) [0..<79],
       limit_indexes_adjust = 4 \<rparr>"

lemma word_digits_val:
  "le_val W32 (word_digits v) = v \<and> words (word_digits v) \<and> (v \<noteq> 0 \<longrightarrow> word_digits v \<noteq> [] \<and> last (word_digits v) \<noteq> 0)"
proof (induction v rule: word_digits.induct)
  case (1 v)
  show ?case
  proof (cases "v div W32 = 0")
    case True
    then have "v < W32" by (simp add: div_eq_0_iff)
    then show ?thesis using True by (subst (1 2 3 4) word_digits.simps) (simp add: word_digits.simps [of 0])
  next
    case False
    then have "v \<noteq> 0" by auto
    with 1 False show ?thesis by (subst (1 2 3 4) word_digits.simps) simp
  qed
qed

lemma limit_words_val:
  "limit_words i \<noteq> []" "hd (limit_words i) \<noteq> 0" "words (limit_words i)" "be_val W32 (limit_words i) * W32 ^ (i div 32) = 10 ^ i"
proof -
  define q where "q = (10 :: nat) ^ i div W32 ^ (i div 32)"
  have "W32 ^ (i div 32) = (2 :: nat) ^ (32 * (i div 32))" by (simp add: power_mult)
  moreover have "(2 :: nat) ^ (32 * (i div 32)) dvd 2 ^ i" by (intro le_imp_power_dvd) simp
  moreover have "(2 :: nat) ^ i dvd 10 ^ i" using dvd_power_same [of 2 "10 :: nat" i] by simp
  ultimately have q: "q * W32 ^ (i div 32) = 10 ^ i" unfolding q_def by (metis dvd_div_mult_self dvd_trans)
  then have "q \<noteq> 0" by (metis mult_is_0 power_not_zero zero_neq_numeral)
  with word_digits_val [of q] q show "limit_words i \<noteq> []" "hd (limit_words i) \<noteq> 0" "words (limit_words i)"
    "be_val W32 (limit_words i) * W32 ^ (i div 32) = 10 ^ i"
    by (simp_all add: limit_words_def q_def [symmetric] be_val_def hd_rev)
qed

lemma limits_ok_pl: "limits_ok num_limits_pl"
proof -
  have at: "limit_at num_limits_pl p = limit_words p @ concat (map limit_words [Suc p..<78])" if "p \<le> 77" for p
  proof -
    have "[0..<78] = [0..<p] @ p # [Suc p..<78]"
      using that upt_add_eq_append [of 0 p "78 - p"] upt_conv_Cons [of p 78] by simp
    then show ?thesis using that by (simp add: limit_at_def num_limits_pl_def nth_append del: upt_Suc)
  qed
  have len: "limit_len num_limits_pl p = length (limit_words p)" if "p \<le> 77" for p
    using that by (simp add: limit_len_def num_limits_pl_def)
  have "words (limits num_limits_pl)"
    using limit_words_val(3) by (auto simp: num_limits_pl_def list_all_iff)
  then show ?thesis
    unfolding limits_ok_def using limit_words_val at len by simp
qed

subsection \<open>Properties\<close>

lemma normal_length:
  assumes "normal ws" "le_val W32 ws < 10 ^ 77" shows "length ws \<le> PACKET_WORDS"
proof (cases "length ws = 1")
  case False
  then have l: "ws = butlast ws @ [last ws]" "last ws \<noteq> 0" using assms(1) by (simp_all add: normal_def)
  have "W32 ^ length (butlast ws) * 1 \<le> W32 ^ length (butlast ws) * last ws" using l(2) by (intro mult_le_mono2) simp
  also have "\<dots> \<le> le_val W32 ws" by (subst (2) l(1)) (simp add: le_val_append)
  also have "\<dots> < W32 ^ 8" using assms(2) by (rule less_trans) simp
  finally have "W32 ^ length (butlast ws) < W32 ^ 8" by simp
  then have "length (butlast ws) < 8" by (rule power_less_imp_less_exp [rotated]) simp
  then show ?thesis by (simp add: PACKET_WORDS_def)
qed (simp add: PACKET_WORDS_def)

lemma bytes_per_prec_75:
  assumes "1 \<le> p" "p \<le> 77" shows "tds_numeric_bytes_per_prec ! p = 33 \<longleftrightarrow> 75 \<le> p"
proof -
  have "tds_numeric_bytes_per_prec ! 74 = 32" "tds_numeric_bytes_per_prec ! 75 = 33" by (simp_all add: tds_numeric_bytes_per_prec_def)
  with bytes_per_prec_mono [of p 74] bytes_per_prec_mono [of 75 p] bytes_per_prec(2) [OF assms] assms show ?thesis
    by (cases "75 \<le> p") auto
qed

text \<open>C3: for a legal number and a legal target, \<open>tds_numeric_change_prec_scale\<close> returns the number with the new scale,
  truncated towards zero, with the sign kept and again legal, exactly when it fits the new
  precision; otherwise it reports an overflow.\<close>

theorem tds_numeric_change_prec_scale_correct:
  assumes "limits_ok L" "numeric_ok n" "\<not> bad_prec_scale new_prec new_scale"
  shows "case tds_numeric_change_prec_scale L n new_prec new_scale of
      Inl e \<Rightarrow> e = TDS_CONVERT_OVERFLOW \<and> 10 ^ new_prec \<le> rescaled (scale n) new_scale (magnitude n)
    | Inr n' \<Rightarrow> numeric_ok n' \<and> precision n' = new_prec \<and> scale n' = new_scale \<and> array n' ! 0 = array n ! 0 \<and>
        magnitude n' = rescaled (scale n) new_scale (magnitude n)"
  using change_prec_scale_correct [OF assms]
  by (cases "rescaled (scale n) new_scale (magnitude n) < 10 ^ new_prec") (auto simp: rescale_to_def)

text \<open>C36: the words of a number never outgrow \<open>packet\<close>, but when the result is written back with a precision of 75 or
  more the loop that clears the unused words starts one word behind the array.\<close>

theorem rescale_clears_behind_packet:
  assumes "numeric_ok n" "\<not> bad_prec_scale p s" "scale n \<noteq> s" "rescaled (scale n) s (magnitude n) < 10 ^ p"
    "packet = (if scale n < s then multiply (s - scale n) (packed n) else divide (scale n - s) (packed n))"
  shows "length packet \<le> PACKET_WORDS \<and>
    (PACKET_WORDS < length (clear_rest (tds_numeric_bytes_per_prec ! p - 1) packet) \<longleftrightarrow> 75 \<le> p)"
proof -
  have p: "1 \<le> p" "p \<le> 77" using assms(2) by (simp_all add: bad_prec_scale_def MAXPRECISION_def)
  have up: "v < 10 ^ 77" if "v < 10 ^ q" "q \<le> 77" for v q :: nat
    using that(1) power_increasing [OF that(2), of "10 :: nat"] by linarith
  note pk = packed_ok [OF assms(1)]
  have "magnitude n < 10 ^ 77"
    using assms(1) by (intro up [of _ "precision n"]) (simp_all add: numeric_ok_def bad_prec_scale_def MAXPRECISION_def)
  with normal_length [OF pk(1)] pk(2) have pl: "length (packed n) \<le> PACKET_WORDS" by simp
  have len: "length packet \<le> PACKET_WORDS"
  proof (cases "scale n < s")
    case True
    with assms(4) pk(2) have "le_val W32 (multiply (s - scale n) (packed n)) < 10 ^ p"
      using multiply_ok [OF pk(1), of "s - scale n"] by (simp add: rescaled_def mult.commute)
    with normal_length up [OF _ p(2)] multiply_ok [OF pk(1)] True show ?thesis by (simp add: assms(5))
  next
    case False
    with pl divide_ok [of "scale n - s" "packed n"] pk(1) assms(3) show ?thesis by (simp add: assms(5) normal_def)
  qed
  moreover have "length (clear_rest b packet) = max (length packet) (b div 4 + 1)" for b
    by (simp add: clear_rest_def max_def)
  moreover have "8 \<le> (tds_numeric_bytes_per_prec ! p - 1) div 4 \<longleftrightarrow> 75 \<le> p"
    using bytes_per_prec_75 [OF p] bytes_per_prec(2) [OF p] by (auto simp: less_eq_div_iff_mult_less_eq)
  ultimately show ?thesis by (auto simp: PACKET_WORDS_def)
qed

text \<open>C35: both builds divide exactly. For every divisor \<open>10 ^ k\<close> with \<open>k\<close> from 1 to 9, every borrow below it and every
  word, the product with the scaled reciprocal gives the true quotient, whether its high half comes
  from a 128-bit product or from 64-bit ones.\<close>

theorem reverse_dividers_exact:
  assumes "1 \<le> k" "k \<le> 9" "borrow < factors ! k" "word < 2 ^ 32"
  shows "umulh (borrow * 2 ^ 32 + word) (reverse_dividers ! k) div 2 ^ (reverse_dividers_shift ! k) =
      (borrow * 2 ^ 32 + word) div 10 ^ k \<and>
    quotient_64 borrow word (reverse_dividers ! k) = umulh (borrow * 2 ^ 32 + word) (reverse_dividers ! k)"
proof -
  have f: "factors ! k = 10 ^ k" by (rule factors_nth [OF assms(2)])
  have "(borrow + 1) * 2 ^ 32 \<le> factors ! k * 2 ^ 32" using assms(3) by (intro mult_le_mono1) simp
  then have n: "borrow * 2 ^ 32 + word < factors ! k * 2 ^ 32" using assms(4) by simp
  have "(10 :: nat) ^ k \<le> 10 ^ 9" using assms(2) by (intro power_increasing) simp_all
  then have b: "borrow < W32" using assms(3) f by simp
  have "list_all (\<lambda>r. r < 2 ^ 64) reverse_dividers" "length reverse_dividers = 10" by (simp_all add: reverse_dividers_def)
  then have "reverse_dividers ! k < 2 ^ 64" using assms(2) by (simp add: list_all_length)
  then show ?thesis
    using reverse_divider_exact [OF assms(1,2) n] quotient_64_umulh [OF b, of word] assms(4) by (simp add: f)
qed

subsection \<open>Examples\<close>

theorem tds_numeric_change_prec_scale_correct_witness:
  "\<exists>n'. tds_numeric_change_prec_scale num_limits_pl demo_numeric 4 1 = Inr n' \<and> magnitude n' = 1234"
proof -
  have "case tds_numeric_change_prec_scale num_limits_pl demo_numeric 4 1 of
      Inl e \<Rightarrow> e = TDS_CONVERT_OVERFLOW \<and> 10 ^ 4 \<le> rescaled (scale demo_numeric) 1 (magnitude demo_numeric)
    | Inr n' \<Rightarrow> numeric_ok n' \<and> precision n' = 4 \<and> scale n' = 1 \<and> array n' ! 0 = array demo_numeric ! 0 \<and>
        magnitude n' = rescaled (scale demo_numeric) 1 (magnitude demo_numeric)"
    by (rule tds_numeric_change_prec_scale_correct [OF limits_ok_pl demo_numeric_ok(1)]) (simp add: bad_prec_scale_def MAXPRECISION_def)
  moreover have "rescaled (scale demo_numeric) 1 (magnitude demo_numeric) = 1234"
    unfolding demo_numeric_ok(2) by (simp add: rescaled_def demo_numeric_def)
  ultimately show ?thesis by (auto split: sum.splits)
qed

theorem rescale_clears_behind_packet_witness:
  "PACKET_WORDS < length (clear_rest (tds_numeric_bytes_per_prec ! 75 - 1) (multiply 1 (packed demo_numeric)))"
proof -
  have "rescaled (scale demo_numeric) 3 (magnitude demo_numeric) < 10 ^ 75"
    unfolding demo_numeric_ok(2) by (simp add: rescaled_def demo_numeric_def)
  with rescale_clears_behind_packet [OF demo_numeric_ok(1), of 75 3 "multiply 1 (packed demo_numeric)"]
  show ?thesis by (simp add: bad_prec_scale_def MAXPRECISION_def demo_numeric_def)
qed

theorem reverse_dividers_exact_witness:
  "umulh (999999999 * 2 ^ 32 + 5) (reverse_dividers ! 9) div 2 ^ 26 = (999999999 * 2 ^ 32 + 5) div 10 ^ 9"
  using reverse_dividers_exact [of 9 999999999 5] by (simp add: factors_def reverse_dividers_shift_def)

end
