(* ===== verification/Parse_Number.thy ===== *)
theory Parse_Number
  imports Numeric
begin

text \<open>
  Strings to numbers: \<open>parse_numeric\<close>, \<open>string_to_int\<close>, \<open>parse_int8\<close>, \<open>string_to_int8\<close>, \<open>string_to_uint8\<close>,
  \<open>string_to_numeric\<close> and \<open>stringz_to_numeric\<close> of \<open>src/tds/convert.c\<close>. The text between \<open>buf\<close> and \<open>pend\<close> is a list of characters;
  a pointer into it is the suffix that starts there.
\<close>

subsection \<open>Parsing\<close>

definition blank :: char where
  "blank = CHR '' ''"

text \<open>The result is the start of the digits, whether the number is negative, and the numbers of digits
  before and after the dot; \<open>None\<close> is \<open>NULL\<close>. \<open>parse_digits\<close> is the part after the sign.\<close>

definition parse_digits :: "bool \<Rightarrow> string \<Rightarrow> (string \<times> bool \<times> nat \<times> nat) option" where
  "parse_digits negative p =
     (let start = dropWhile ((=) (CHR ''0'')) p;
          p = dropWhile is_digit start;
          digits = length start - length p;
          (p, decimals) =
            (if p \<noteq> [] \<and> hd p = CHR ''.''
             then (dropWhile is_digit (tl p), length (tl p) - length (dropWhile is_digit (tl p)))
             else (p, 0));
          p = dropWhile ((=) blank) p
      in if p \<noteq> [] then None else Some (start, negative, digits, decimals))"

definition parse_numeric :: "string \<Rightarrow> (string \<times> bool \<times> nat \<times> nat) option" where
  "parse_numeric buf =
     (let p = dropWhile ((=) blank) buf
      in if p = [] then Some (p, False, 0, 0)
         else
           let negative = (hd p = CHR ''-'');
               p = (if hd p = CHR ''-'' \<or> hd p = CHR ''+'' then dropWhile ((=) blank) (tl p) else p)
           in if p = [] then None else parse_digits negative p)"

subsection \<open>Integers\<close>

text \<open>The digit loops; \<open>None\<close> is an overflow.\<close>

fun int_loop :: "nat \<Rightarrow> string \<Rightarrow> nat option" where
  "int_loop num [] = Some num"
| "int_loop num (c # buf) =
     (if 214748364 < num then None else int_loop ((num * 10 + digit_val c) mod 2 ^ 32) buf)"

definition string_to_int :: "string \<Rightarrow> conv_error + int" where
  "string_to_int buf =
     (case parse_numeric buf of
        None \<Rightarrow> Inl TDS_CONVERT_SYNTAX
      | Some (start, negative, digits, decimals) \<Rightarrow>
          (case int_loop 0 (take digits start) of
             None \<Rightarrow> Inl TDS_CONVERT_OVERFLOW
           | Some num \<Rightarrow>
               if negative
               then if 2147483648 < num then Inl TDS_CONVERT_OVERFLOW else Inr (- int num)
               else if 2147483648 \<le> num then Inl TDS_CONVERT_OVERFLOW else Inr (int num)))"

fun int8_loop :: "nat \<Rightarrow> string \<Rightarrow> nat option" where
  "int8_loop num [] = Some num"
| "int8_loop num (c # buf) =
     (if 2 ^ 63 div 5 < num then None
      else let prev = num;
               num = (num * 10 + digit_val c) mod 2 ^ 64
           in if num < prev then None else int8_loop num buf)"

definition parse_int8 :: "string \<Rightarrow> conv_error + (nat \<times> bool)" where
  "parse_int8 buf =
     (case parse_numeric buf of
        None \<Rightarrow> Inl TDS_CONVERT_SYNTAX
      | Some (start, negative, digits, decimals) \<Rightarrow>
          (case int8_loop 0 (take digits start) of
             None \<Rightarrow> Inl TDS_CONVERT_OVERFLOW
           | Some num \<Rightarrow> Inr (num, negative)))"

definition string_to_int8 :: "string \<Rightarrow> conv_error + int" where
  "string_to_int8 buf =
     (case parse_int8 buf of
        Inl e \<Rightarrow> Inl e
      | Inr (num, negative) \<Rightarrow>
          if negative
          then if 2 ^ 63 < num then Inl TDS_CONVERT_OVERFLOW else Inr (- int num)
          else if 2 ^ 63 \<le> num then Inl TDS_CONVERT_OVERFLOW else Inr (int num))"

definition string_to_uint8 :: "string \<Rightarrow> conv_error + nat" where
  "string_to_uint8 buf =
     (case parse_int8 buf of
        Inl e \<Rightarrow> Inl e
      | Inr (num, negative) \<Rightarrow> if negative \<and> num \<noteq> 0 then Inl TDS_CONVERT_OVERFLOW else Inr num)"

subsection \<open>Exact numbers\<close>

text \<open>Eight characters are packed into one word, from the end of \<open>mynumber\<close> on.\<close>

definition pack_eight :: "string \<Rightarrow> nat" where
  "pack_eight s =
     nat ((int (foldl (\<lambda>n c. (n * 10 + of_char c) mod 2 ^ 32) 0 s) - 48 * 11111111) mod 2 ^ 32)"

fun pack8 :: "string \<Rightarrow> nat list" where
  "pack8 mynumber =
     pack_eight (drop (length mynumber - 8) mynumber) #
     (if 16 < length mynumber then pack8 (take (length mynumber - 8) mynumber) else [])"

declare pack8.simps [simp del]

text \<open>One round of the division by 256, from the highest word down: the new words and the remainder.\<close>

fun div256 :: "nat list \<Rightarrow> nat list \<times> nat" where
  "div256 [] = ([], 0)"
| "div256 (tmp # ws) =
     (let (q, carry) = div256 ws
      in ((carry * (25 * 25 * 25 * 25) + tmp div 256) mod 2 ^ 32 # q, tmp mod 256))"

text \<open>The rounds write the bytes from the last one down; at \<open>bytes = 0\<close> the array would be left.\<close>

fun put_bytes :: "byte list \<Rightarrow> nat \<Rightarrow> nat list \<Rightarrow> byte list" where
  "put_bytes arr 0 ws = arr"
| "put_bytes arr (Suc bytes) ws =
     (if list_all ((=) 0) ws then arr
      else let (q, carry) = div256 ws
           in put_bytes (arr [bytes := u8_of carry]) bytes (if last ws = 0 then butlast q else q))"

text \<open>\<open>cr->n\<close> comes in with the precision and the scale wanted.\<close>

definition string_to_numeric :: "string \<Rightarrow> tds_numeric \<Rightarrow> conv_error + tds_numeric" where
  "string_to_numeric instr n =
     (let n = (if precision n = 0 then n \<lparr> precision := MAXPRECISION \<rparr> else n)
      in if MAXPRECISION < precision n then Inl TDS_CONVERT_FAIL
         else if precision n < scale n then Inl TDS_CONVERT_FAIL
         else
           case parse_numeric instr of
             None \<Rightarrow> Inl TDS_CONVERT_SYNTAX
           | Some (start, negative, digits, decimals) \<Rightarrow>
               if precision n - scale n < digits then Inl TDS_CONVERT_OVERFLOW
               else
                 let decimals = min decimals (scale n);
                     mynumber = replicate 8 (CHR ''0'') @ take digits start @ take decimals (drop (digits + 1) start) @
                                replicate (scale n - decimals) (CHR ''0'');
                     packed_num = strip_high (pack8 mynumber);
                     arr = (if negative then 1 else 0) # replicate 32 0
                 in Inr (n \<lparr> array := put_bytes arr (tds_numeric_bytes_per_prec ! precision n) packed_num \<rparr>))"

definition stringz_to_numeric :: "string \<Rightarrow> tds_numeric \<Rightarrow> conv_error + tds_numeric" where
  "stringz_to_numeric instr n = string_to_numeric (takeWhile (\<lambda>c. c \<noteq> NUL) instr) n"

subsection \<open>The syntax of numbers\<close>

declare dropWhile_eq_Nil_conv [simp del]

text \<open>\<open>" *[+-]? *[0-9]*(.[0-9]*)? *"\<close>, with \<open>ip\<close> before and \<open>fp\<close> after the dot.\<close>

definition number_text :: "bool \<Rightarrow> string \<Rightarrow> string option \<Rightarrow> string \<Rightarrow> bool" where
  "number_text negative ip fp s \<longleftrightarrow>
     list_all is_digit ip \<and> list_all is_digit (case fp of None \<Rightarrow> [] | Some f \<Rightarrow> f) \<and> (ip = [] \<longrightarrow> fp \<noteq> None) \<and>
     (\<exists>a b c sgn. s = replicate a blank @ sgn @ replicate b blank @ ip @ (case fp of None \<Rightarrow> [] | Some f \<Rightarrow> ''.'' @ f) @ replicate c blank \<and>
        (sgn = ''-'' \<and> negative \<or> sgn = ''+'' \<and> \<not> negative \<or> sgn = [] \<and> b = 0 \<and> \<not> negative))"

lemma read_nat_zeroes: "read_nat (dropWhile ((=) (CHR ''0'')) s) = read_nat s"
  by (induction s) (auto simp: read_nat_Cons digit_val_def)

lemma digit_not: "is_digit c \<Longrightarrow> c \<noteq> blank \<and> c \<noteq> CHR ''-'' \<and> c \<noteq> CHR ''+'' \<and> c \<noteq> CHR ''.''"
  by (auto simp: is_digit_def blank_def)

lemma not_digit: "\<not> is_digit blank" "\<not> is_digit (CHR ''.'')" "blank \<noteq> CHR ''0''" "blank \<noteq> CHR ''-''" "blank \<noteq> CHR ''+''" "blank \<noteq> CHR ''.''"
  by (simp_all add: is_digit_def blank_def)

lemma parse_number_text:
  assumes "number_text negative ip fp s"
  defines "f \<equiv> (case fp of None \<Rightarrow> [] | Some f \<Rightarrow> f)"
  defines "d \<equiv> dropWhile ((=) (CHR ''0'')) ip"
  shows "\<exists>start. parse_numeric s = Some (start, negative, length d, length f) \<and> take (length d) start = d \<and>
    take (length f) (drop (length d + 1) start) = f"
proof -
  define F where "F = (case fp of None \<Rightarrow> [] | Some f \<Rightarrow> ''.'' @ f)"
  obtain a b c sgn where s: "s = replicate a blank @ sgn @ replicate b blank @ ip @ F @ replicate c blank"
    and sgn: "sgn = ''-'' \<and> negative \<or> sgn = ''+'' \<and> \<not> negative \<or> sgn = [] \<and> b = 0 \<and> \<not> negative"
    and dg: "list_all is_digit ip" "list_all is_digit f" "ip = [] \<longrightarrow> fp \<noteq> None"
    using assms(1) by (auto simp: number_text_def F_def f_def)
  define Y where "Y = ip @ F @ replicate c blank"
  have Y: "Y \<noteq> []" "hd Y \<noteq> blank" "hd Y \<noteq> CHR ''-''" "hd Y \<noteq> CHR ''+''"
    using dg(1,3) digit_not not_digit by (cases ip; cases fp; auto simp: Y_def F_def blank_def)+
  have X: "dropWhile ((=) blank) s = sgn @ replicate b blank @ Y"
    unfolding s Y_def [symmetric] using sgn Y not_digit by (intro dropWhile_prefix) (auto simp: list_all_iff)
  have Z: "dropWhile ((=) blank) (replicate b blank @ Y) = Y"
    using Y(2) by (intro dropWhile_prefix) (auto simp: list_all_iff)
  have e0: "parse_numeric s = parse_digits negative Y"
    unfolding parse_numeric_def Let_def X using sgn Z Y not_digit by (auto)
  define T where "T = F @ replicate c blank"
  have e1: "dropWhile ((=) (CHR ''0'')) Y = d @ T"
    unfolding Y_def d_def T_def using not_digit
    by (cases "list_all ((=) (CHR ''0'')) ip") (auto simp: F_def list_all_iff dropWhile_append dropWhile_eq_Nil_conv split: option.splits)
  have "list_all is_digit d" using dg(1) by (auto simp: d_def list_all_iff dest: set_dropWhileD)
  then have e2: "dropWhile is_digit (d @ T) = T"
    using not_digit by (intro dropWhile_prefix) (cases fp; cases c; auto simp: F_def T_def)+
  have e3: "dropWhile is_digit (f @ replicate c blank) = replicate c blank"
    using dg(2) not_digit by (intro dropWhile_prefix) (cases c; auto)+
  have e4: "dropWhile ((=) blank) (replicate c blank) = []" by simp
  have "parse_digits negative Y = Some (d @ T, negative, length d, length f)"
  proof (cases fp)
    case None
    then have T: "T = replicate c blank" "f = []" "T = [] \<or> hd T \<noteq> CHR ''.''" using not_digit by (cases c; simp add: T_def F_def f_def)+
    then have "\<not> (T \<noteq> [] \<and> hd T = CHR ''.'')" "dropWhile ((=) blank) T = []" using e4 by auto
    then show ?thesis unfolding parse_digits_def Let_def e1 e2 using T(2) by auto
  next
    case (Some g)
    then have "T = CHR ''.'' # f @ replicate c blank" by (simp add: T_def F_def f_def)
    then show ?thesis unfolding parse_digits_def Let_def e1 e2 using e3 e4 by simp
  qed
  with e0 show ?thesis by (intro exI [of _ "d @ T"]) (cases fp; auto simp: T_def F_def f_def)
qed

text \<open>Nothing else is accepted, except a blank string.\<close>

lemma all_equal_replicate: "list_all ((=) x) xs \<Longrightarrow> xs = replicate (length xs) x"
  by (induction xs) auto

lemma parse_digits_text:
  assumes "parse_digits negative p = Some r" "p \<noteq> []" "p = [] \<or> hd p \<noteq> blank"
  shows "\<exists>ip fp c. p = ip @ (case fp of None \<Rightarrow> [] | Some f \<Rightarrow> ''.'' @ f) @ replicate c blank \<and> list_all is_digit ip \<and>
    list_all is_digit (case fp of None \<Rightarrow> [] | Some f \<Rightarrow> f) \<and> (ip = [] \<longrightarrow> fp \<noteq> None)"
proof -
  obtain z where z: "p = z @ dropWhile ((=) (CHR ''0'')) p" "list_all ((=) (CHR ''0'')) z" using dropWhile_split by blast
  define start where "start = dropWhile ((=) (CHR ''0'')) p"
  obtain d where d: "start = d @ dropWhile is_digit start" "list_all is_digit d" using dropWhile_split by blast
  define q where "q = dropWhile is_digit start"
  have ip: "p = (z @ d) @ q" "list_all is_digit (z @ d)"
    using z d by (auto simp: start_def [symmetric] q_def list_all_iff is_digit_def)
  show ?thesis
  proof (cases "q \<noteq> [] \<and> hd q = CHR ''.''")
    case True
    obtain f where f: "tl q = f @ dropWhile is_digit (tl q)" "list_all is_digit f" using dropWhile_split by blast
    have "dropWhile ((=) blank) (dropWhile is_digit (tl q)) = []"
      using assms(1) True by (auto simp: parse_digits_def Let_def start_def [symmetric] q_def [symmetric] split: if_splits)
    then have "dropWhile is_digit (tl q) = replicate (length (dropWhile is_digit (tl q))) blank"
      by (intro all_equal_replicate) (simp add: dropWhile_eq_Nil_conv list_all_iff)
    with f(1) True have "q = ''.'' @ f @ replicate (length (dropWhile is_digit (tl q))) blank" by (cases q) auto
    with ip f(2) show ?thesis by (intro exI [of _ "z @ d"] exI [of _ "Some f"] exI) auto
  next
    case False
    then have "dropWhile ((=) blank) q = []"
      using assms(1) by (auto simp: parse_digits_def Let_def start_def [symmetric] q_def [symmetric] split: if_splits)
    then have q: "q = replicate (length q) blank" by (intro all_equal_replicate) (simp add: dropWhile_eq_Nil_conv list_all_iff)
    have "z @ d \<noteq> []"
    proof
      assume e: "z @ d = []"
      with ip(1) assms(2,3) have "q \<noteq> []" "hd q \<noteq> blank" by auto
      with q show False by (metis hd_replicate length_0_conv)
    qed
    with ip q show ?thesis by (intro exI [of _ "z @ d"] exI [of _ None] exI [of _ "length q"]) auto
  qed
qed

lemma parse_numeric_text:
  assumes "parse_numeric s = Some r"
  shows "list_all ((=) blank) s \<or> (\<exists>negative ip fp. number_text negative ip fp s)"
proof (cases "dropWhile ((=) blank) s = []")
  case True
  then show ?thesis by (auto simp: dropWhile_eq_Nil_conv list_all_iff)
next
  case False
  define p where "p = dropWhile ((=) blank) s"
  have p: "p \<noteq> []" "hd p \<noteq> blank" using False hd_dropWhile [OF False] by (auto simp: p_def)
  obtain xs where "s = xs @ p" "list_all ((=) blank) xs" using dropWhile_split unfolding p_def by blast
  then have s: "s = replicate (length xs) blank @ p" using all_equal_replicate by metis
  define sgn where "sgn = (if hd p = CHR ''-'' \<or> hd p = CHR ''+'' then [hd p] else [])"
  define y where "y = (if sgn = [] then p else dropWhile ((=) blank) (tl p))"
  obtain b where b: "p = sgn @ replicate b blank @ y" "sgn = [] \<longrightarrow> b = 0"
  proof (cases "sgn = []")
    case True then show ?thesis using that [of 0] by (simp add: y_def)
  next
    case False
    obtain bs where "tl p = bs @ dropWhile ((=) blank) (tl p)" "list_all ((=) blank) bs" using dropWhile_split by blast
    then have "tl p = replicate (length bs) blank @ y" using False all_equal_replicate [of blank bs] by (simp add: y_def)
    moreover have "p = sgn @ tl p" using False p(1) by (cases p) (auto simp: sgn_def split: if_splits)
    ultimately show ?thesis using False by (intro that [of "length bs"]) simp_all
  qed
  have y: "y \<noteq> []" "parse_digits (hd p = CHR ''-'') y = Some r"
    using assms p(1) by (auto simp: parse_numeric_def Let_def p_def [symmetric] y_def sgn_def split: if_splits)
  moreover have "hd y \<noteq> blank" using p y(1) hd_dropWhile [of "(=) blank" "tl p"] by (auto simp: y_def)
  ultimately obtain ip fp c where ye: "y = ip @ (case fp of None \<Rightarrow> [] | Some f \<Rightarrow> ''.'' @ f) @ replicate c blank"
    and dg: "list_all is_digit ip" "list_all is_digit (case fp of None \<Rightarrow> [] | Some f \<Rightarrow> f)" "ip = [] \<longrightarrow> fp \<noteq> None"
    using parse_digits_text by blast
  have "s = replicate (length xs) blank @ sgn @ replicate b blank @ ip @ (case fp of None \<Rightarrow> [] | Some f \<Rightarrow> ''.'' @ f) @ replicate c blank"
    using s unfolding b(1) ye by simp
  moreover have "sgn = ''-'' \<and> hd p = CHR ''-'' \<or> sgn = ''+'' \<and> hd p \<noteq> CHR ''-'' \<or> sgn = [] \<and> b = 0 \<and> hd p \<noteq> CHR ''-''"
    using b(2) unfolding sgn_def by (auto split: if_splits)
  ultimately have "number_text (hd p = CHR ''-'') ip fp s"
    unfolding number_text_def using dg by blast
  then show ?thesis by blast
qed

lemma int_loop_val:
  assumes "list_all is_digit ds" "num \<le> 2147483649"
  shows "int_loop num ds =
    (if num * 10 ^ length ds + read_nat ds \<le> 2147483649 then Some (num * 10 ^ length ds + read_nat ds) else None)"
  using assms
proof (induction ds arbitrary: num)
  case (Cons c ds)
  define v where "v = (num * 10 + digit_val c) * 10 ^ length ds + read_nat ds"
  have v: "num * 10 ^ length (c # ds) + read_nat (c # ds) = v" by (simp add: v_def read_nat_Cons algebra_simps)
  have c: "digit_val c < 10" using Cons.prems(1) by simp
  show ?case
  proof (cases "214748364 < num")
    case True
    have "2147483649 < (num * 10 + digit_val c) * 1" using True by simp
    also have "\<dots> \<le> (num * 10 + digit_val c) * 10 ^ length ds" by (intro mult_le_mono2) simp
    also have "\<dots> \<le> v" by (simp add: v_def)
    finally have "2147483649 < v" .
    then show ?thesis unfolding v using True by simp
  next
    case False
    then have "num * 10 + digit_val c \<le> 2147483649" using c by simp
    with Cons.IH [of "num * 10 + digit_val c"] Cons.prems(1) False show ?thesis unfolding v by (simp add: v_def)
  qed
qed simp

lemma int8_loop_val:
  assumes "list_all is_digit ds" "num < 2 ^ 64"
  shows "int8_loop num ds =
    (if num * 10 ^ length ds + read_nat ds < 2 ^ 64 then Some (num * 10 ^ length ds + read_nat ds) else None)"
  using assms
proof (induction ds arbitrary: num)
  case (Cons c ds)
  define v where "v = (num * 10 + digit_val c) * 10 ^ length ds + read_nat ds"
  have v: "num * 10 ^ length (c # ds) + read_nat (c # ds) = v" by (simp add: v_def read_nat_Cons algebra_simps)
  have c: "digit_val c < 10" using Cons.prems(1) by simp
  have low: "(num * 10 + digit_val c) * 1 \<le> (num * 10 + digit_val c) * 10 ^ length ds" by (intro mult_le_mono2) simp
  show ?case
  proof (cases "num * 10 + digit_val c < 2 ^ 64")
    case True
    with Cons.IH [of "num * 10 + digit_val c"] Cons.prems(1) show ?thesis unfolding v by (simp add: v_def Let_def)
  next
    case False
    then have "2 ^ 64 \<le> (num * 10 + digit_val c) * 1" by simp
    also note low
    also have "(num * 10 + digit_val c) * 10 ^ length ds \<le> v" by (simp add: v_def)
    finally have "\<not> v < 2 ^ 64" by simp
    moreover have "int8_loop num (c # ds) = None"
    proof (cases "2 ^ 63 div 5 < num")
      case False
      with \<open>\<not> num * 10 + digit_val c < 2 ^ 64\<close> c have "num = 1844674407370955161" "6 \<le> digit_val c" by simp_all
      with c have "(num * 10 + digit_val c) mod 2 ^ 64 = digit_val c - 6" by (simp add: mod_if)
      moreover have "digit_val c - 6 < num" using c \<open>num = _\<close> by simp
      ultimately show ?thesis using False by (simp add: Let_def)
    qed simp
    ultimately show ?thesis unfolding v by simp
  qed
qed simp

subsection \<open>Packing eight digits in a word\<close>

primrec ones :: "nat \<Rightarrow> nat" where
  "ones 0 = 0"
| "ones (Suc n) = 10 * ones n + 1"

lemma ones_mono: "m \<le> n \<Longrightarrow> ones m \<le> ones n"
  by (induction n) (auto simp: le_Suc_eq)

lemma ones_values: "ones 7 = 1111111" "ones 8 = 11111111"
proof -
  have "ones (Suc (Suc (Suc (Suc (Suc (Suc (Suc 0))))))) = 1111111" by simp
  moreover have "7 = Suc (Suc (Suc (Suc (Suc (Suc (Suc 0))))))" by simp
  ultimately show 7: "ones 7 = 1111111" by metis
  have "ones 8 = ones (Suc 7)" by simp
  also have "\<dots> = 11111111" unfolding ones.simps 7 by simp
  finally show "ones 8 = 11111111" .
qed

lemma pack_digits:
  assumes "list_all is_digit s" "length s \<le> 8"
  shows "foldl (\<lambda>n c. (n * 10 + of_char c) mod 2 ^ 32) 0 s = read_nat s + 48 * ones (length s)"
  using assms
proof (induction s rule: rev_induct)
  case (snoc c s)
  have c: "of_char c = 48 + digit_val c" "digit_val c < 10" using snoc.prems(1) by (auto simp: is_digit_def digit_val_def)
  have "ones (length s) \<le> ones 7" using snoc.prems by (intro ones_mono) simp
  moreover have "(10 :: nat) ^ length s \<le> 10 ^ 7" using snoc.prems by (intro power_increasing) simp_all
  moreover have "read_nat s < 10 ^ length s" using snoc.prems by (intro read_nat_less) simp
  ultimately have "(read_nat s + 48 * ones (length s)) * 10 + (48 + digit_val c) < 2 ^ 32" using c(2) ones_values(1) by simp
  with snoc c(1) show ?case by (simp add: read_nat_snoc)
qed simp

lemma pack_eight_val:
  assumes "list_all is_digit s" "length s = 8"
  shows "pack_eight s = read_nat s" "read_nat s < 100000000"
proof -
  show b: "read_nat s < 100000000" using read_nat_less [OF assms(1)] assms(2) by simp
  show "pack_eight s = read_nat s"
    using pack_digits [OF assms(1)] assms(2) ones_values(2) b by (simp add: pack_eight_def)
qed

lemma pack8_val:
  assumes "list_all is_digit m" "8 \<le> length m"
  shows "list_all (\<lambda>w. w < 100000000) (pack8 m) \<and> pack8 m \<noteq> [] \<and>
    (\<exists>k \<le> 8. read_nat m = le_val 100000000 (pack8 m) + 100000000 ^ length (pack8 m) * read_nat (take k m))"
  using assms
proof (induction m rule: pack8.induct)
  case (1 m)
  define a where "a = take (length m - 8) m"
  define b where "b = drop (length m - 8) m"
  have m: "m = a @ b" "length b = 8" "length a = length m - 8" using 1(3) by (simp_all add: a_def b_def)
  have dg: "list_all is_digit a" "list_all is_digit b" using 1(2) unfolding m(1) by simp_all
  note pb = pack_eight_val [OF dg(2) m(2)]
  have r: "read_nat m = read_nat a * 100000000 + read_nat b" by (subst m(1)) (simp add: read_nat_append m(2))
  have u: "pack8 m = read_nat b # (if 16 < length m then pack8 a else [])"
    by (subst pack8.simps) (simp add: a_def [symmetric] b_def [symmetric] pb(1))
  show ?case
  proof (cases "16 < length m")
    case True
    with 1(1) [OF True, folded a_def] dg(1) m(3) obtain k where k: "list_all (\<lambda>w. w < 100000000) (pack8 a)" "k \<le> 8"
      "read_nat a = le_val 100000000 (pack8 a) + 100000000 ^ length (pack8 a) * read_nat (take k a)"
      by fastforce
    have "k \<le> length a" using k(2) True m(3) by simp
    then have "take k m = take k a" by (subst m(1)) simp
    moreover have "read_nat m = le_val 100000000 (read_nat b # pack8 a) + 100000000 ^ length (read_nat b # pack8 a) * read_nat (take k a)"
      unfolding r k(3) by (simp add: algebra_simps)
    ultimately have ex: "\<exists>k \<le> 8. read_nat m =
        le_val 100000000 (read_nat b # pack8 a) + 100000000 ^ length (read_nat b # pack8 a) * read_nat (take k m)"
      using k(2) by metis
    have pm: "pack8 m = read_nat b # pack8 a" using u True by simp
    have "list_all (\<lambda>w. w < 100000000) (read_nat b # pack8 a)" using k(1) pb(2) by simp
    with ex show ?thesis unfolding pm by blast
  next
    case False
    then have "length a \<le> 8" using m(3) by simp
    moreover have "take (length a) m = a" unfolding m(3) by (simp add: a_def)
    moreover have "read_nat m = le_val 100000000 [read_nat b] + 100000000 ^ length [read_nat b] * read_nat a" unfolding r by simp
    ultimately have "\<exists>k \<le> 8. read_nat m = le_val 100000000 [read_nat b] + 100000000 ^ length [read_nat b] * read_nat (take k m)" by metis
    then show ?thesis unfolding u using False pb(2) by simp
  qed
qed

subsection \<open>Dividing by 256\<close>

lemma div256_val:
  assumes "list_all (\<lambda>w. w < 100000000) ws" "div256 ws = (q, c)"
  shows "list_all (\<lambda>w. w < 100000000) q \<and> length q = length ws \<and> c < 256 \<and>
    le_val 100000000 ws = 256 * le_val 100000000 q + c \<and> (ws \<noteq> [] \<longrightarrow> last q = last ws div 256)"
  using assms
proof (induction ws arbitrary: q c)
  case (Cons t ws)
  obtain q' c' where d: "div256 ws = (q', c')" by fastforce
  with Cons have IH: "list_all (\<lambda>w. w < 100000000) q'" "length q' = length ws" "c' < 256"
    "le_val 100000000 ws = 256 * le_val 100000000 q' + c'" "ws \<noteq> [] \<longrightarrow> last q' = last ws div 256"
    by simp_all
  have t: "t < 100000000" using Cons.prems(1) by simp
  then have "t div 256 \<le> 390624" by (simp add: less_Suc_eq_le [symmetric] div_less_iff_less_mult)
  then have n: "c' * 390625 + t div 256 < 100000000" using IH(3) by simp
  have q: "q = (c' * 390625 + t div 256) # q'" "c = t mod 256" using Cons.prems(2) d n by simp_all
  have "c' = 0" if "ws = []" using d that by simp
  then have "last q = last (t # ws) div 256" using IH(2,5) by (cases "ws = []") (auto simp: q)
  with IH n show ?case by (simp add: q)
qed simp

lemma put_bytes_val:
  assumes "list_all (\<lambda>w. w < 100000000) ws" "le_val 100000000 ws < 256 ^ bytes" "Suc bytes \<le> length arr"
    "take bytes (drop 1 arr) = replicate bytes 0"
  shows "length (put_bytes arr (Suc bytes) ws) = length arr \<and> put_bytes arr (Suc bytes) ws ! 0 = arr ! 0 \<and>
    drop (Suc bytes) (put_bytes arr (Suc bytes) ws) = drop (Suc bytes) arr \<and>
    bytes_val (take bytes (drop 1 (put_bytes arr (Suc bytes) ws))) = le_val 100000000 ws"
  using assms
proof (induction bytes arbitrary: arr ws)
  case 0
  then have "le_val 100000000 ws = 0" by simp
  then have "list_all ((=) 0) ws" by (induction ws) auto
  with 0 show ?case by simp
next
  case (Suc b)
  show ?case
  proof (cases "list_all ((=) 0) ws")
    case True
    then have "le_val 100000000 ws = 0" by (induction ws) auto
    moreover have "bytes_val (replicate (Suc b) 0) = 0" using bytes_val_replicate_zero [of "Suc b" "[]"] by simp
    ultimately show ?thesis using True Suc.prems(4) by (simp del: replicate.simps)
  next
    case False
    then have ne: "ws \<noteq> []" by auto
    obtain q c where d: "div256 ws = (q, c)" by fastforce
    define q' where "q' = (if last ws = 0 then butlast q else q)"
    note dv = div256_val [OF Suc.prems(1) d]
    have lq: "le_val 100000000 q' = le_val 100000000 q \<and> list_all (\<lambda>w. w < 100000000) q'"
    proof (cases "last ws = 0")
      case True
      with dv ne have "q \<noteq> []" "last q = 0" by auto
      then have "q = butlast q @ [0]" by (metis append_butlast_last_id)
      then have "le_val 100000000 q = le_val 100000000 (butlast q)" by (metis le_val_append le_val.simps mult_0_right add_0_right)
      with True dv show ?thesis by (auto simp: q'_def list_all_iff dest: in_set_butlastD)
    qed (use dv in \<open>simp add: q'_def\<close>)
    define arr1 where "arr1 = arr [Suc b := u8_of c]"
    have "le_val 100000000 q' < 256 ^ b" using lq dv Suc.prems(2) by simp
    moreover have "take b (drop 1 arr1) = replicate b 0"
    proof -
      have "take b (drop 1 arr1) = take b (drop 1 arr)" by (simp add: arr1_def drop_update_swap)
      also have "\<dots> = take b (take (Suc b) (drop 1 arr))" by simp
      finally show ?thesis unfolding Suc.prems(4) by (simp add: take_replicate del: replicate.simps)
    qed
    ultimately have IH: "length (put_bytes arr1 (Suc b) q') = length arr" "put_bytes arr1 (Suc b) q' ! 0 = arr ! 0"
      "drop (Suc b) (put_bytes arr1 (Suc b) q') = drop (Suc b) arr1"
      "bytes_val (take b (drop 1 (put_bytes arr1 (Suc b) q'))) = le_val 100000000 q'"
      using Suc.IH [of q' arr1] lq Suc.prems(3) by (simp_all add: arr1_def del: put_bytes.simps)
    define res where "res = put_bytes arr1 (Suc b) q'"
    have r: "put_bytes arr (Suc (Suc b)) ws = res" using False d by (simp add: res_def q'_def arr1_def del: put_bytes.simps(2) add: put_bytes.simps(2) [of arr])
    have l: "Suc b < length res" using IH(1) Suc.prems(3) by (simp add: res_def)
    have "res ! Suc b = drop (Suc b) res ! 0" using l by simp
    also have "\<dots> = u8_of c" unfolding res_def IH(3) using Suc.prems(3) by (simp add: arr1_def)
    finally have n: "res ! Suc b = u8_of c" .
    have "drop (Suc (Suc b)) res = drop 1 (drop (Suc b) res)" by simp
    also have "\<dots> = drop (Suc (Suc b)) arr" unfolding res_def IH(3) by (simp add: arr1_def)
    finally have dr: "drop (Suc (Suc b)) res = drop (Suc (Suc b)) arr" .
    have "take (Suc b) (drop 1 res) = take b (drop 1 res) @ [u8_of c]" using l n by (simp add: take_Suc_conv_app_nth)
    then have "bytes_val (take (Suc b) (drop 1 res)) = le_val 100000000 q * 256 + c"
      using IH(4) lq dv by (simp add: res_def bytes_val_append bytes_val_Cons)
    then show ?thesis unfolding r using IH(1,2) dr dv by (simp add: res_def)
  qed
qed

subsection \<open>Properties\<close>

text \<open>The first \<open>sc\<close> decimals as a number.\<close>

definition decimals_val :: "nat \<Rightarrow> string option \<Rightarrow> nat" where
  "decimals_val sc fp =
     (let f = (case fp of None \<Rightarrow> [] | Some f \<Rightarrow> f)
      in read_nat (take sc f @ replicate (sc - length f) (CHR ''0'')))"

lemma decimals_val_less:
  assumes "list_all is_digit (case fp of None \<Rightarrow> [] | Some f \<Rightarrow> f)" shows "decimals_val sc fp < 10 ^ sc"
proof -
  let ?f = "case fp of None \<Rightarrow> [] | Some f \<Rightarrow> f"
  let ?s = "take sc ?f @ replicate (sc - length ?f) (CHR ''0'')"
  have "list_all is_digit ?s" using assms by (auto simp: list_all_iff is_digit_def dest: in_set_takeD)
  moreover have "length ?s = sc" by simp
  ultimately show ?thesis using read_nat_less [of ?s] by (simp add: decimals_val_def Let_def)
qed

lemma string_to_numeric_text:
  assumes nt: "number_text negative ip fp s" and ps: "\<not> bad_prec_scale (precision n) (scale n)"
  shows "if length (dropWhile ((=) (CHR ''0'')) ip) \<le> precision n - scale n
    then \<exists>n'. string_to_numeric s n = Inr n' \<and> numeric_ok n' \<and> precision n' = precision n \<and> scale n' = scale n \<and>
      array n' ! 0 = (if negative then 1 else 0) \<and> magnitude n' = read_nat ip * 10 ^ scale n + decimals_val (scale n) fp
    else string_to_numeric s n = Inl TDS_CONVERT_OVERFLOW"
proof -
  define d where "d = dropWhile ((=) (CHR ''0'')) ip"
  define f where "f = (case fp of None \<Rightarrow> [] | Some f \<Rightarrow> f)"
  obtain start where st: "parse_numeric s = Some (start, negative, length d, length f)" "take (length d) start = d"
    "take (length f) (drop (length d + 1) start) = f"
    using parse_number_text [OF nt] unfolding d_def f_def by blast
  have dg: "list_all is_digit d" "list_all is_digit f" "list_all is_digit (case fp of None \<Rightarrow> [] | Some f \<Rightarrow> f)"
    using nt by (auto simp: number_text_def d_def f_def list_all_iff dest: set_dropWhileD)
  have p: "1 \<le> precision n" "precision n \<le> 77" "scale n \<le> precision n" "precision n \<noteq> 0"
    using ps by (auto simp: bad_prec_scale_def MAXPRECISION_def)
  show ?thesis
  proof (cases "length d \<le> precision n - scale n")
    case False
    then show ?thesis using st(1) p by (simp add: string_to_numeric_def Let_def MAXPRECISION_def d_def [symmetric])
  next
    case True
    define sc where "sc = scale n"
    define fr where "fr = take sc f @ replicate (sc - length f) (CHR ''0'')"
    define my where "my = replicate 8 (CHR ''0'') @ d @ fr"
    define pk where "pk = strip_high (pack8 my)"
    have "take (min (length f) sc) (drop (length d + 1) start) = take sc f" using st(3) by (metis take_take min.commute)
    then have my: "my = replicate 8 (CHR ''0'') @ take (length d) start @ take (min (length f) sc) (drop (length d + 1) start) @
        replicate (sc - min (length f) sc) (CHR ''0'')"
      unfolding my_def fr_def st(2) by (simp add: min_def)
    have frl: "length fr = sc" "read_nat fr = decimals_val sc fp" by (simp_all add: fr_def decimals_val_def f_def Let_def)
    have "list_all is_digit my" using dg(1,2) by (auto simp: my_def fr_def list_all_iff is_digit_def dest: in_set_takeD)
    moreover have "8 \<le> length my" by (simp add: my_def)
    ultimately obtain k where pb: "list_all (\<lambda>w. w < 100000000) (pack8 my)" "pack8 my \<noteq> []" "k \<le> 8"
      "read_nat my = le_val 100000000 (pack8 my) + 100000000 ^ length (pack8 my) * read_nat (take k my)"
      using pack8_val by blast
    have z: "read_nat (replicate j (CHR ''0'')) = 0" for j by (induction j) (simp_all add: read_nat_Cons digit_val_def)
    have "take k my = replicate k (CHR ''0'')" using pb(3) by (simp add: my_def min_absorb1 take_replicate)
    with pb(4) z have "le_val 100000000 (pack8 my) = read_nat my" by simp
    also have "\<dots> = read_nat ip * 10 ^ sc + decimals_val sc fp"
      by (simp only: my_def read_nat_append z frl d_def read_nat_zeroes mult_0 add_0)
    finally have v: "le_val 100000000 (pack8 my) = read_nat ip * 10 ^ sc + decimals_val sc fp" .
    note sh = strip_high_val [OF pb(2), of 100000000]
    have w: "list_all (\<lambda>w. w < 100000000) pk" using sh pb(1) by (auto simp: pk_def list_all_iff)
    have "read_nat d < 10 ^ length d" by (rule read_nat_less [OF dg(1)])
    also have "\<dots> \<le> 10 ^ (precision n - sc)" using True by (intro power_increasing) (simp_all add: sc_def)
    finally have "Suc (read_nat ip) \<le> 10 ^ (precision n - sc)" by (simp add: d_def read_nat_zeroes)
    then have "Suc (read_nat ip) * 10 ^ sc \<le> 10 ^ (precision n - sc) * 10 ^ sc" by (rule mult_le_mono1)
    also have "\<dots> = 10 ^ precision n" using p(3) by (simp add: power_add [symmetric] sc_def)
    finally have lim: "le_val 100000000 pk < 10 ^ precision n"
      using decimals_val_less [OF dg(3), of sc] sh v by (simp add: pk_def)
    obtain b where b: "tds_numeric_bytes_per_prec ! precision n = Suc b" "b \<le> 32" "10 ^ precision n \<le> (256 :: nat) ^ b"
      using bytes_per_prec [OF p(1,2)] by (cases "tds_numeric_bytes_per_prec ! precision n") auto
    define arr where "arr = (if negative then 1 else 0) # replicate 32 (0 :: byte)"
    have "take b (drop 1 arr) = replicate b 0" using b(2) by (simp add: arr_def take_replicate)
    with put_bytes_val [OF w, of b arr] lim b have pv: "length (put_bytes arr (Suc b) pk) = 33"
      "put_bytes arr (Suc b) pk ! 0 = (if negative then 1 else 0)"
      "bytes_val (take b (drop 1 (put_bytes arr (Suc b) pk))) = read_nat ip * 10 ^ sc + decimals_val sc fp"
      using sh v by (simp_all add: arr_def pk_def del: put_bytes.simps)
    have "string_to_numeric s n = Inr (n \<lparr> array := put_bytes arr (Suc b) pk \<rparr>)"
      using True p st(1) b(1) unfolding string_to_numeric_def Let_def pk_def my arr_def
      by (simp add: MAXPRECISION_def sc_def min.commute del: put_bytes.simps)
    moreover have "magnitude (n \<lparr> array := put_bytes arr (Suc b) pk \<rparr>) = read_nat ip * 10 ^ sc + decimals_val sc fp"
      using pv(3) by (simp add: magnitude_def b(1) del: put_bytes.simps)
    ultimately show ?thesis
      using True pv(1,2) ps lim sh v by (simp add: numeric_ok_def d_def sc_def pk_def del: put_bytes.simps)
  qed
qed

text \<open>C33: \<open>string_to_numeric\<close> reads a number exactly: for a legal precision and scale the result is legal and holds the
  integral part and the decimals the scale keeps, with the sign of the text; when the integral part
  has more digits than the precision leaves it reports an overflow.\<close>

theorem string_to_numeric_correct:
  assumes "number_text negative ip fp s" "\<not> bad_prec_scale (precision n) (scale n)"
  shows "case string_to_numeric s n of
      Inl e \<Rightarrow> e = TDS_CONVERT_OVERFLOW \<and> precision n - scale n < length (dropWhile ((=) (CHR ''0'')) ip)
    | Inr n' \<Rightarrow> numeric_ok n' \<and> precision n' = precision n \<and> scale n' = scale n \<and>
        array n' ! 0 = (if negative then 1 else 0) \<and> magnitude n' = read_nat ip * 10 ^ scale n + decimals_val (scale n) fp"
  using string_to_numeric_text [OF assms]
  by (cases "length (dropWhile ((=) (CHR ''0'')) ip) \<le> precision n - scale n") auto

text \<open>C8: printing a legal number and reading the string back with the same precision and scale gives the same number.\<close>

theorem numeric_string_roundtrip:
  assumes "numeric_ok n"
  shows "\<exists>s n'. tds_numeric_to_string n = Some s \<and> string_to_numeric s n = Inr n' \<and> numeric_ok n' \<and>
    precision n' = precision n \<and> scale n' = scale n \<and> array n' ! 0 = array n ! 0 \<and> magnitude n' = magnitude n"
proof -
  define m where "m = magnitude n div 10 ^ scale n"
  define fp where "fp = (if scale n = 0 then None else Some (dec (scale n) (magnitude n)))"
  define s where "s = (if array n ! 0 = 1 then ''-'' else []) @ decimal (scale n) (magnitude n)"
  have ok: "\<not> bad_prec_scale (precision n) (scale n)" "magnitude n < 10 ^ precision n" "length (array n) = 33" "array n ! 0 \<in> {0, 1}"
    using assms by (simp_all add: numeric_ok_def)
  then have sp: "scale n \<le> precision n" by (simp add: bad_prec_scale_def)
  have "number_text (array n ! 0 = 1) (show_nat m) fp s"
    unfolding number_text_def s_def decimal_def fp_def m_def
    by (intro conjI exI [of _ 0] exI [of _ "if array n ! 0 = 1 then ''-'' else []"]) (auto simp: show_nat_digits)
  note r = string_to_numeric_text [OF this ok(1)]
  have "(10 :: nat) ^ precision n = 10 ^ (precision n - scale n) * 10 ^ scale n" using sp by (simp add: power_add [symmetric])
  then have mb: "m < 10 ^ (precision n - scale n)" using ok(2) by (simp add: m_def div_less_iff_less_mult)
  have "length (dropWhile ((=) (CHR ''0'')) (show_nat m)) \<le> precision n - scale n"
  proof (cases "precision n - scale n")
    case 0
    with mb show ?thesis by (simp add: show_nat_0)
  next
    case (Suc k)
    have "length (show_nat m) \<le> Suc k" using show_nat_length [OF mb] Suc by simp
    with length_dropWhile_le [of "(=) (CHR ''0'')" "show_nat m"] Suc show ?thesis by simp
  qed
  moreover have "decimals_val (scale n) fp = magnitude n mod 10 ^ scale n"
    by (simp add: decimals_val_def fp_def read_dec)
  then have "read_nat (show_nat m) * 10 ^ scale n + decimals_val (scale n) fp = magnitude n" by (simp add: m_def div_mult_mod_eq)
  ultimately have "\<exists>n'. string_to_numeric s n = Inr n' \<and> numeric_ok n' \<and> precision n' = precision n \<and> scale n' = scale n \<and>
      array n' ! 0 = array n ! 0 \<and> magnitude n' = magnitude n"
    using r ok(4) by auto
  moreover have "tds_numeric_to_string n = Some s" unfolding s_def by (rule to_string_decimal [OF ok(1,3)])
  ultimately show ?thesis by blast
qed

lemma string_to_integers:
  assumes "number_text negative ip fp s" "v = (if negative then - int (read_nat ip) else int (read_nat ip))"
  shows "string_to_int s = (if - (2 ^ 31) \<le> v \<and> v < 2 ^ 31 then Inr v else Inl TDS_CONVERT_OVERFLOW) \<and>
    string_to_int8 s = (if - (2 ^ 63) \<le> v \<and> v < 2 ^ 63 then Inr v else Inl TDS_CONVERT_OVERFLOW) \<and>
    string_to_uint8 s = (if 0 \<le> v \<and> v < 2 ^ 64 then Inr (nat v) else Inl TDS_CONVERT_OVERFLOW)"
proof -
  define d where "d = dropWhile ((=) (CHR ''0'')) ip"
  obtain start k where st: "parse_numeric s = Some (start, negative, length d, k)" "take (length d) start = d"
    using parse_number_text [OF assms(1)] unfolding d_def by blast
  have dg: "list_all is_digit d" using assms(1) by (auto simp: number_text_def d_def list_all_iff dest: set_dropWhileD)
  have r: "read_nat d = read_nat ip" by (simp add: d_def read_nat_zeroes)
  note l = int_loop_val [OF dg, of 0] int8_loop_val [OF dg, of 0]
  have "string_to_int s = (if - (2 ^ 31) \<le> v \<and> v < 2 ^ 31 then Inr v else Inl TDS_CONVERT_OVERFLOW)"
    using st l(1) r by (cases negative) (simp_all add: string_to_int_def assms(2))
  moreover have "string_to_int8 s = (if - (2 ^ 63) \<le> v \<and> v < 2 ^ 63 then Inr v else Inl TDS_CONVERT_OVERFLOW)"
    using st l(2) r by (cases negative) (simp_all add: string_to_int8_def parse_int8_def assms(2))
  moreover have "string_to_uint8 s = (if 0 \<le> v \<and> v < 2 ^ 64 then Inr (nat v) else Inl TDS_CONVERT_OVERFLOW)"
    using st l(2) r by (cases negative) (simp_all add: string_to_uint8_def parse_int8_def assms(2))
  ultimately show ?thesis by blast
qed

text \<open>C21: the integer readers are exact. The integral part of a number text is the result when it is in the range
  of the type, otherwise the result is an overflow, whatever the number of digits.\<close>

theorem string_to_integers_exact:
  assumes "number_text negative ip fp s" "v = (if negative then - int (read_nat ip) else int (read_nat ip))"
  shows "string_to_int s = (if - (2 ^ 31) \<le> v \<and> v < 2 ^ 31 then Inr v else Inl TDS_CONVERT_OVERFLOW) \<and>
    string_to_int8 s = (if - (2 ^ 63) \<le> v \<and> v < 2 ^ 63 then Inr v else Inl TDS_CONVERT_OVERFLOW) \<and>
    string_to_uint8 s = (if 0 \<le> v \<and> v < 2 ^ 64 then Inr (nat v) else Inl TDS_CONVERT_OVERFLOW)"
  using assms by (rule string_to_integers)


subsection \<open>Examples\<close>

lemma demo_text: "number_text True ''0123'' (Some ''456'') '' - 0123.456 ''"
  unfolding number_text_def
  by (intro conjI exI [of _ 1] exI [of _ "''-''"]) (simp_all add: is_digit_def blank_def)

theorem string_to_numeric_correct_witness:
  "\<exists>n'. string_to_numeric '' - 0123.456 '' demo_numeric = Inr n' \<and> magnitude n' = 12345"
proof -
  have "\<not> bad_prec_scale (precision demo_numeric) (scale demo_numeric)" using demo_numeric_ok(1) by (simp add: numeric_ok_def)
  note string_to_numeric_correct [OF demo_text this]
  moreover have "precision demo_numeric = 5" "scale demo_numeric = 2" by (simp_all add: demo_numeric_def)
  moreover have "read_nat ''0123'' = 123" "decimals_val 2 (Some ''456'') = 45"
    by (simp_all add: read_nat_def decimals_val_def digit_val_def)
  ultimately show ?thesis by (simp split: sum.splits)
qed

theorem numeric_string_roundtrip_witness:
  "\<exists>s n'. tds_numeric_to_string demo_numeric = Some s \<and> string_to_numeric s demo_numeric = Inr n' \<and> magnitude n' = 12345"
  using numeric_string_roundtrip [OF demo_numeric_ok(1)] demo_numeric_ok(2) by auto

theorem string_to_integers_exact_witness: "string_to_int '' - 0123.456 '' = Inr (- 123)"
  using string_to_integers_exact [OF demo_text, of "- 123"] by (simp add: read_nat_def digit_val_def)

end
