(* ===== verification/Calendar.thy ===== *)
theory Calendar
  imports Bytes
begin

text \<open>
  Dates and times: \<open>tds_datecrack\<close> of \<open>src/tds/convert.c\<close> takes the date types of the servers apart. The
  reference is the Gregorian calendar, as day numbers that count from 1900-01-01.

  \<open>int\<close> in the model is C's \<open>int\<close>: for the dates the servers know (the years 1 to 9999) no intermediate result leaves
  32 bits. \<open>unsigned int\<close> is a \<open>nat\<close> with its wrap-around written out.
\<close>

subsection \<open>Data\<close>

record tds_datetimeall =
  dta_time :: "64 word"
  dta_date :: "32 word"
  offset :: "16 word"
  time_prec :: nat
  has_time :: bool
  has_date :: bool
  has_offset :: bool

record tdsdaterec =
  year :: int
  quarter :: int
  month :: int
  day :: int
  dayofyear :: int
  weekday :: int
  hour :: int
  minute :: int
  second :: int
  decimicrosecond :: int
  timezone :: int

text \<open>\<open>datetype\<close> with the data \<open>di\<close> points to.\<close>

datatype date_info =
    Di_msdate tds_datetimeall | Di_mstime tds_datetimeall | Di_msdatetime2 tds_datetimeall | Di_msdatetimeoffset tds_datetimeall
  | Di_datetime "32 word" "32 word" | Di_datetime4 "16 word" "16 word" | Di_date "32 word" | Di_time "32 word"
  | Di_bigtime "64 word" | Di_bigdatetime "64 word" | Di_other

definition BIGDATETIME_BIAS :: int where
  "BIGDATETIME_BIAS = 693961"

text \<open>C's division and remainder by a positive number.\<close>

definition quot :: "int \<Rightarrow> int \<Rightarrow> int" where
  "quot a b = (if a < 0 then - (- a div b) else a div b)"

definition crem :: "int \<Rightarrow> int \<Rightarrow> int" where
  "crem a b = a - quot a b * b"

lemma quot_nonneg [simp]: "0 \<le> a \<Longrightarrow> quot a b = a div b"
  by (simp add: quot_def)

lemma crem_nonneg [simp]: "0 \<le> a \<Longrightarrow> crem a b = a mod b"
  by (simp add: crem_def minus_div_mult_eq_mod)

subsection \<open>\<open>tds_datecrack\<close>\<close>

text \<open>The number of days, the minutes, the seconds, the fraction in units of 100 ns and the time zone of a date.\<close>

definition split_300 :: "nat \<Rightarrow> nat \<times> nat \<times> nat" where
  "split_300 dt_time =
     (let dms = (dt_time mod 300 * 1000 + 150) div 300 * 10000;
          dt_time = dt_time div 300
      in (dt_time div 60, dt_time mod 60, dms))"

definition split_dta :: "tds_datetimeall \<Rightarrow> nat \<times> nat \<times> nat" where
  "split_dta dta =
     (let dms = unat (dta_time dta) mod 10000000;
          dt_time = unat (dta_time dta) div 10000000 mod 2 ^ 32
      in (dt_time div 60, dt_time mod 60, dms))"

definition crack_parts :: "date_info \<Rightarrow> (int \<times> nat \<times> nat \<times> nat \<times> int) option" where
  "crack_parts di =
     (case di of
        Di_msdate dta \<Rightarrow> Some (sint (dta_date dta), 0, 0, 0, 0)
      | Di_mstime dta \<Rightarrow> (case split_dta dta of (dt_time, secs, dms) \<Rightarrow> Some (0, dt_time, secs, dms, 0))
      | Di_msdatetime2 dta \<Rightarrow> (case split_dta dta of (dt_time, secs, dms) \<Rightarrow> Some (sint (dta_date dta), dt_time, secs, dms, 0))
      | Di_msdatetimeoffset dta \<Rightarrow>
          (case split_dta dta of (dt_time, secs, dms) \<Rightarrow>
             let dt_days = sint (dta_date dta) - 1;
                 dt_time = nat ((int dt_time + 1440 + sint (offset dta)) mod 2 ^ 32)
             in Some (dt_days + int (dt_time div 1440), dt_time mod 1440, secs, dms, sint (offset dta)))
      | Di_datetime dtdays dttime \<Rightarrow> (case split_300 (unat dttime) of (dt_time, secs, dms) \<Rightarrow> Some (sint dtdays, dt_time, secs, dms, 0))
      | Di_datetime4 days minutes \<Rightarrow> Some (int (unat days), unat minutes, 0, 0, 0)
      | Di_date date \<Rightarrow> Some (sint date, 0, 0, 0, 0)
      | Di_time time \<Rightarrow> (case split_300 (unat time) of (dt_time, secs, dms) \<Rightarrow> Some (0, dt_time, secs, dms, 0))
      | Di_bigtime bigtime \<Rightarrow>
          let dms = unat bigtime mod 1000000 * 10;
              dt_time = unat bigtime div 1000000 mod 86400
          in Some (0, dt_time div 60, dt_time mod 60, dms, 0)
      | Di_bigdatetime bigdatetime \<Rightarrow>
          let dms = unat bigdatetime mod 1000000 * 10;
              b = unat bigdatetime div 1000000;
              secs = b mod 60;
              b = b div 60
          in Some (sint (word_of_int (int (b div 1440) - BIGDATETIME_BIAS) :: 32 word), b mod 1440, secs, dms, 0)
      | Di_other \<Rightarrow> None)"

text \<open>Year, month (0 to 11), day, day of the year and day of the week of a number of days.\<close>

definition crack_days :: "int \<Rightarrow> int \<times> int \<times> int \<times> int \<times> int" where
  "crack_days dt_days =
     (let l = dt_days + (146038 + 146097 * 4);
          wday = crem (l + 4) 7;
          n = quot (4 * l) 146097;
          l = l - quot (146097 * n + 3) 4;
          i = quot (4000 * (l + 1)) 1461001;
          l = l - quot (1461 * i) 4;
          ydays = (if 306 \<le> l then l - 305 else l + 60);
          l = l + 31;
          j = quot (80 * l) 2447;
          days = l - quot (2447 * j) 80;
          l = quot j 11;
          months = j + 1 - 12 * l;
          years = 100 * (n - 1) + i + l;
          ydays = (if l = 0 \<and> years AND 3 = 0 \<and> (crem years 100 \<noteq> 0 \<or> crem years 400 = 0) then ydays + 1 else ydays)
      in (years, months, days, ydays, wday))"

definition tds_datecrack :: "date_info \<Rightarrow> tdsdaterec option" where
  "tds_datecrack di =
     (case crack_parts di of
        None \<Rightarrow> None
      | Some (dt_days, dt_time, secs, dms, tzone) \<Rightarrow>
          (case crack_days dt_days of (years, months, days, ydays, wday) \<Rightarrow>
             Some \<lparr> year = years, quarter = quot months 3, month = months, day = days, dayofyear = ydays, weekday = wday,
                    hour = int (dt_time div 60), minute = int (dt_time mod 60), second = int secs, decimicrosecond = int dms,
                    timezone = tzone \<rparr>))"

subsection \<open>The Gregorian calendar\<close>

definition leap_year :: "int \<Rightarrow> bool" where
  "leap_year y \<longleftrightarrow> 4 dvd y \<and> (\<not> 100 dvd y \<or> 400 dvd y)"

text \<open>The lengths of the months 0 to 11.\<close>

definition month_lengths :: "int \<Rightarrow> int list" where
  "month_lengths y = [31, if leap_year y then 29 else 28, 31, 30, 31, 30, 31, 31, 30, 31, 30, 31]"

definition valid_date :: "int \<Rightarrow> nat \<Rightarrow> int \<Rightarrow> bool" where
  "valid_date y m d \<longleftrightarrow> m < 12 \<and> 1 \<le> d \<and> d \<le> month_lengths y ! m"

definition day_of_year :: "int \<Rightarrow> nat \<Rightarrow> int \<Rightarrow> int" where
  "day_of_year y m d = sum_list (take m (month_lengths y)) + d"

text \<open>The number of leap years up to \<open>y\<close>, and the days from 1900-01-01, a Monday.\<close>

definition leap_years :: "int \<Rightarrow> int" where
  "leap_years y = y div 4 - y div 100 + y div 400"

definition day_number :: "int \<Rightarrow> nat \<Rightarrow> int \<Rightarrow> int" where
  "day_number y m d = 365 * (y - 1900) + (leap_years (y - 1) - leap_years 1899) + day_of_year y m d - 1"

end
