(* ===== verification/Convert.thy ===== *)
theory Convert
  imports Rescale_Correct Parse_Number Calendar
begin

text \<open>
  Conversions between data types: \<open>tds_convert\<close> of \<open>src/tds/convert.c\<close> with the conversions from and to integers,
  bits, money, exact numbers, strings, binary data and unique identifiers.

  The union \<open>CONV_RESULT\<close> comes in with the sizes of the caller's buffers and the wanted precision and scale
  (\<open>conv_in\<close>) and goes out with one member set (\<open>cr\<close>). Conversions to floating point are kept symbolic
  (\<open>fp\<close>). Parameters (\<open>conv_env\<close>) are the result of \<open>malloc\<close>, the generated size table and the generated tables of powers of
  ten, \<open>strtod\<close>, the date formats of the configuration, the conversion specifications of \<open>strftime\<close> that depend on the
  locale, and what an uninitialised text on the stack holds.
\<close>

subsection \<open>Types and results\<close>

datatype server_type =
    SYBCHAR | SYBVARCHAR | SYBINTN | SYBINT1 | SYBINT2 | SYBINT4 | SYBFLT8 | SYBDATETIME | SYBBIT | SYBTEXT | SYBNTEXT
  | SYBIMAGE | SYBMONEY4 | SYBMONEY | SYBDATETIME4 | SYBREAL | SYBBINARY | SYBVOID | SYBVARBINARY | SYBBITN | SYBNUMERIC
  | SYBDECIMAL | SYBFLTN | SYBMONEYN | SYBDATETIMN | SYBINT8 | XSYBCHAR | XSYBVARCHAR | XSYBNVARCHAR | XSYBNCHAR
  | XSYBVARBINARY | XSYBBINARY | SYBUNIQUE | SYBVARIANT | SYBMSUDT | SYBMSXML | SYBMSDATE | SYBMSTIME | SYBMSDATETIME2
  | SYBMSDATETIMEOFFSET | SYBMSTABLE | SYBNVARCHAR | SYBLONGBINARY | SYBUINT1 | SYBUINT2 | SYBUINT4 | SYBUINT8 | SYBDATE
  | SYBDATEN | SYB5INT8 | SYBINTERVAL | SYBSINT1 | SYBTIME | SYBTIMEN | SYBUINTN | SYBUNITEXT | SYBXML | SYB5BIGDATETIME
  | SYB5BIGTIME | TDS_CONVERT_CHAR | TDS_CONVERT_BINARY

record tds_unique =
  Data1 :: "32 word"
  Data2 :: "16 word"
  Data3 :: "16 word"
  Data4 :: "byte list"

datatype fp = Fp_int int | Fp_text string | Fp_over_10000 int

datatype cr =
    CR_ti "8 word" | CR_si "16 word" | CR_usi "16 word" | CR_i "32 word" | CR_ui "32 word" | CR_bi "64 word" | CR_ubi "64 word"
  | CR_f fp | CR_r fp | CR_m "64 word" | CR_m4 "32 word" | CR_n tds_numeric | CR_u tds_unique
  | CR_c string | CR_ib "byte list" | CR_cc string | CR_cb "byte list" | CR_raw "byte list"
  | CR_dt "32 word" "32 word" | CR_dt4 "16 word" "16 word" | CR_dta tds_datetimeall | CR_time "32 word" | CR_date "32 word"
  | CR_bigtime "64 word" | CR_bigdatetime "64 word"

type_synonym conv_res = "conv_error + nat \<times> cr"

text \<open>The broken-down time of the C library.\<close>

record tm =
  c_sec :: int
  c_min :: int
  c_hour :: int
  c_mday :: int
  c_mon :: int
  c_year :: int
  c_wday :: int
  c_yday :: int

record conv_in =
  cc_len :: nat
  cb_len :: nat
  n_in :: tds_numeric

record conv_env =
  lim :: num_limits
  mem_ok :: bool
  money_use_2_digits :: bool
  size_by_type :: "server_type \<Rightarrow> nat"
  strtod :: "string \<Rightarrow> bool \<times> nat"
  datetime_fmt :: string
  date_fmt :: "string option"
  time_fmt :: "string option"
  strftime_ext :: "string \<Rightarrow> tm \<Rightarrow> string \<times> nat"
  stack_text :: string

definition all_char :: "server_type set" where
  "all_char = {SYBCHAR, SYBVARCHAR, SYBTEXT, XSYBCHAR, XSYBVARCHAR}"

definition all_binary :: "server_type set" where
  "all_binary = {SYBBINARY, SYBVARBINARY, SYBIMAGE, XSYBBINARY, XSYBVARBINARY, SYBLONGBINARY, TDS_CONVERT_BINARY}"

lemmas type_sets = all_char_def all_binary_def

definition IS_TINYINT :: "int \<Rightarrow> bool" where
  "IS_TINYINT x \<longleftrightarrow> - 1 < x \<and> x < 0x100"

definition IS_SMALLINT :: "int \<Rightarrow> bool" where
  "IS_SMALLINT x \<longleftrightarrow> - 32769 < x \<and> x < 32768"

definition IS_USMALLINT :: "int \<Rightarrow> bool" where
  "IS_USMALLINT x \<longleftrightarrow> - 1 < x \<and> x < 65536"

definition IS_SINT1 :: "int \<Rightarrow> bool" where
  "IS_SINT1 x \<longleftrightarrow> - 129 < x \<and> x < 128"

definition INT_IS_INT :: "int \<Rightarrow> bool" where
  "INT_IS_INT x \<longleftrightarrow> - 2147483647 - 1 \<le> x \<and> x \<le> 2147483647"

definition INT_IS_UINT :: "int \<Rightarrow> bool" where
  "INT_IS_UINT x \<longleftrightarrow> 0 \<le> x \<and> x \<le> 4294967295"

lemmas range_macros = IS_TINYINT_def IS_SMALLINT_def IS_USMALLINT_def IS_SINT1_def INT_IS_INT_def INT_IS_UINT_def

definition show_int :: "int \<Rightarrow> string" where
  "show_int i = (if i < 0 then ''-'' @ show_nat (nat (- i)) else show_nat (nat i))"

definition string_to_result :: "conv_env \<Rightarrow> server_type \<Rightarrow> string \<Rightarrow> conv_in \<Rightarrow> conv_res" where
  "string_to_result env desttype s inp =
     (if desttype \<noteq> TDS_CONVERT_CHAR
      then if mem_ok env then Inr (length s, CR_c s) else Inl TDS_CONVERT_NOMEM
      else Inr (length s, CR_cc (take (cc_len inp) s)))"

definition binary_to_result :: "conv_env \<Rightarrow> server_type \<Rightarrow> byte list \<Rightarrow> conv_in \<Rightarrow> conv_res" where
  "binary_to_result env desttype data inp =
     (if desttype \<noteq> TDS_CONVERT_BINARY
      then if mem_ok env then Inr (length data, CR_ib data) else Inl TDS_CONVERT_NOMEM
      else Inr (length data, CR_cb (take (cb_len inp) data)))"

subsection \<open>From integers\<close>

definition rescale_result :: "conv_error + tds_numeric \<Rightarrow> conv_res" where
  "rescale_result r = (case r of Inl e \<Rightarrow> Inl e | Inr n \<Rightarrow> Inr (35, CR_n n))"

definition tds_convert_int_numeric :: "conv_env \<Rightarrow> nat \<Rightarrow> byte \<Rightarrow> 32 word \<Rightarrow> conv_in \<Rightarrow> conv_res" where
  "tds_convert_int_numeric env sc sign num inp =
     (let n = n_in inp;
          arr = write_at (array n) 0 ([sign, 0] @ TDS_PUT_A4BE (unat num))
      in rescale_result (tds_numeric_change_prec_scale (lim env) \<lparr> precision = 10, scale = sc, array = arr \<rparr> (precision n) (scale n)))"

definition tds_convert_int8_numeric :: "conv_env \<Rightarrow> nat \<Rightarrow> byte \<Rightarrow> 64 word \<Rightarrow> conv_in \<Rightarrow> conv_res" where
  "tds_convert_int8_numeric env sc sign num inp =
     (let n = n_in inp;
          arr = write_at (array n) 0 ([sign, 0] @ TDS_PUT_A4BE (unat num div 2 ^ 32) @ TDS_PUT_A4BE (unat num mod 2 ^ 32))
      in rescale_result (tds_numeric_change_prec_scale (lim env) \<lparr> precision = 20, scale = sc, array = arr \<rparr> (precision n) (scale n)))"

definition tds_convert_int :: "conv_env \<Rightarrow> 32 word \<Rightarrow> server_type \<Rightarrow> conv_in \<Rightarrow> conv_res" where
  "tds_convert_int env num desttype inp =
     (if desttype = TDS_CONVERT_CHAR \<or> desttype \<in> all_char then string_to_result env desttype (show_int (sint num)) inp
      else if desttype = SYBSINT1
      then if \<not> IS_SINT1 (sint num) then Inl TDS_CONVERT_OVERFLOW else Inr (1, CR_ti (ucast num))
      else if desttype \<in> {SYBINT1, SYBUINT1}
      then if \<not> IS_TINYINT (sint num) then Inl TDS_CONVERT_OVERFLOW else Inr (1, CR_ti (ucast num))
      else if desttype = SYBINT2
      then if \<not> IS_SMALLINT (sint num) then Inl TDS_CONVERT_OVERFLOW else Inr (2, CR_si (ucast num))
      else if desttype = SYBUINT2
      then if \<not> IS_USMALLINT (sint num) then Inl TDS_CONVERT_OVERFLOW else Inr (2, CR_usi (ucast num))
      else if desttype = SYBINT4 then Inr (4, CR_i num)
      else if desttype = SYBUINT4 then if sint num < 0 then Inl TDS_CONVERT_OVERFLOW else Inr (4, CR_ui num)
      else if desttype = SYBINT8 then Inr (8, CR_bi (scast num))
      else if desttype = SYBUINT8 then if sint num < 0 then Inl TDS_CONVERT_OVERFLOW else Inr (8, CR_ubi (scast num))
      else if desttype \<in> {SYBBIT, SYBBITN} then Inr (1, CR_ti (if num \<noteq> 0 then 1 else 0))
      else if desttype = SYBFLT8 then Inr (8, CR_f (Fp_int (sint num)))
      else if desttype = SYBREAL then Inr (4, CR_r (Fp_int (sint num)))
      else if desttype = SYBMONEY4
      then if 214748 < sint num \<or> sint num < - 214748 then Inl TDS_CONVERT_OVERFLOW else Inr (4, CR_m4 (num * 10000))
      else if desttype = SYBMONEY then Inr (8, CR_m (scast num * 10000))
      else if desttype \<in> {SYBNUMERIC, SYBDECIMAL}
      then if sint num < 0 then tds_convert_int_numeric env 0 1 (- num) inp else tds_convert_int_numeric env 0 0 num inp
      else Inl TDS_CONVERT_NOAVAIL)"

definition tds_convert_int8 :: "conv_env \<Rightarrow> 64 word \<Rightarrow> server_type \<Rightarrow> conv_in \<Rightarrow> conv_res" where
  "tds_convert_int8 env buf desttype inp =
     (if INT_IS_INT (sint buf) then tds_convert_int env (ucast buf) desttype inp
      else if desttype = TDS_CONVERT_CHAR \<or> desttype \<in> all_char then string_to_result env desttype (show_int (sint buf)) inp
      else if desttype \<in> {SYBINT1, SYBSINT1, SYBUINT1, SYBINT2, SYBUINT2, SYBINT4, SYBMONEY4} then Inl TDS_CONVERT_OVERFLOW
      else if desttype = SYBUINT4 then if \<not> INT_IS_UINT (sint buf) then Inl TDS_CONVERT_OVERFLOW else Inr (4, CR_ui (ucast buf))
      else if desttype = SYBINT8 then Inr (8, CR_bi buf)
      else if desttype = SYBUINT8 then if sint buf < 0 then Inl TDS_CONVERT_OVERFLOW else Inr (8, CR_ubi buf)
      else if desttype \<in> {SYBBIT, SYBBITN} then Inr (1, CR_ti 1)
      else if desttype = SYBFLT8 then Inr (8, CR_f (Fp_int (sint buf)))
      else if desttype = SYBREAL then Inr (4, CR_r (Fp_int (sint buf)))
      else if desttype = SYBMONEY
      then if 922337203685477 < sint buf \<or> sint buf < - 922337203685477 then Inl TDS_CONVERT_OVERFLOW else Inr (8, CR_m (buf * 10000))
      else if desttype \<in> {SYBNUMERIC, SYBDECIMAL}
      then if sint buf < 0 then tds_convert_int8_numeric env 0 1 (- buf) inp else tds_convert_int8_numeric env 0 0 buf inp
      else Inl TDS_CONVERT_NOAVAIL)"

definition tds_convert_uint8 :: "conv_env \<Rightarrow> 64 word \<Rightarrow> server_type \<Rightarrow> conv_in \<Rightarrow> conv_res" where
  "tds_convert_uint8 env buf desttype inp =
     (if unat buf \<le> 2147483647 then tds_convert_int env (ucast buf) desttype inp
      else if desttype = TDS_CONVERT_CHAR \<or> desttype \<in> all_char then string_to_result env desttype (show_nat (unat buf)) inp
      else if desttype \<in> {SYBINT1, SYBSINT1, SYBUINT1, SYBINT2, SYBUINT2, SYBINT4, SYBMONEY4} then Inl TDS_CONVERT_OVERFLOW
      else if desttype = SYBUINT4 then if \<not> INT_IS_UINT (uint buf) then Inl TDS_CONVERT_OVERFLOW else Inr (4, CR_ui (ucast buf))
      else if desttype = SYBINT8 then if 9223372036854775807 < unat buf then Inl TDS_CONVERT_OVERFLOW else Inr (8, CR_bi buf)
      else if desttype = SYBUINT8 then Inr (8, CR_ubi buf)
      else if desttype \<in> {SYBBIT, SYBBITN} then Inr (1, CR_ti 1)
      else if desttype = SYBFLT8 then Inr (8, CR_f (Fp_int (uint buf)))
      else if desttype = SYBREAL then Inr (4, CR_r (Fp_int (uint buf)))
      else if desttype = SYBMONEY
      then if 922337203685477 < unat buf then Inl TDS_CONVERT_OVERFLOW else Inr (8, CR_m (buf * 10000))
      else if desttype \<in> {SYBNUMERIC, SYBDECIMAL} then tds_convert_int8_numeric env 0 0 buf inp
      else Inl TDS_CONVERT_NOAVAIL)"

definition tds_convert_bit :: "conv_env \<Rightarrow> 8 word \<Rightarrow> server_type \<Rightarrow> conv_in \<Rightarrow> conv_res" where
  "tds_convert_bit env src desttype inp = tds_convert_int env (if src \<noteq> 0 then 1 else 0) desttype inp"

definition tds_convert_int1 :: "conv_env \<Rightarrow> 8 word \<Rightarrow> server_type \<Rightarrow> conv_in \<Rightarrow> conv_res" where
  "tds_convert_int1 env src desttype inp = tds_convert_int env (scast src) desttype inp"

definition tds_convert_uint1 :: "conv_env \<Rightarrow> 8 word \<Rightarrow> server_type \<Rightarrow> conv_in \<Rightarrow> conv_res" where
  "tds_convert_uint1 env src desttype inp = tds_convert_int env (ucast src) desttype inp"

definition tds_convert_int2 :: "conv_env \<Rightarrow> 16 word \<Rightarrow> server_type \<Rightarrow> conv_in \<Rightarrow> conv_res" where
  "tds_convert_int2 env src desttype inp = tds_convert_int env (scast src) desttype inp"

definition tds_convert_uint2 :: "conv_env \<Rightarrow> 16 word \<Rightarrow> server_type \<Rightarrow> conv_in \<Rightarrow> conv_res" where
  "tds_convert_uint2 env src desttype inp = tds_convert_int env (ucast src) desttype inp"

definition tds_convert_int4 :: "conv_env \<Rightarrow> 32 word \<Rightarrow> server_type \<Rightarrow> conv_in \<Rightarrow> conv_res" where
  "tds_convert_int4 env src desttype inp = tds_convert_int env src desttype inp"

definition tds_convert_uint4 :: "conv_env \<Rightarrow> 32 word \<Rightarrow> server_type \<Rightarrow> conv_in \<Rightarrow> conv_res" where
  "tds_convert_uint4 env src desttype inp = tds_convert_uint8 env (ucast src) desttype inp"

subsection \<open>From exact numbers\<close>

text \<open>The bytes of the rescaled number as a signed integer; \<open>-i\<close> wraps around in the width of \<open>i\<close>. The test compares the
  sign bit of the result with the sign of the number.\<close>

definition sign_differs :: "nat \<Rightarrow> int \<Rightarrow> byte \<Rightarrow> bool" where
  "sign_differs k i s \<longleftrightarrow> i \<noteq> 0 \<and> (drop_bit k i XOR uint s) AND 1 \<noteq> 0"

definition read_i4 :: "byte list \<Rightarrow> 32 word" where
  "read_i4 a =
     (let i = word_of_nat (TDS_GET_A4BE (a ! 2) (a ! 3) (a ! 4) (a ! 5))
      in if a ! 0 \<noteq> 0 then - i else i)"

definition read_u8 :: "byte list \<Rightarrow> 64 word" where
  "read_u8 a =
     push_bit 32 (word_of_nat (TDS_GET_A4BE (a ! 2) (a ! 3) (a ! 4) (a ! 5))) +
     word_of_nat (TDS_GET_A4BE (a ! 6) (a ! 7) (a ! 8) (a ! 9))"

definition read_i8 :: "byte list \<Rightarrow> 64 word" where
  "read_i8 a = (if a ! 0 \<noteq> 0 then - read_u8 a else read_u8 a)"

definition tds_convert_numeric :: "conv_env \<Rightarrow> tds_numeric \<Rightarrow> server_type \<Rightarrow> conv_in \<Rightarrow> conv_res" where
  "tds_convert_numeric env src desttype inp =
     (let to = (\<lambda>p s f. case tds_numeric_change_prec_scale (lim env) src p s of
                           Inl e \<Rightarrow> Inl e
                         | Inr n \<Rightarrow> f (array n))
      in if desttype = TDS_CONVERT_CHAR \<or> desttype \<in> all_char
         then (case tds_numeric_to_string src of
                 None \<Rightarrow> Inl TDS_CONVERT_FAIL
               | Some s \<Rightarrow> string_to_result env desttype s inp)
         else if desttype = SYBSINT1
         then to 3 0 (\<lambda>a. if a ! 1 \<noteq> 0 then Inl TDS_CONVERT_OVERFLOW
                          else let i = (if a ! 0 \<noteq> 0 then - uint (a ! 2) else uint (a ! 2))
                               in if sign_differs 7 i (a ! 0) then Inl TDS_CONVERT_OVERFLOW
                                  else Inr (1, CR_ti (word_of_int i)))
         else if desttype \<in> {SYBINT1, SYBUINT1}
         then to 3 0 (\<lambda>a. if a ! 1 \<noteq> 0 \<or> a ! 0 \<noteq> 0 \<and> a ! 2 \<noteq> 0 then Inl TDS_CONVERT_OVERFLOW
                          else Inr (1, CR_ti (a ! 2)))
         else if desttype = SYBINT2
         then to 5 0 (\<lambda>a. if a ! 1 \<noteq> 0 then Inl TDS_CONVERT_OVERFLOW
                          else let i = int (TDS_GET_A2BE (a ! 2) (a ! 3));
                                   i = (if a ! 0 \<noteq> 0 then - i else i)
                               in if sign_differs 15 i (a ! 0) then Inl TDS_CONVERT_OVERFLOW
                                  else Inr (2, CR_si (word_of_int i)))
         else if desttype = SYBUINT2
         then to 5 0 (\<lambda>a. let i = TDS_GET_A2BE (a ! 2) (a ! 3)
                          in if i \<noteq> 0 \<and> a ! 0 \<noteq> 0 \<or> a ! 1 \<noteq> 0 then Inl TDS_CONVERT_OVERFLOW
                             else Inr (2, CR_usi (word_of_nat i)))
         else if desttype = SYBINT4
         then to 10 0 (\<lambda>a. if a ! 1 \<noteq> 0 then Inl TDS_CONVERT_OVERFLOW
                           else if sign_differs 31 (sint (read_i4 a)) (a ! 0) then Inl TDS_CONVERT_OVERFLOW
                           else Inr (4, CR_i (read_i4 a)))
         else if desttype = SYBUINT4
         then to 10 0 (\<lambda>a. let ui = word_of_nat (TDS_GET_A4BE (a ! 2) (a ! 3) (a ! 4) (a ! 5)) :: 32 word
                           in if ui \<noteq> 0 \<and> a ! 0 \<noteq> 0 \<or> a ! 1 \<noteq> 0 then Inl TDS_CONVERT_OVERFLOW else Inr (4, CR_ui ui))
         else if desttype = SYBINT8
         then to 20 0 (\<lambda>a. if a ! 1 \<noteq> 0 then Inl TDS_CONVERT_OVERFLOW
                           else if sign_differs 63 (sint (read_i8 a)) (a ! 0) then Inl TDS_CONVERT_OVERFLOW
                           else Inr (8, CR_bi (read_i8 a)))
         else if desttype = SYBUINT8
         then to 20 0 (\<lambda>a. if read_u8 a \<noteq> 0 \<and> a ! 0 \<noteq> 0 \<or> a ! 1 \<noteq> 0 then Inl TDS_CONVERT_OVERFLOW else Inr (8, CR_ubi (read_u8 a)))
         else if desttype \<in> {SYBBIT, SYBBITN}
         then Inr (1, CR_ti (if list_ex (\<lambda>b. b \<noteq> 0) (take (tds_numeric_bytes_per_prec ! precision src - 1) (drop 1 (array src)))
                             then 1 else 0))
         else if desttype = SYBMONEY4
         then to 10 4 (\<lambda>a. if a ! 1 \<noteq> 0 then Inl TDS_CONVERT_OVERFLOW
                           else if sign_differs 31 (sint (read_i4 a)) (a ! 0) then Inl TDS_CONVERT_OVERFLOW
                           else Inr (4, CR_m4 (read_i4 a)))
         else if desttype = SYBMONEY
         then to 20 4 (\<lambda>a. if a ! 1 \<noteq> 0 then Inl TDS_CONVERT_OVERFLOW
                           else if sign_differs 63 (sint (read_i8 a)) (a ! 0) then Inl TDS_CONVERT_OVERFLOW
                           else Inr (8, CR_m (read_i8 a)))
         else if desttype \<in> {SYBNUMERIC, SYBDECIMAL}
         then rescale_result (tds_numeric_change_prec_scale (lim env) src (precision (n_in inp)) (scale (n_in inp)))
         else if desttype \<in> {SYBFLT8, SYBREAL}
         then (case tds_numeric_to_string src of
                 None \<Rightarrow> Inl TDS_CONVERT_FAIL
               | Some s \<Rightarrow> if desttype = SYBFLT8 then Inr (8, CR_f (Fp_text s)) else Inr (4, CR_r (Fp_text s)))
         else Inl TDS_CONVERT_NOAVAIL)"

subsection \<open>From money\<close>

definition tds_convert_money4 :: "conv_env \<Rightarrow> 32 word \<Rightarrow> server_type \<Rightarrow> conv_in \<Rightarrow> conv_res" where
  "tds_convert_money4 env mny4 desttype inp =
     (let dollars = quot (sint mny4) 10000
      in if desttype = TDS_CONVERT_CHAR \<or> desttype \<in> all_char
         then let sgn = (if sint mny4 < 0 then ''-'' else []);
                  d = (if sint mny4 < 0 then - mny4 else mny4);
                  s = (if money_use_2_digits env
                       then let d = (d + 50) div 100 in show_nat (unat (d div 100)) @ ''.'' @ dec 2 (unat (d mod 100))
                       else show_nat (unat (d div 10000)) @ ''.'' @ dec 4 (unat (d mod 10000)))
              in string_to_result env desttype (sgn @ s) inp
         else if desttype = SYBSINT1
         then if \<not> IS_SINT1 dollars then Inl TDS_CONVERT_OVERFLOW else Inr (1, CR_ti (word_of_int dollars))
         else if desttype \<in> {SYBINT1, SYBUINT1}
         then if \<not> IS_TINYINT dollars then Inl TDS_CONVERT_OVERFLOW else Inr (1, CR_ti (word_of_int dollars))
         else if desttype = SYBINT2
         then if \<not> IS_SMALLINT dollars then Inl TDS_CONVERT_OVERFLOW else Inr (2, CR_si (word_of_int dollars))
         else if desttype = SYBUINT2
         then if \<not> IS_USMALLINT dollars then Inl TDS_CONVERT_OVERFLOW else Inr (2, CR_usi (word_of_int dollars))
         else if desttype = SYBINT4 then Inr (4, CR_i (word_of_int dollars))
         else if desttype = SYBUINT4
         then if \<not> INT_IS_UINT dollars then Inl TDS_CONVERT_OVERFLOW else Inr (4, CR_ui (word_of_int dollars))
         else if desttype = SYBINT8 then Inr (8, CR_bi (word_of_int dollars))
         else if desttype = SYBUINT8
         then if dollars < 0 then Inl TDS_CONVERT_OVERFLOW else Inr (8, CR_ubi (word_of_int dollars))
         else if desttype \<in> {SYBBIT, SYBBITN} then Inr (1, CR_ti (if mny4 \<noteq> 0 then 1 else 0))
         else if desttype = SYBFLT8 then Inr (8, CR_f (Fp_over_10000 (sint mny4)))
         else if desttype = SYBREAL then Inr (4, CR_r (Fp_over_10000 (sint mny4)))
         else if desttype = SYBMONEY then Inr (8, CR_m (scast mny4))
         else if desttype = SYBMONEY4 then Inr (4, CR_m4 mny4)
         else if desttype \<in> {SYBDECIMAL, SYBNUMERIC}
         then if sint mny4 < 0 then tds_convert_int_numeric env 4 1 (- mny4) inp else tds_convert_int_numeric env 4 0 mny4 inp
         else Inl TDS_CONVERT_NOAVAIL)"

definition tds_convert_money :: "conv_env \<Rightarrow> 32 word \<Rightarrow> 32 word \<Rightarrow> server_type \<Rightarrow> conv_in \<Rightarrow> conv_res" where
  "tds_convert_money env mnyhigh mnylow desttype inp =
     (let mymoney = push_bit 32 (ucast mnyhigh) OR ucast mnylow :: 64 word;
          m = sint mymoney;
          dollars = quot m 10000;
          small = quot (sint (ucast mymoney :: 32 word)) 10000
      in if desttype = TDS_CONVERT_CHAR \<or> desttype \<in> all_char
         then string_to_result env desttype (tds_money_to_string mnyhigh mnylow (money_use_2_digits env)) inp
         else if desttype = SYBSINT1
         then if m \<le> - 129 * 10000 \<or> 128 * 10000 \<le> m then Inl TDS_CONVERT_OVERFLOW else Inr (1, CR_ti (word_of_int small))
         else if desttype \<in> {SYBINT1, SYBUINT1}
         then if m \<le> - 10000 \<or> 256 * 10000 \<le> m then Inl TDS_CONVERT_OVERFLOW else Inr (1, CR_ti (word_of_int small))
         else if desttype = SYBINT2
         then if m \<le> - 32769 * 10000 \<or> 32768 * 10000 \<le> m then Inl TDS_CONVERT_OVERFLOW else Inr (2, CR_si (word_of_int small))
         else if desttype = SYBUINT2
         then if m \<le> - 1 * 10000 \<or> 65536 * 10000 \<le> m then Inl TDS_CONVERT_OVERFLOW else Inr (2, CR_usi (word_of_int small))
         else if desttype = SYBINT4
         then if \<not> INT_IS_INT dollars then Inl TDS_CONVERT_OVERFLOW else Inr (4, CR_i (word_of_int dollars))
         else if desttype = SYBUINT4
         then if \<not> INT_IS_UINT dollars then Inl TDS_CONVERT_OVERFLOW else Inr (4, CR_ui (word_of_int dollars))
         else if desttype = SYBINT8 then Inr (8, CR_bi (word_of_int dollars))
         else if desttype = SYBUINT8
         then if dollars < 0 then Inl TDS_CONVERT_OVERFLOW else Inr (8, CR_ubi (word_of_int dollars))
         else if desttype \<in> {SYBBIT, SYBBITN} then Inr (1, CR_ti (if mymoney \<noteq> 0 then 1 else 0))
         else if desttype = SYBFLT8 then Inr (8, CR_f (Fp_over_10000 m))
         else if desttype = SYBREAL then Inr (4, CR_r (Fp_over_10000 m))
         else if desttype = SYBMONEY4
         then if \<not> INT_IS_INT m then Inl TDS_CONVERT_OVERFLOW else Inr (4, CR_m4 (ucast mymoney))
         else if desttype = SYBMONEY then Inr (8, CR_m mymoney)
         else if desttype \<in> {SYBDECIMAL, SYBNUMERIC}
         then if m < 0 then tds_convert_int8_numeric env 4 1 (- mymoney) inp else tds_convert_int8_numeric env 4 0 mymoney inp
         else Inl TDS_CONVERT_NOAVAIL)"

end
