(* ===== verification/Columns.thy ===== *)
theory Columns
  imports Streams Convert
begin

text \<open>
  Column values on the wire: \<open>src/tds/data.c\<close> on top of the packet layer and the streams. A column without character conversion
  (\<open>char_conv\<close> is \<open>NULL\<close>) is put into the packets of \<open>Wire_Out\<close> and read from those of \<open>Wire_In\<close>; \<open>size_t\<close> has 64 bits.

  \<open>column_data\<close> points to a buffer, a blob, a number, a date or an eight byte time, as the type says; each of them is a field
  here. The tables of types the build generates are parameters (\<open>col_env\<close>), as is the heap for blobs. A reader returns
  \<open>None\<close> when its result depends on a variable the C code has not initialised.
\<close>

subsection \<open>Columns\<close>

datatype column_funcs = tds_generic_funcs | tds_numeric_funcs | tds_variant_funcs | tds_msdatetime_funcs | tds_clrudt_funcs
  | tds_sybbigtime_funcs | tds_mstabletype_funcs

record tdsblob =
  textvalue :: "byte list option"
  textptr :: "byte list"
  timestamp :: "byte list"
  valid_ptr :: bool

record tdscolumn =
  column_usertype :: int
  column_size :: int
  column_type :: server_type
  funcs :: column_funcs
  column_varint_size :: nat
  column_prec :: nat
  column_scale :: nat
  server_column_type :: server_type
  server_column_size :: int
  column_cur_size :: int
  data_buf :: "byte list"
  data_blob :: tdsblob
  data_numeric :: tds_numeric
  data_dta :: tds_datetimeall
  data_big :: u64
  column_collation :: "byte list"

record col_env =
  get_size_by_type :: "server_type \<Rightarrow> int"
  get_varint_size :: "nat \<Rightarrow> server_type \<Rightarrow> nat"
  is_char_type :: "server_type \<Rightarrow> bool"
  is_unicode_type :: "server_type \<Rightarrow> bool"
  is_collate_type :: "server_type \<Rightarrow> bool"
  conn_collation :: "byte list"
  heap :: env

definition is_blob_type :: "server_type \<Rightarrow> bool" where
  "is_blob_type t \<longleftrightarrow> t = SYBTEXT \<or> t = SYBIMAGE \<or> t = SYBNTEXT"

definition is_blob_col :: "tdscolumn \<Rightarrow> bool" where
  "is_blob_col col \<longleftrightarrow> 2 < column_varint_size col"

definition USER_UNICHAR_TYPE :: int where
  "USER_UNICHAR_TYPE = 34"

definition USER_UNIVARCHAR_TYPE :: int where
  "USER_UNIVARCHAR_TYPE = 35"

text \<open>The versions of the protocol.\<close>

definition TDS50 :: "nat \<Rightarrow> bool" where
  "TDS50 ver \<longleftrightarrow> ver = 0x500"

definition TDS7_PLUS :: "nat \<Rightarrow> bool" where
  "TDS7_PLUS ver \<longleftrightarrow> 0x700 \<le> ver"

definition TDS71_PLUS :: "nat \<Rightarrow> bool" where
  "TDS71_PLUS ver \<longleftrightarrow> 0x701 \<le> ver"

definition TDS72_PLUS :: "nat \<Rightarrow> bool" where
  "TDS72_PLUS ver \<longleftrightarrow> 0x702 \<le> ver"

definition tds_get_cardinal_type :: "server_type \<Rightarrow> int \<Rightarrow> server_type" where
  "tds_get_cardinal_type datatype usertype =
     (case datatype of
        XSYBVARBINARY \<Rightarrow> SYBVARBINARY
      | XSYBBINARY \<Rightarrow> SYBBINARY
      | SYBNTEXT \<Rightarrow> SYBTEXT
      | XSYBNVARCHAR \<Rightarrow> SYBVARCHAR
      | XSYBVARCHAR \<Rightarrow> SYBVARCHAR
      | XSYBNCHAR \<Rightarrow> SYBCHAR
      | XSYBCHAR \<Rightarrow> SYBCHAR
      | SYB5INT8 \<Rightarrow> SYBINT8
      | SYBLONGBINARY \<Rightarrow>
          if usertype = USER_UNICHAR_TYPE \<or> usertype = USER_UNIVARCHAR_TYPE then SYBTEXT else SYBLONGBINARY
      | SYBMSXML \<Rightarrow> XSYBCHAR
      | _ \<Rightarrow> datatype)"

definition tds_get_column_funcs :: "nat \<Rightarrow> server_type \<Rightarrow> column_funcs" where
  "tds_get_column_funcs ver type =
     (case type of
        SYBNUMERIC \<Rightarrow> tds_numeric_funcs
      | SYBDECIMAL \<Rightarrow> tds_numeric_funcs
      | SYBMSUDT \<Rightarrow> tds_clrudt_funcs
      | SYBVARIANT \<Rightarrow> if TDS7_PLUS ver then tds_variant_funcs else tds_generic_funcs
      | SYBMSDATE \<Rightarrow> tds_msdatetime_funcs
      | SYBMSTIME \<Rightarrow> tds_msdatetime_funcs
      | SYBMSDATETIME2 \<Rightarrow> tds_msdatetime_funcs
      | SYBMSDATETIMEOFFSET \<Rightarrow> tds_msdatetime_funcs
      | SYB5BIGTIME \<Rightarrow> tds_sybbigtime_funcs
      | SYB5BIGDATETIME \<Rightarrow> tds_sybbigtime_funcs
      | SYBMSTABLE \<Rightarrow> tds_mstabletype_funcs
      | _ \<Rightarrow> tds_generic_funcs)"

definition tds_set_column_type :: "col_env \<Rightarrow> nat \<Rightarrow> tdscolumn \<Rightarrow> server_type \<Rightarrow> tdscolumn" where
  "tds_set_column_type ce ver col type =
     (let col = col \<lparr> server_column_type := type, funcs := tds_get_column_funcs ver type, column_type := tds_get_cardinal_type type (column_usertype col),
                      column_cur_size := - 1, column_varint_size := get_varint_size ce ver type \<rparr>
      in if column_varint_size col = 0
         then col \<lparr> column_size := get_size_by_type ce type, server_column_size := get_size_by_type ce type,
                    column_cur_size := get_size_by_type ce type \<rparr>
         else col)"

text \<open>The type a parameter is sent with.\<close>

definition param_type :: "nat \<Rightarrow> server_type \<Rightarrow> server_type" where
  "param_type ver type =
     (if TDS7_PLUS ver
      then (if type = SYBVARCHAR then XSYBVARCHAR
            else if type = SYBCHAR then XSYBCHAR
            else if type = SYBVARBINARY then XSYBVARBINARY
            else if type = SYBBINARY then XSYBBINARY
            else if type = SYBBIT then SYBBITN
            else type)
      else if TDS50 ver then (if type = SYBINT8 then SYB5INT8 else type)
      else type)"

definition nullable_param :: "server_type \<Rightarrow> tdscolumn \<Rightarrow> tdscolumn" where
  "nullable_param t col = col \<lparr> server_column_type := t, column_varint_size := 1, column_cur_size := - 1 \<rparr>"

definition tds_set_param_type :: "col_env \<Rightarrow> nat \<Rightarrow> tdscolumn \<Rightarrow> server_type \<Rightarrow> tdscolumn" where
  "tds_set_param_type ce ver col type =
     (let type = param_type ver type;
          col = tds_set_column_type ce ver col type;
          col = (if is_collate_type ce type \<or> is_char_type ce type then col \<lparr> column_collation := conn_collation ce \<rparr> else col)
      in if type = SYBUNIQUE then col \<lparr> column_size := 16, server_column_size := 16 \<rparr>
         else if type = SYBBITN then col \<lparr> column_size := 1, server_column_size := 1 \<rparr>
         else if type \<in> {SYBINT1, SYBINT2, SYBINT4, SYBINT8} then nullable_param SYBINTN col
         else if type \<in> {SYBMONEY4, SYBMONEY} then nullable_param SYBMONEYN col
         else if type \<in> {SYBDATETIME, SYBDATETIME4} then nullable_param SYBDATETIMN col
         else if type \<in> {SYBFLT8, SYBREAL} then nullable_param SYBFLTN col
         else if type = SYBNTEXT \<and> TDS72_PLUS ver then col \<lparr> column_varint_size := 8, server_column_type := XSYBNVARCHAR \<rparr>
         else if type = SYBTEXT \<and> TDS72_PLUS ver then col \<lparr> column_varint_size := 8, server_column_type := XSYBVARCHAR \<rparr>
         else if type = SYBIMAGE \<and> TDS72_PLUS ver then col \<lparr> column_varint_size := 8, server_column_type := XSYBVARBINARY \<rparr>
         else if type \<in> {SYB5BIGTIME, SYB5BIGDATETIME} then col \<lparr> column_prec := 6, column_scale := 6 \<rparr>
         else col)"

subsection \<open>Reading integers and bytes\<close>

type_synonym get_result = "(tdsret \<times> tdscolumn \<times> rxsocket) option"

definition int16_of :: "nat \<Rightarrow> int" where
  "int16_of n = sint (word_of_nat n :: u16)"

definition sint32_of :: "nat \<Rightarrow> int" where
  "sint32_of n = sint (word_of_nat n :: u32)"

definition set_null :: "tdscolumn \<Rightarrow> tdscolumn" where
  "set_null col = col \<lparr> column_cur_size := - 1 \<rparr>"

text \<open>The number the little endian bytes denote.\<close>

fun le_bytes_val :: "byte list \<Rightarrow> nat" where
  "le_bytes_val [] = 0"
| "le_bytes_val (b # bs) = unat b + 256 * le_bytes_val bs"

subsection \<open>Exact numbers\<close>

definition tds_swap_numeric :: "tds_numeric \<Rightarrow> tds_numeric" where
  "tds_swap_numeric num =
     num \<lparr> array := (if array num ! 0 = 0 then 1 else 0) #
                    tds_swap_bytes (tl (array num)) (tds_numeric_bytes_per_prec ! precision num - 1) \<rparr>"

definition tds_numeric_get_info :: "env \<Rightarrow> tdscolumn \<Rightarrow> rxsocket \<Rightarrow> tdsret \<times> tdscolumn \<times> rxsocket" where
  "tds_numeric_get_info env col s =
     (let (sz, s) = tds_get_byte env s;
          (prec, s) = tds_get_byte env s;
          (scale, s) = tds_get_byte env s;
          col = col \<lparr> column_size := int (unat sz), column_prec := unat prec, column_scale := unat scale \<rparr>
      in (if column_prec col < 1 \<or> MAXPRECISION < column_prec col \<or> column_prec col < column_scale col then TDS_FAIL
          else TDS_SUCCESS, col, s))"

definition tds_numeric_get :: "env \<Rightarrow> nat \<Rightarrow> tdscolumn \<Rightarrow> rxsocket \<Rightarrow> get_result" where
  "tds_numeric_get env ver col s =
     (let (colsize, s) = tds_get_byte env s
      in if colsize = 0 then Some (TDS_SUCCESS, set_null col, s)
         else
           let num = \<lparr> precision = column_prec col, scale = column_scale col, array = replicate 33 0 \<rparr>
           in if 33 < unat colsize then Some (TDS_FAIL, col \<lparr> data_numeric := num \<rparr>, s)
              else
                let (ok, got, s) = tds_get_n env (unat colsize) s;
                    num = num \<lparr> array := write_at (array num) 0 got \<rparr>;
                    num = (if TDS7_PLUS ver then tds_swap_numeric num else num)
                in Some (TDS_SUCCESS, col \<lparr> data_numeric := num, column_cur_size := 35 \<rparr>, s))"

definition tds_numeric_put_info :: "env \<Rightarrow> tdscolumn \<Rightarrow> tdssocket \<Rightarrow> tdsret \<times> tdssocket" where
  "tds_numeric_put_info env col s =
     (let s = tds_put_byte env (word_of_nat (tds_numeric_bytes_per_prec ! column_prec col)) s;
          s = tds_put_byte env (word_of_nat (column_prec col)) s;
          s = tds_put_byte env (word_of_nat (column_scale col)) s
      in (TDS_SUCCESS, s))"

definition tds_numeric_put :: "env \<Rightarrow> tdscolumn \<Rightarrow> tdssocket \<Rightarrow> (tdsret \<times> tdssocket) option" where
  "tds_numeric_put env col s =
     (if column_cur_size col < 0 then Some (TDS_SUCCESS, tds_put_byte env 0 s)
      else
        let num = data_numeric col;
            colsize = tds_numeric_bytes_per_prec ! precision num;
            s = tds_put_byte env (word_of_nat colsize) s;
            buf = (if IS_TDS7_PLUS s then tds_swap_numeric num else num)
        in do { s \<leftarrow> tds_put_n env (Some (take colsize (array buf))) colsize s; Some (TDS_SUCCESS, s) })"

subsection \<open>Dates of Microsoft servers\<close>

definition tds_msdatetime_get_info :: "env \<Rightarrow> tdscolumn \<Rightarrow> rxsocket \<Rightarrow> tdsret \<times> tdscolumn \<times> rxsocket" where
  "tds_msdatetime_get_info env col s =
     (let col = col \<lparr> column_prec := 0, column_scale := 0 \<rparr>;
          sized = (\<lambda>col. col \<lparr> server_column_size := 16, column_size := 16 \<rparr>)
      in if column_type col \<noteq> SYBMSDATE
         then let (prec, s) = tds_get_byte env s;
                  col = col \<lparr> column_prec := unat prec, column_scale := unat prec \<rparr>
              in if 7 < column_prec col then (TDS_FAIL, col, s) else (TDS_SUCCESS, sized col, s)
         else (TDS_SUCCESS, sized col, s))"

text \<open>The time, the date and the offset; the bytes that did not arrive are zero.\<close>

definition get_time_part :: "env \<Rightarrow> tdscolumn \<Rightarrow> nat \<Rightarrow> tds_datetimeall \<Rightarrow> rxsocket \<Rightarrow> tds_datetimeall \<times> rxsocket" where
  "get_time_part env col sz dt s =
     (let (ok, got, s) = tds_get_n env sz s
      in (dt \<lparr> dta_time := word_of_nat (le_bytes_val got) * 10 ^ (7 - column_prec col), has_time := True \<rparr>, s))"

definition get_date_part :: "env \<Rightarrow> tds_datetimeall \<Rightarrow> rxsocket \<Rightarrow> tds_datetimeall \<times> rxsocket" where
  "get_date_part env dt s =
     (let (ok, got, s) = tds_get_n env 3 s
      in (dt \<lparr> has_date := True, dta_date := word_of_nat (le_bytes_val got) - 693595 \<rparr>, s))"

definition get_offset_part :: "env \<Rightarrow> tdscolumn \<Rightarrow> tds_datetimeall \<Rightarrow> rxsocket \<Rightarrow> get_result" where
  "get_offset_part env col dt s =
     (case tds_get_usmallint env s of
        (None, s) \<Rightarrow> None
      | (Some n, s) \<Rightarrow>
          let dt = dt \<lparr> offset := word_of_nat n \<rparr>
          in if 840 < int16_of n \<or> int16_of n < - 840 then Some (TDS_FAIL, col \<lparr> data_dta := dt \<rparr>, s)
             else Some (TDS_SUCCESS, col \<lparr> data_dta := dt \<lparr> has_offset := True \<rparr>, column_cur_size := 16 \<rparr>, s))"

definition tds_msdatetime_get :: "env \<Rightarrow> tdscolumn \<Rightarrow> rxsocket \<Rightarrow> get_result" where
  "tds_msdatetime_get env col s =
     (let (sz, s) = tds_get_byte env s;
          sz = int (unat sz)
      in if sz = 0 then Some (TDS_SUCCESS, set_null col, s)
         else
           let dt = \<lparr> dta_time = 0, dta_date = 0, offset = 0, time_prec = 0, has_time = False, has_date = False,
                      has_offset = False \<rparr>;
               col = col \<lparr> data_dta := dt \<rparr>;
               sz = (if column_type col = SYBMSDATETIMEOFFSET then sz - 2 else sz);
               sz = (if column_type col \<noteq> SYBMSTIME then sz - 3 else sz)
           in if sz < 0 then Some (TDS_FAIL, col, s)
              else
                let dt = dt \<lparr> time_prec := column_prec col \<rparr>;
                    col = col \<lparr> data_dta := dt \<rparr>
                in if column_type col \<noteq> SYBMSDATE \<and> (sz < 3 \<or> 5 < sz) then Some (TDS_FAIL, col, s)
                   else if column_type col = SYBMSDATE \<and> sz \<noteq> 0 then Some (TDS_FAIL, col, s)
                   else
                     let (dt, s) = (if column_type col \<noteq> SYBMSDATE then get_time_part env col (nat sz) dt s else (dt, s));
                         (dt, s) = (if column_type col \<noteq> SYBMSTIME then get_date_part env dt s else (dt, s))
                     in if column_type col = SYBMSDATETIMEOFFSET then get_offset_part env col dt s
                        else Some (TDS_SUCCESS, col \<lparr> data_dta := dt, column_cur_size := 16 \<rparr>, s))"

definition tds_msdatetime_put_info :: "env \<Rightarrow> tdscolumn \<Rightarrow> tdssocket \<Rightarrow> tdsret \<times> tdssocket" where
  "tds_msdatetime_put_info env col s =
     (TDS_SUCCESS, if server_column_type col \<noteq> SYBMSDATE then tds_put_byte env 7 s else s)"

text \<open>The bytes between \<open>buf + 1\<close> and \<open>p\<close>.\<close>

definition msdatetime_bytes :: "server_type \<Rightarrow> tds_datetimeall \<Rightarrow> byte list" where
  "msdatetime_bytes t dta =
     (if t \<noteq> SYBMSDATE then TDS_PUT_A4LE (unat (dta_time dta) mod 2 ^ 32) @ [u8_of (unat (dta_time dta) div 2 ^ 32)] else []) @
     (if t \<noteq> SYBMSTIME then take 3 (TDS_PUT_A4LE (unat (dta_date dta + 693595))) else []) @
     (if t = SYBMSDATETIMEOFFSET then TDS_PUT_A2LE (unat (offset dta)) else [])"

definition tds_msdatetime_put :: "env \<Rightarrow> tdscolumn \<Rightarrow> tdssocket \<Rightarrow> (tdsret \<times> tdssocket) option" where
  "tds_msdatetime_put env col s =
     (if column_cur_size col < 0 then Some (TDS_SUCCESS, tds_put_byte env 0 s)
      else
        let p = msdatetime_bytes (server_column_type col) (data_dta col);
            buf = word_of_nat (length p) # p
        in do { s \<leftarrow> tds_put_n env (Some buf) (length buf) s; Some (TDS_SUCCESS, s) })"

subsection \<open>Times of Sybase servers\<close>

definition tds_sybbigtime_get_info :: "env \<Rightarrow> tdscolumn \<Rightarrow> rxsocket \<Rightarrow> tdsret \<times> tdscolumn \<times> rxsocket" where
  "tds_sybbigtime_get_info env col s =
     (let (_, s) = tds_get_byte env s;
          (_, s) = tds_get_byte env s
      in (TDS_SUCCESS, col \<lparr> column_prec := 6, column_scale := 6, server_column_size := 8, column_size := 8 \<rparr>, s))"

definition tds_sybbigtime_get :: "env \<Rightarrow> tdscolumn \<Rightarrow> rxsocket \<Rightarrow> get_result" where
  "tds_sybbigtime_get env col s =
     (let (sz, s) = tds_get_byte env s
      in if sz = 0 then Some (TDS_SUCCESS, set_null col, s)
         else case tds_get_uint8 env s of
                (None, s) \<Rightarrow> None
              | (Some n, s) \<Rightarrow> Some (TDS_SUCCESS, col \<lparr> column_cur_size := 8, data_big := word_of_nat n \<rparr>, s))"

definition tds_sybbigtime_put_info :: "env \<Rightarrow> tdscolumn \<Rightarrow> tdssocket \<Rightarrow> tdsret \<times> tdssocket" where
  "tds_sybbigtime_put_info env col s = (TDS_SUCCESS, tds_put_byte env 6 (tds_put_byte env 8 s))"

definition tds_sybbigtime_put :: "env \<Rightarrow> tdscolumn \<Rightarrow> tdssocket \<Rightarrow> tdsret \<times> tdssocket" where
  "tds_sybbigtime_put env col s =
     (if column_cur_size col < 0 then (TDS_SUCCESS, tds_put_byte env 0 s)
      else (TDS_SUCCESS, tds_put_int8 env (data_big col) (tds_put_byte env 8 s)))"

end
