(* ===== verification/Columns_Generic.thy ===== *)
theory Columns_Generic
  imports Columns
begin

text \<open>
  The generic column functions of \<open>src/tds/data.c\<close>: values of fixed and variable size, blobs and the chunked values of
  TDS 7.2, with \<open>tds_fix_column_size\<close> of \<open>src/tds/query.c\<close>. \<open>column_data\<close> is \<open>data_blob\<close> when \<open>is_blob_col\<close>, else \<open>data_buf\<close>.
\<close>

subsection \<open>Blobs\<close>

definition set_textvalue :: "byte list option \<Rightarrow> tdscolumn \<Rightarrow> tdscolumn" where
  "set_textvalue b col = col \<lparr> data_blob := (data_blob col) \<lparr> textvalue := b \<rparr> \<rparr>"

text \<open>\<open>pp\<close> is \<open>&blob->textvalue\<close>. When \<open>tds_dynamic_stream_init\<close> fails, \<open>*pp\<close> is \<open>NULL\<close>.\<close>

definition tds_get_char_dynamic ::
  "col_env \<Rightarrow> 'i reader \<Rightarrow> nat \<Rightarrow> tdscolumn \<Rightarrow> 'i \<Rightarrow> (tdsret \<times> tdscolumn \<times> 'i) option" where
  "tds_get_char_dynamic ce read allocated col r_stream =
     (case tds_dynamic_stream_init (heap ce) (textvalue (data_blob col)) allocated of
        None \<Rightarrow> Some (TDS_FAIL, set_textvalue None col, r_stream)
      | Some w \<Rightarrow>
          do {
            (res, r_stream, w) \<leftarrow>
              tds_copy_stream read dyn_left dyn_store (tds_dynamic_stream_write (heap ce)) r_stream w;
            Some (res, set_textvalue (Some (ds_buf w)) col \<lparr> column_cur_size := int (ds_size w) \<rparr>, r_stream)
          })"

definition tds72_get_varmax :: "col_env \<Rightarrow> env \<Rightarrow> tdscolumn \<Rightarrow> rxsocket \<Rightarrow> get_result" where
  "tds72_get_varmax ce env col s =
     (case tds_get_uint8 env s of
        (None, s) \<Rightarrow> None
      | (Some n, s) \<Rightarrow>
          let len = sint (word_of_nat n :: u64)
          in if len = - 1 then Some (TDS_SUCCESS, set_null col, s)
             else
               let col = (if 0 < len then set_textvalue None col else col);
                   allocated = (if 0 < len then if is_unicode_type ce (server_column_type col) then nat len div 2 else nat len
                                else 0)
               in do {
                    (res, col, (_, s)) \<leftarrow> tds_get_char_dynamic ce (tds_varmax_stream_read env) allocated col (0, s);
                    Some (res, col, s)
                  })"

subsection \<open>Reading\<close>

definition dummy_textptr :: "byte list" where
  "dummy_textptr = [0x64, 0x75, 0x6d, 0x6d, 0x79, 0x20, 0x74, 0x65, 0x78, 0x74, 0x70, 0x74, 0x72, 0, 0, 0]"

text \<open>\<open>colsize\<close>; a number that could not be read is \<open>None\<close>, the socket is closed then.\<close>

definition get_colsize :: "col_env \<Rightarrow> nat \<Rightarrow> env \<Rightarrow> tdscolumn \<Rightarrow> rxsocket \<Rightarrow> int option \<times> tdscolumn \<times> rxsocket" where
  "get_colsize ce ver env col s =
     (let int_of = map_option sint32_of; zero_null = map_option (\<lambda>n. if n = 0 then - 1 else n)
      in if column_varint_size col = 5
         then let (len, s) = tds_get_byte env s
              in if len = 16
                 then let blob = data_blob col;
                          (_, got, s) = tds_get_n env 16 s;
                          blob = blob \<lparr> textptr := write_at (textptr blob) 0 got \<rparr>;
                          (_, got, s) = tds_get_n env 8 s;
                          blob = blob \<lparr> timestamp := write_at (timestamp blob) 0 got, valid_ptr := True \<rparr>;
                          blob = (if TDS72_PLUS ver \<and> take 16 (textptr blob) = dummy_textptr
                                  then blob \<lparr> valid_ptr := False \<rparr> else blob);
                          (n, s) = tds_get_uint env s
                      in (int_of n, col \<lparr> data_blob := blob \<rparr>, s)
                 else (Some (- 1), col, s)
         else if column_varint_size col = 4
         then let (n, s) = tds_get_uint env s in (zero_null (int_of n), col, s)
         else if column_varint_size col = 2
         then let (n, s) = tds_get_usmallint env s in (map_option int16_of n, col, s)
         else if column_varint_size col = 1
         then let (b, s) = tds_get_byte env s in (zero_null (Some (int (unat b))), col, s)
         else if column_varint_size col = 0 then (Some (get_size_by_type ce (column_type col)), col, s)
         else (Some (- 1), col, s))"

definition get_blob_data :: "col_env \<Rightarrow> env \<Rightarrow> int \<Rightarrow> tdscolumn \<Rightarrow> rxsocket \<Rightarrow> get_result" where
  "get_blob_data ce env colsize col s =
     (if colsize = 0 then Some (TDS_SUCCESS, set_textvalue None col \<lparr> column_cur_size := 0 \<rparr>, s)
      else
        let allocated = max (column_cur_size col) 0;
            (col, allocated) =
              (if allocated < colsize
               then (set_textvalue None col, if is_unicode_type ce (server_column_type col) then colsize div 2 else colsize)
               else (col, allocated))
        in do {
             (ret, col, (wire_size, s)) \<leftarrow>
               tds_get_char_dynamic ce (tds_datain_stream_read env) (nat allocated) col (nat colsize, s);
             if ret = TDS_FAIL \<and> 0 < wire_size then Some (ret, col, snd (snd (tds_get_n env wire_size s)))
             else Some (TDS_SUCCESS, col, s)
           })"

text \<open>The padding of fixed-size character and binary values: \<open>None\<close> when there is none.\<close>

definition pad_char :: "tdscolumn \<Rightarrow> byte option" where
  "pad_char col =
     (if column_type col = SYBLONGBINARY \<and> column_usertype col \<noteq> USER_UNICHAR_TYPE then None
      else if column_type col \<in> {SYBLONGBINARY, SYBCHAR, XSYBCHAR}
      then if column_size col \<noteq> server_column_size col then None else Some 0x20
      else if column_type col \<in> {SYBBINARY, XSYBBINARY} then Some 0
      else None)"

definition get_plain_data :: "env \<Rightarrow> int \<Rightarrow> tdscolumn \<Rightarrow> rxsocket \<Rightarrow> tdsret \<times> tdscolumn \<times> rxsocket" where
  "get_plain_data env colsize col s =
     (let discard_len = (if column_size col < colsize then colsize - column_size col else 0);
          colsize = (if column_size col < colsize then column_size col else colsize);
          (ok, got, s) = tds_get_n env (nat colsize) s;
          dest = write_at (data_buf col) 0 got
      in if \<not> ok then (TDS_FAIL, col \<lparr> data_buf := dest \<rparr>, s)
         else
           let s = (if 0 < discard_len then snd (snd (tds_get_n env (nat discard_len) s)) else s);
               dest = (case pad_char col of
                         None \<Rightarrow> dest
                       | Some c \<Rightarrow> if colsize < column_size col
                                  then write_at dest (nat colsize) (replicate (nat (column_size col - colsize)) c) else dest)
           in (TDS_SUCCESS, col \<lparr> data_buf := dest, column_cur_size := colsize \<rparr>, s))"

definition tds_generic_get :: "col_env \<Rightarrow> nat \<Rightarrow> env \<Rightarrow> tdscolumn \<Rightarrow> rxsocket \<Rightarrow> get_result" where
  "tds_generic_get ce ver env col s =
     (if column_varint_size col = 8 then tds72_get_varmax ce env col s
      else
        let (colsize, col, s) = get_colsize ce ver env col s
        in if rx_dead s then Some (TDS_FAIL, col, s)
           else case colsize of
                  None \<Rightarrow> None
                | Some colsize \<Rightarrow>
                    if colsize < 0 then Some (TDS_SUCCESS, set_null col, s)
                    else if is_blob_col col then get_blob_data ce env colsize col s
                    else Some (get_plain_data env colsize col s))"

subsection \<open>Writing\<close>

definition clamp :: "nat \<Rightarrow> nat \<Rightarrow> nat \<Rightarrow> nat" where
  "clamp x a b = (if x < a then a else if b < x then b else x)"

text \<open>A size is an \<open>int\<close> taken as a \<open>size_t\<close>.\<close>

definition size_t_of :: "int \<Rightarrow> nat" where
  "size_t_of i = nat (i mod 2 ^ 64)"

definition tds_fix_column_size :: "col_env \<Rightarrow> tdscolumn \<Rightarrow> nat" where
  "tds_fix_column_size ce col =
     (let sz = size_t_of (server_column_size col);
          sz = (if sz = 0
                then if is_unicode_type ce (server_column_type col) then size_t_of (column_size col) * 2 mod 2 ^ 64
                     else size_t_of (column_size col)
                else sz)
      in if column_varint_size col = 1 then clamp sz 1 255
         else if column_varint_size col = 2
         then clamp sz (if server_column_type col = XSYBNVARCHAR \<or> server_column_type col = XSYBNCHAR then 2 else 1) 8000
         else if column_varint_size col = 4
         then if server_column_type col = SYBNTEXT then 0x7ffffffe else 0x7fffffff
         else sz)"

definition tds_generic_put_info :: "col_env \<Rightarrow> env \<Rightarrow> tdscolumn \<Rightarrow> tdssocket \<Rightarrow> (tdsret \<times> tdssocket) option" where
  "tds_generic_put_info ce env col s =
     (let sz = tds_fix_column_size ce col;
          s = (if column_varint_size col = 1 then tds_put_byte env (word_of_nat sz) s
               else if column_varint_size col = 2 then tds_put_smallint env (word_of_nat sz) s
               else if column_varint_size col = 5 \<or> column_varint_size col = 4 then tds_put_int env (word_of_nat sz) s
               else if column_varint_size col = 8 then tds_put_smallint env 0xffff s
               else s);
          s = (if TDS50 (tds_version s) \<and> is_blob_type (server_column_type col) then tds_put_smallint env 0 s else s)
      in do {
           s \<leftarrow> (if TDS71_PLUS (tds_version s) \<and> is_collate_type ce (server_column_type col)
                 then tds_put_n env (Some (take 5 (conn_collation ce))) 5 s else Some s);
           Some (TDS_SUCCESS, s)
         })"

text \<open>The assertion that a column without length prefix is not null is not compiled out; \<open>None\<close> is its failure.\<close>

definition put_null :: "env \<Rightarrow> tdscolumn \<Rightarrow> bool \<Rightarrow> tdssocket \<Rightarrow> tdssocket option" where
  "put_null env col bcp7 s =
     (if column_varint_size col = 5
      then Some (if (bcp7 \<or> \<not> IS_TDS7_PLUS s) \<and> is_blob_type (server_column_type col) then tds_put_byte env 0 s
                 else tds_put_int env (- 1) s)
      else if column_varint_size col = 4 then Some (tds_put_int env 0 s)
      else if column_varint_size col = 2 then Some (tds_put_smallint env (- 1) s)
      else if column_varint_size col = 8 then Some (tds_put_int8 env (- 1) s)
      else if column_varint_size col = 0 then None
      else Some (tds_put_byte env 0 s))"

text \<open>What \<open>src\<close> points to; \<open>None\<close> is \<open>NULL\<close>.\<close>

definition col_src :: "tdscolumn \<Rightarrow> byte list option" where
  "col_src col = (if is_blob_col col then textvalue (data_blob col) else Some (data_buf col))"

definition put_src :: "env \<Rightarrow> tdscolumn \<Rightarrow> nat \<Rightarrow> tdssocket \<Rightarrow> tdssocket option" where
  "put_src env col colsize s = tds_put_n env (map_option (take colsize) (col_src col)) colsize s"

definition put_data7 :: "col_env \<Rightarrow> env \<Rightarrow> tdscolumn \<Rightarrow> bool \<Rightarrow> tdssocket \<Rightarrow> tdssocket option" where
  "put_data7 ce env col bcp7 s =
     (let colsize = nat (column_cur_size col);
          sz = tds_fix_column_size ce col
      in if column_varint_size col = 8
         then let s = tds_put_int8 env (if bcp7 then - 2 else word_of_nat colsize) s;
                  s = tds_put_int env (word_of_nat colsize) s
              in do { s \<leftarrow> put_src env col colsize s; Some (if colsize \<noteq> 0 then tds_put_int env 0 s else s) }
         else if column_varint_size col = 5
         then let colsize = min colsize sz
              in do {
                   s \<leftarrow> (if bcp7 \<and> is_blob_type (server_column_type col)
                         then do { s \<leftarrow> tds_put_n env (Some (replicate 16 0xff)) 16 (tds_put_byte env 16 s);
                                   tds_put_n env (Some (replicate 8 0xff)) 8 s }
                         else Some s);
                   put_src env col colsize (tds_put_int env (word_of_nat colsize) s)
                 }
         else if column_varint_size col = 2
         then let colsize = min colsize sz in put_src env col colsize (tds_put_smallint env (word_of_nat colsize) s)
         else if column_varint_size col = 1
         then let colsize = min colsize sz in put_src env col colsize (tds_put_byte env (word_of_nat colsize) s)
         else if column_varint_size col = 0
         then put_src env col (size_t_of (get_size_by_type ce (server_column_type col))) s
         else put_src env col colsize s)"

definition put_data5 :: "col_env \<Rightarrow> env \<Rightarrow> tdscolumn \<Rightarrow> tdssocket \<Rightarrow> tdssocket option" where
  "put_data5 ce env col s =
     (let colsize = nat (column_cur_size col)
      in if column_varint_size col = 5
         then let colsize = min colsize 0x7fffffff
              in do {
                   s \<leftarrow> tds_put_n env (Some (take 16 (textptr (data_blob col)))) 16 (tds_put_byte env 16 s);
                   s \<leftarrow> tds_put_n env (Some (take 8 (timestamp (data_blob col)))) 8 s;
                   put_src env col colsize (tds_put_int env (word_of_nat colsize) s)
                 }
         else if column_varint_size col = 4
         then let colsize = min colsize 0x7fffffff in put_src env col colsize (tds_put_int env (word_of_nat colsize) s)
         else if column_varint_size col = 2
         then let colsize = min colsize 8000 in put_src env col colsize (tds_put_smallint env (word_of_nat colsize) s)
         else if column_varint_size col = 1
         then if colsize = 0
              then Some (tds_put_byte env (if is_char_type ce (column_type col) then 0x20 else 0) (tds_put_byte env 1 s))
              else let colsize = min colsize 255 in put_src env col colsize (tds_put_byte env (word_of_nat colsize) s)
         else if column_varint_size col = 0
         then put_src env col (size_t_of (get_size_by_type ce (column_type col))) s
         else put_src env col colsize s)"

definition tds_generic_put :: "col_env \<Rightarrow> env \<Rightarrow> tdscolumn \<Rightarrow> bool \<Rightarrow> tdssocket \<Rightarrow> (tdsret \<times> tdssocket) option" where
  "tds_generic_put ce env col bcp7 s =
     map_option (Pair TDS_SUCCESS)
       (if column_cur_size col < 0 then put_null env col bcp7 s
        else if IS_TDS7_PLUS s then put_data7 ce env col bcp7 s
        else put_data5 ce env col s)"

end
