(* ===== verification/Columns_Roundtrip.thy ===== *)
theory Columns_Roundtrip
  imports Columns
begin

text \<open>
  Exact numbers, Microsoft dates and Sybase times over the wire: what is put is the documented format, and reading it back,
  however the packets and chunks fall, gives the value that was put.
\<close>

subsection \<open>Putting, as equations\<close>

lemma sink_ok_appends: "appends data s t \<Longrightarrow> sink_ok env s \<Longrightarrow> sink_ok env t"
  by (auto simp: sink_ok_def appends_def can_write_def)

lemma put_fixed_sink:
  assumes "sink_ok env s" "length data \<le> 8"
  shows "sink_ok env (put_chunk data (make_room env s))" "stream (put_chunk data (make_room env s)) = stream s @ data"
    "tds_version (put_chunk data (make_room env s)) = tds_version s"
  using put_fixed_appends [of s env data] assms sink_ok_appends
  by (auto simp: sink_ok_def appends_def can_write_def)

lemma put_byte_sink [simp]:
  assumes "sink_ok env s"
  shows "sink_ok env (tds_put_byte env c s)" "stream (tds_put_byte env c s) = stream s @ [c]"
    "tds_version (tds_put_byte env c s) = tds_version s"
  using put_fixed_sink [OF assms, of "[c]"] by (simp_all add: tds_put_byte_def)

lemma put_smallint_sink [simp]:
  assumes "sink_ok env s"
  shows "sink_ok env (tds_put_smallint env i s)" "stream (tds_put_smallint env i s) = stream s @ TDS_PUT_A2LE (unat i)"
    "tds_version (tds_put_smallint env i s) = tds_version s"
  using put_fixed_sink [OF assms, of "TDS_PUT_A2LE (unat i)"] by (simp_all add: tds_put_smallint_def)

lemma put_int_sink [simp]:
  assumes "sink_ok env s"
  shows "sink_ok env (tds_put_int env i s)" "stream (tds_put_int env i s) = stream s @ TDS_PUT_A4LE (unat i)"
    "tds_version (tds_put_int env i s) = tds_version s"
  using put_fixed_sink [OF assms, of "TDS_PUT_A4LE (unat i)"] by (simp_all add: tds_put_int_def)

definition le8 :: "nat \<Rightarrow> byte list" where
  "le8 v = TDS_PUT_A4LE (v mod 2 ^ 32) @ TDS_PUT_A4LE (v div 2 ^ 32)"

lemma length_le8 [simp]: "length (le8 v) = 8"
  by (simp add: le8_def)

lemma int8_halves:
  "unat (ucast (i :: u64) :: u32) = unat i mod 2 ^ 32" "unat (ucast (drop_bit 32 i) :: u32) = unat i div 2 ^ 32"
proof -
  show "unat (ucast i :: u32) = unat i mod 2 ^ 32" by (simp add: unsigned_ucast_eq take_bit_eq_mod)
  have "unat i < 2 ^ 64" using unsigned_less [of i] by simp
  then show "unat (ucast (drop_bit 32 i) :: u32) = unat i div 2 ^ 32"
    by (simp only: unsigned_ucast_eq unsigned_drop_bit_eq take_bit_eq_mod)
      (simp add: drop_bit_eq_div div_less_iff_less_mult)
qed

lemma put_int8_sink [simp]:
  assumes "sink_ok env s"
  shows "sink_ok env (tds_put_int8 env i s)" "stream (tds_put_int8 env i s) = stream s @ le8 (unat i)"
    "tds_version (tds_put_int8 env i s) = tds_version s"
  unfolding tds_put_int8_def int8_halves(2) unfolding int8_halves(1) le8_def [symmetric]
  by (simp_all add: put_fixed_sink [OF assms])

lemma put_n_sink:
  assumes "sink_ok env s" "length data = n"
  obtains t where "tds_put_n env (Some data) n s = Some t" "sink_ok env t" "stream t = stream s @ data"
    "tds_version t = tds_version s"
proof -
  have "out_inv s" "can_write env s" using assms(1) by (simp_all add: sink_ok_def)
  from tds_put_n_appends [OF this, of "Some data" n] assms(2) obtain t where
    "tds_put_n env (Some data) n s = Some t" "appends data s t" by auto
  with sink_ok_appends [OF this(2) assms(1)] that show thesis by (simp add: appends_def)
qed

lemma incoming_get_le8:
  assumes "incoming env (le8 v @ rest) s" "v < 2 ^ 64"
  obtains t where "tds_get_uint8 env s = (Some v, t)" "incoming env rest t" "\<not> rx_dead t"
  using incoming_get_uint8 [of env v rest s] assms by (auto simp: le8_def)

lemma unat_u64_less: "unat (i :: u64) < 2 ^ 64"
  using unsigned_less [of i] by simp

text \<open>A receiver whose only packet, the last of its message, has been loaded.\<close>

definition demo_in :: "byte list \<Rightarrow> rxsocket" where
  "demo_in bs = demo_rx \<lparr> in_buf := [4, 1, 0, 0, 0, 0, 0, 0] @ bs, in_pos := 8, in_len := 8 + length bs, net := [] \<rparr>"

lemma demo_in_incoming: "incoming demo_env bs (demo_in bs)"
  unfolding incoming_def
  by (intro conjI exI [of _ "[]"])
    (simp_all add: demo_ok demo_in_def demo_rx_def rx_inv_def feed_def avail_def unread_def eom_def TDS_STATUS_EOM_def)

lemma demo_sink: "sink_ok demo_env demo_socket" "tds_version demo_socket = 0x704"
  using demo_ok(1,2,3) by (simp_all add: sink_ok_def can_write_def demo_socket_def)

lemma unat_byte_of: "n < 256 \<Longrightarrow> unat (word_of_nat n :: byte) = n"
  by (simp add: unat_of_nat)

subsection \<open>Exact numbers\<close>

text \<open>A length, the sign and the magnitude: 0 for negative and least byte first on TDS 7, as in the structure before.\<close>

definition numeric_wire :: "nat \<Rightarrow> tds_numeric \<Rightarrow> byte list" where
  "numeric_wire ver num =
     (let n = tds_numeric_bytes_per_prec ! precision num; mag = take (n - 1) (drop 1 (array num))
      in word_of_nat n # (if TDS7_PLUS ver then (1 - array num ! 0) # rev mag else array num ! 0 # mag))"

lemma numeric_okD:
  assumes "numeric_ok num"
  shows "1 \<le> precision num" "precision num \<le> 77" "length (array num) = 33" "array num ! 0 = 0 \<or> array num ! 0 = 1"
    "2 \<le> tds_numeric_bytes_per_prec ! precision num" "tds_numeric_bytes_per_prec ! precision num \<le> 33"
proof -
  show p: "1 \<le> precision num" "precision num \<le> 77" "length (array num) = 33" "array num ! 0 = 0 \<or> array num ! 0 = 1"
    using assms by (auto simp: numeric_ok_def bad_prec_scale_def MAXPRECISION_def)
  show "2 \<le> tds_numeric_bytes_per_prec ! precision num" "tds_numeric_bytes_per_prec ! precision num \<le> 33"
    using bytes_per_prec [OF p(1,2)] by simp_all
qed

lemma tds_swap_numeric_array:
  assumes "array num = sg # ds" "tds_numeric_bytes_per_prec ! precision num - 1 \<le> length ds"
  shows "array (tds_swap_numeric num) =
      (if sg = 0 then 1 else 0) # rev (take (tds_numeric_bytes_per_prec ! precision num - 1) ds) @
        drop (tds_numeric_bytes_per_prec ! precision num - 1) ds"
  using assms by (simp add: tds_swap_numeric_def tds_swap_bytes_reverses)

lemma swap_numeric_sel [simp]:
  "precision (tds_swap_numeric num) = precision num" "scale (tds_swap_numeric num) = scale num"
  by (simp_all add: tds_swap_numeric_def)

lemma numeric_put_bytes:
  assumes "numeric_ok num"
  shows "word_of_nat (tds_numeric_bytes_per_prec ! precision num) #
    take (tds_numeric_bytes_per_prec ! precision num) (array (if TDS7_PLUS ver then tds_swap_numeric num else num)) =
    numeric_wire ver num"
proof -
  note d = numeric_okD [OF assms]
  obtain sg ds where a: "array num = sg # ds" "length ds = 32" using d(3) by (cases "array num") auto
  obtain m where m: "tds_numeric_bytes_per_prec ! precision num = Suc m" "m \<le> 32"
    using d(5,6) by (cases "tds_numeric_bytes_per_prec ! precision num") auto
  have "array (tds_swap_numeric num) = (if sg = 0 then 1 else 0) # rev (take m ds) @ drop m ds"
    using tds_swap_numeric_array [OF a(1)] a(2) m by simp
  then show ?thesis using d(4) a m by (auto simp: numeric_wire_def Let_def)
qed

text \<open>What the reader makes of it: the bytes behind the magnitude are cleared.\<close>

definition canonical_numeric :: "tds_numeric \<Rightarrow> tds_numeric" where
  "canonical_numeric num =
     num \<lparr> array := take (tds_numeric_bytes_per_prec ! precision num) (array num) @
                    replicate (33 - tds_numeric_bytes_per_prec ! precision num) 0 \<rparr>"

lemma canonical_numeric_magnitude:
  assumes "numeric_ok num" shows "magnitude (canonical_numeric num) = magnitude num"
  using numeric_okD [OF assms]
  by (simp add: magnitude_def canonical_numeric_def drop_take [symmetric] take_drop)

lemma tds_numeric_get_wire:
  assumes "numeric_ok num" "incoming env (numeric_wire ver num @ rest) s"
    "column_prec col = precision num" "column_scale col = scale num"
  shows "\<exists>t. tds_numeric_get env ver col s =
      Some (TDS_SUCCESS, col \<lparr> data_numeric := canonical_numeric num, column_cur_size := 35 \<rparr>, t) \<and> incoming env rest t"
proof -
  note d = numeric_okD [OF assms(1)]
  obtain sg ds where a: "array num = sg # ds" "length ds = 32" using d(3) by (cases "array num") auto
  obtain m where m: "tds_numeric_bytes_per_prec ! precision num = Suc m" "m \<le> 32" "0 < m"
    using d(5,6) by (cases "tds_numeric_bytes_per_prec ! precision num") auto
  define body where "body = tl (numeric_wire ver num)"
  have body: "numeric_wire ver num = word_of_nat (Suc m) # body" "length body = Suc m"
    using a m by (auto simp: body_def numeric_wire_def Let_def)
  from assms(2) body(1) obtain t where t: "tds_get_byte env s = (word_of_nat (Suc m), t)" "incoming env (body @ rest) t"
    by (auto elim: incoming_get_byte)
  from incoming_get [OF t(2) body(2)] obtain u where
    u: "tds_get_n env (Suc m) t = (True, body, u)" "incoming env rest u" by blast
  have um: "unat (word_of_nat (Suc m) :: byte) = Suc m" by (rule unat_byte_of) (use m(2) in simp)
  define got where "got = \<lparr> precision = precision num, scale = scale num, array = body @ replicate (32 - m) 0 \<rparr>"
  have "(if TDS7_PLUS ver then tds_swap_numeric got else got) = canonical_numeric num"
  proof (cases "TDS7_PLUS ver")
    case False
    then show ?thesis using a m by (simp add: got_def body_def numeric_wire_def canonical_numeric_def Let_def)
  next
    case True
    have ar: "array got = (1 - sg) # rev (take m ds) @ replicate (32 - m) 0"
      using True a m by (simp add: got_def body_def numeric_wire_def Let_def)
    have "array (tds_swap_numeric got) = (if 1 - sg = 0 then 1 else 0) # take m ds @ replicate (32 - m) 0"
      using tds_swap_numeric_array [OF ar] a m by (simp add: got_def)
    moreover have "(if 1 - sg = 0 then 1 else 0) = sg" using d(4) a by auto
    ultimately have "array (tds_swap_numeric got) = array (canonical_numeric num)"
      using a m by (simp add: canonical_numeric_def)
    then show ?thesis using True by (simp add: canonical_numeric_def tds_swap_numeric_def got_def)
  qed
  moreover have "write_at (replicate 33 0) 0 body = body @ replicate (32 - m) 0"
    using body(2) by (simp add: write_at_def)
  moreover have "word_of_nat (Suc m) \<noteq> (0 :: byte)" using um by (metis nat.distinct(1) unsigned_0)
  ultimately have "tds_numeric_get env ver col s =
      Some (TDS_SUCCESS, col \<lparr> data_numeric := canonical_numeric num, column_cur_size := 35 \<rparr>, u)"
    using t(1) u(1) m um assms(3,4) by (simp add: tds_numeric_get_def got_def [symmetric] Let_def split: if_splits)
  with u(2) show ?thesis by blast
qed

lemma tds_numeric_put_wire:
  assumes "sink_ok env s" "numeric_ok (data_numeric col)" "0 \<le> column_cur_size col"
  shows "\<exists>t. tds_numeric_put env col s = Some (TDS_SUCCESS, t) \<and> sink_ok env t \<and>
    stream t = stream s @ numeric_wire (tds_version s) (data_numeric col)"
proof -
  note d = numeric_okD [OF assms(2)]
  define num where "num = data_numeric col"
  define n where "n = tds_numeric_bytes_per_prec ! precision num"
  define buf where "buf = (if TDS7_PLUS (tds_version s) then tds_swap_numeric num else num)"
  let ?s = "tds_put_byte env (word_of_nat n) s"
  have v: "IS_TDS7_PLUS ?s = TDS7_PLUS (tds_version s)"
    using put_byte_sink(3) [OF assms(1)] by (simp add: IS_TDS7_PLUS_def TDS7_PLUS_def)
  have s: "sink_ok env ?s" using assms(1) by simp
  have "length (array buf) = 33"
    using d by (simp add: buf_def num_def tds_swap_numeric_def tds_swap_bytes_reverses)
  then have l: "length (take n (array buf)) = n" using d(6) by (simp add: n_def num_def)
  obtain t where t: "tds_put_n env (Some (take n (array buf))) n ?s = Some t" "sink_ok env t"
    "stream t = stream ?s @ take n (array buf)"
    using put_n_sink [OF s l] by blast
  have "stream t = stream s @ numeric_wire (tds_version s) num"
    using t(3) assms(1) numeric_put_bytes [of num "tds_version s"] assms(2) by (simp add: buf_def n_def num_def)
  moreover have "tds_numeric_put env col s = Some (TDS_SUCCESS, t)"
    using assms(3) t(1) unfolding tds_numeric_put_def Let_def num_def [symmetric] n_def [symmetric] v buf_def [symmetric]
    by simp
  ultimately show ?thesis using t(2) by (auto simp: num_def)
qed

subsection \<open>Times of Sybase servers\<close>

lemma tds_sybbigtime_put_wire:
  assumes "sink_ok env s" "0 \<le> column_cur_size col"
  shows "fst (tds_sybbigtime_put env col s) = TDS_SUCCESS \<and> sink_ok env (snd (tds_sybbigtime_put env col s)) \<and>
    stream (snd (tds_sybbigtime_put env col s)) = stream s @ 8 # le8 (unat (data_big col))"
  using assms by (simp add: tds_sybbigtime_put_def)

lemma tds_sybbigtime_get_wire:
  assumes "incoming env (8 # le8 (unat v) @ rest) s"
  shows "\<exists>t. tds_sybbigtime_get env col s = Some (TDS_SUCCESS, col \<lparr> column_cur_size := 8, data_big := v \<rparr>, t) \<and>
    incoming env rest t"
proof -
  from assms obtain t where t: "tds_get_byte env s = (8, t)" "incoming env (le8 (unat v) @ rest) t"
    by (auto elim: incoming_get_byte)
  from incoming_get_le8 [OF t(2) unat_u64_less] obtain u where "tds_get_uint8 env t = (Some (unat v), u)" "incoming env rest u"
    by blast
  with t(1) show ?thesis by (simp add: tds_sybbigtime_get_def)
qed

subsection \<open>Dates of Microsoft servers\<close>

lemma le_bytes_val_append: "le_bytes_val (xs @ ys) = le_bytes_val xs + 256 ^ length xs * le_bytes_val ys"
  by (induction xs) (simp_all add: algebra_simps)

lemma div_256_256: "a div 256 div 256 = a div 65536" for a :: nat
  by (simp add: div_mult2_eq [symmetric])

lemma le_bytes_val_3: "v < 2 ^ 24 \<Longrightarrow> le_bytes_val (take 3 (TDS_PUT_A4LE v)) = v"
proof -
  assume v: "v < 2 ^ 24"
  have "le_bytes_val (take 3 (TDS_PUT_A4LE v)) = v mod 256 + 256 * (v div 256 mod 256 + 256 * (v div 65536 mod 256))"
    by (simp add: TDS_PUT_A4LE_def)
  also have "v div 65536 mod 256 = v div 65536" using v by (simp add: div_less_iff_less_mult)
  also have "v div 65536 = v div 256 div 256" by (simp add: div_256_256)
  also have "v div 256 mod 256 + 256 * (v div 256 div 256) = v div 256" by simp
  finally show ?thesis by simp
qed

lemma le_bytes_val_4: "v < 2 ^ 32 \<Longrightarrow> le_bytes_val (TDS_PUT_A4LE v) = v"
proof -
  assume v: "v < 2 ^ 32"
  have "le_bytes_val (TDS_PUT_A4LE v) = v div 2 ^ 24 mod 256 * 0x1000000 + v div 2 ^ 16 mod 256 * 0x10000 +
      v div 2 ^ 8 mod 256 * 0x100 + v mod 256"
    by (simp add: TDS_PUT_A4LE_def)
  then show ?thesis by (simp only: nat_bytes4 [OF v])
qed

lemma le_bytes_val_5:
  assumes "v < 2 ^ 40"
  shows "le_bytes_val (TDS_PUT_A4LE (v mod 2 ^ 32) @ [u8_of (v div 2 ^ 32)]) = v"
proof -
  have "v div 2 ^ 32 < 256" using assms by (simp add: div_less_iff_less_mult)
  moreover have "le_bytes_val (TDS_PUT_A4LE (v mod 2 ^ 32)) = v mod 2 ^ 32" by (rule le_bytes_val_4) simp
  ultimately show ?thesis using div_mult_mod_eq [of v "2 ^ 32"] by (simp add: le_bytes_val_append)
qed

text \<open>The values the format can carry: a time of day, a date from the year 1 on, an offset of at most 14 hours.\<close>

definition msdatetime_ok :: "server_type \<Rightarrow> tds_datetimeall \<Rightarrow> bool" where
  "msdatetime_ok t dta \<longleftrightarrow> t \<in> {SYBMSDATE, SYBMSTIME, SYBMSDATETIME2, SYBMSDATETIMEOFFSET} \<and>
     unat (dta_time dta) < 2 ^ 40 \<and> unat (dta_date dta + 693595) < 2 ^ 24 \<and>
     - 840 \<le> sint (offset dta) \<and> sint (offset dta) \<le> 840"

text \<open>What the reader makes of the value: the parts the type has, in the finest precision.\<close>

definition msdatetime_read :: "server_type \<Rightarrow> tds_datetimeall \<Rightarrow> tds_datetimeall" where
  "msdatetime_read t dta =
     \<lparr> dta_time = (if t = SYBMSDATE then 0 else dta_time dta), dta_date = (if t = SYBMSTIME then 0 else dta_date dta),
       offset = (if t = SYBMSDATETIMEOFFSET then offset dta else 0), time_prec = 7,
       has_time = (t \<noteq> SYBMSDATE), has_date = (t \<noteq> SYBMSTIME), has_offset = (t = SYBMSDATETIMEOFFSET) \<rparr>"

definition msdatetime_wire :: "server_type \<Rightarrow> tds_datetimeall \<Rightarrow> byte list" where
  "msdatetime_wire t dta = word_of_nat (length (msdatetime_bytes t dta)) # msdatetime_bytes t dta"

lemma tds_msdatetime_put_wire:
  assumes "sink_ok env s" "0 \<le> column_cur_size col"
  shows "\<exists>t. tds_msdatetime_put env col s = Some (TDS_SUCCESS, t) \<and> sink_ok env t \<and>
    stream t = stream s @ msdatetime_wire (server_column_type col) (data_dta col)"
proof -
  let ?buf = "msdatetime_wire (server_column_type col) (data_dta col)"
  obtain t where "tds_put_n env (Some ?buf) (length ?buf) s = Some t" "sink_ok env t" "stream t = stream s @ ?buf"
    using put_n_sink [OF assms(1) refl] by blast
  with assms(2) show ?thesis by (simp add: tds_msdatetime_put_def msdatetime_wire_def)
qed

lemma get_time_part_wire:
  assumes "incoming env (TDS_PUT_A4LE (unat v mod 2 ^ 32) @ [u8_of (unat v div 2 ^ 32)] @ rest) s" "unat v < 2 ^ 40"
    "column_prec col = 7"
  shows "\<exists>t. get_time_part env col 5 dt s = (dt \<lparr> dta_time := v, has_time := True \<rparr>, t) \<and> incoming env rest t"
proof -
  let ?b = "TDS_PUT_A4LE (unat v mod 2 ^ 32) @ [u8_of (unat v div 2 ^ 32)]"
  from assms(1) have "incoming env (?b @ rest) s" by simp
  from incoming_get [OF this, of 5] obtain t where t: "tds_get_n env 5 s = (True, ?b, t)" "incoming env rest t"
    by auto
  have "get_time_part env col 5 dt s = (dt \<lparr> dta_time := v, has_time := True \<rparr>, t)"
    unfolding get_time_part_def t(1) using le_bytes_val_5 [OF assms(2)] assms(3) by simp
  with t(2) show ?thesis by blast
qed

lemma get_date_part_wire:
  assumes "incoming env (take 3 (TDS_PUT_A4LE (unat (v + 693595))) @ rest) s" "unat (v + 693595) < 2 ^ 24"
  shows "\<exists>t. get_date_part env dt s = (dt \<lparr> has_date := True, dta_date := v \<rparr>, t) \<and> incoming env rest t"
proof -
  from incoming_get [OF assms(1), of 3] obtain t where
    t: "tds_get_n env 3 s = (True, take 3 (TDS_PUT_A4LE (unat (v + 693595))), t)" "incoming env rest t" by auto
  have "get_date_part env dt s = (dt \<lparr> has_date := True, dta_date := v \<rparr>, t)"
    unfolding get_date_part_def t(1) using le_bytes_val_3 [OF assms(2)] by simp
  with t(2) show ?thesis by blast
qed

lemma get_offset_part_wire:
  assumes "incoming env (TDS_PUT_A2LE (unat v) @ rest) s" "- 840 \<le> sint v" "sint v \<le> 840"
  shows "\<exists>t. get_offset_part env col dt s = Some (TDS_SUCCESS,
      col \<lparr> data_dta := dt \<lparr> offset := v, has_offset := True \<rparr>, column_cur_size := 16 \<rparr>, t) \<and> incoming env rest t"
proof -
  have "unat v < 2 ^ 16" using unsigned_less [of v] by simp
  from incoming_get_usmallint [OF assms(1) this] obtain t where
    t: "tds_get_usmallint env s = (Some (unat v), t)" "incoming env rest t" by blast
  with assms(2,3) show ?thesis by (simp add: get_offset_part_def int16_of_def)
qed

lemma length_msdatetime_bytes:
  "length (msdatetime_bytes t dta) =
     (if t \<noteq> SYBMSDATE then 5 else 0) + (if t \<noteq> SYBMSTIME then 3 else 0) + (if t = SYBMSDATETIMEOFFSET then 2 else 0)"
  by (simp add: msdatetime_bytes_def)

lemma tds_msdatetime_get_wire:
  assumes ok: "msdatetime_ok (column_type col) dta" and i: "incoming env (msdatetime_wire (column_type col) dta @ rest) s"
    and prec: "column_prec col = 7"
  shows "\<exists>t. tds_msdatetime_get env col s = Some (TDS_SUCCESS,
      col \<lparr> data_dta := msdatetime_read (column_type col) dta, column_cur_size := 16 \<rparr>, t) \<and> incoming env rest t"
proof -
  let ?t = "column_type col" and ?time = "TDS_PUT_A4LE (unat (dta_time dta) mod 2 ^ 32) @ [u8_of (unat (dta_time dta) div 2 ^ 32)]"
    and ?date = "take 3 (TDS_PUT_A4LE (unat (dta_date dta + 693595)))" and ?off = "TDS_PUT_A2LE (unat (offset dta))"
  have v: "unat (dta_time dta) < 2 ^ 40" "unat (dta_date dta + 693595) < 2 ^ 24" "- 840 \<le> sint (offset dta)"
    "sint (offset dta) \<le> 840" using ok by (simp_all add: msdatetime_ok_def)
  define n where "n = length (msdatetime_bytes ?t dta)"
  from i obtain s1 where s1: "tds_get_byte env s = (word_of_nat n, s1)" "incoming env (msdatetime_bytes ?t dta @ rest) s1"
    by (auto elim: incoming_get_byte simp: msdatetime_wire_def n_def)
  define dt0 where "dt0 = \<lparr> dta_time = 0, dta_date = 0, offset = 0, time_prec = 7, has_time = False, has_date = False,
      has_offset = False \<rparr>"
  define c where "c = col \<lparr> data_dta := dt0 \<rparr>"
  have c: "column_prec c = 7" "column_type c = ?t" by (simp_all add: c_def prec)
  have n: "unat (word_of_nat n :: byte) = n" "n \<noteq> 0"
    using ok by (auto simp: n_def length_msdatetime_bytes msdatetime_ok_def)
  then have n0: "word_of_nat n \<noteq> (0 :: byte)" by (metis unsigned_0)
  have body: "tds_msdatetime_get env col s =
      (let (dt, s) = (if ?t \<noteq> SYBMSDATE then get_time_part env c 5 dt0 s1 else (dt0, s1));
           (dt, s) = (if ?t \<noteq> SYBMSTIME then get_date_part env dt s else (dt, s))
       in if ?t = SYBMSDATETIMEOFFSET then get_offset_part env c dt s
          else Some (TDS_SUCCESS, c \<lparr> data_dta := dt, column_cur_size := 16 \<rparr>, s))"
    using ok s1(1) n n0 prec
    by (auto simp: tds_msdatetime_get_def Let_def n_def length_msdatetime_bytes msdatetime_ok_def c_def dt0_def)
  have time: "\<exists>t. get_time_part env c 5 dt0 s1 = (dt0 \<lparr> dta_time := dta_time dta, has_time := True \<rparr>, t) \<and> incoming env more t"
    if "incoming env (?time @ more) s1" for more
    by (rule get_time_part_wire) (use that v(1) c(1) in simp_all)
  have result: "Some (TDS_SUCCESS, c \<lparr> data_dta := dt, column_cur_size := 16 \<rparr>, t) =
      Some (TDS_SUCCESS, col \<lparr> data_dta := dt, column_cur_size := 16 \<rparr>, t)" for dt and t :: rxsocket
    by (simp add: c_def)
  from ok consider "?t = SYBMSDATE" | "?t = SYBMSTIME" | "?t = SYBMSDATETIME2" | "?t = SYBMSDATETIMEOFFSET"
    by (auto simp: msdatetime_ok_def)
  then show ?thesis
  proof cases
    case 1
    with s1(2) have "incoming env (?date @ rest) s1" by (simp add: msdatetime_bytes_def)
    from get_date_part_wire [OF this v(2), of dt0] obtain t where
      t: "get_date_part env dt0 s1 = (dt0 \<lparr> has_date := True, dta_date := dta_date dta \<rparr>, t)" "incoming env rest t" by blast
    show ?thesis unfolding body using t 1 by (simp add: result msdatetime_read_def) (simp add: dt0_def)
  next
    case 2
    with s1(2) have "incoming env (?time @ rest) s1" by (simp add: msdatetime_bytes_def)
    from time [OF this] obtain t where
      t: "get_time_part env c 5 dt0 s1 = (dt0 \<lparr> dta_time := dta_time dta, has_time := True \<rparr>, t)" "incoming env rest t" by blast
    show ?thesis unfolding body using t 2 by (simp add: result msdatetime_read_def) (simp add: dt0_def)
  next
    case 3
    with s1(2) have "incoming env (?time @ ?date @ rest) s1" by (simp add: msdatetime_bytes_def)
    from time [OF this] obtain t where
      t: "get_time_part env c 5 dt0 s1 = (dt0 \<lparr> dta_time := dta_time dta, has_time := True \<rparr>, t)"
        "incoming env (?date @ rest) t" by blast
    let ?dt1 = "dt0 \<lparr> dta_time := dta_time dta, has_time := True \<rparr>"
    from get_date_part_wire [OF t(2) v(2), of ?dt1] obtain u where
      u: "get_date_part env ?dt1 t = (?dt1 \<lparr> has_date := True, dta_date := dta_date dta \<rparr>, u)" "incoming env rest u"
      by blast
    show ?thesis unfolding body using t u 3 by (simp add: result msdatetime_read_def) (simp add: dt0_def)
  next
    case 4
    with s1(2) have "incoming env (?time @ ?date @ ?off @ rest) s1" by (simp add: msdatetime_bytes_def)
    from time [OF this] obtain t where
      t: "get_time_part env c 5 dt0 s1 = (dt0 \<lparr> dta_time := dta_time dta, has_time := True \<rparr>, t)"
        "incoming env (?date @ ?off @ rest) t" by blast
    let ?dt1 = "dt0 \<lparr> dta_time := dta_time dta, has_time := True \<rparr>"
    from get_date_part_wire [OF t(2) v(2), of ?dt1] obtain u where
      u: "get_date_part env ?dt1 t = (?dt1 \<lparr> has_date := True, dta_date := dta_date dta \<rparr>, u)" "incoming env (?off @ rest) u"
      by blast
    from get_offset_part_wire [OF u(2) v(3,4), of c "?dt1 \<lparr> has_date := True, dta_date := dta_date dta \<rparr>"] obtain x where
      x: "get_offset_part env c (?dt1 \<lparr> has_date := True, dta_date := dta_date dta \<rparr>) u = Some (TDS_SUCCESS,
        c \<lparr> data_dta := ?dt1 \<lparr> has_date := True, dta_date := dta_date dta \<rparr> \<lparr> offset := offset dta, has_offset := True \<rparr>,
            column_cur_size := 16 \<rparr>, x)" "incoming env rest x" by blast
    show ?thesis unfolding body using t(1) u(1) x 4 by (simp add: result msdatetime_read_def) (simp add: dt0_def c_def)
  qed
qed

subsection \<open>Round trips\<close>

text \<open>C15: an exact number is put in the format of the protocol version, and the other side, in whatever pieces the bytes arrive
  and whatever follows them, reads the same precision, scale, sign and magnitude: the two inversions of the sign and of
  the byte order on TDS 7 cancel out. The bytes behind the magnitude are cleared.\<close>

theorem tds_numeric_wire_roundtrip:
  assumes "sink_ok env s" "numeric_ok (data_numeric col)" "0 \<le> column_cur_size col" "ver = tds_version s"
    "incoming env' (numeric_wire ver (data_numeric col) @ rest) r"
    "column_prec col' = precision (data_numeric col)" "column_scale col' = scale (data_numeric col)"
  shows "\<exists>s' r'. tds_numeric_put env col s = Some (TDS_SUCCESS, s') \<and>
    stream s' = stream s @ numeric_wire ver (data_numeric col) \<and> out_inv s' \<and>
    tds_numeric_get env' ver col' r = Some (TDS_SUCCESS,
      col' \<lparr> data_numeric := canonical_numeric (data_numeric col), column_cur_size := 35 \<rparr>, r') \<and>
    incoming env' rest r' \<and> magnitude (canonical_numeric (data_numeric col)) = magnitude (data_numeric col)"
  using tds_numeric_put_wire [OF assms(1-3)] tds_numeric_get_wire [OF assms(2,5-7)] assms(4)
    canonical_numeric_magnitude [OF assms(2)]
  by (auto simp: sink_ok_def)

text \<open>C16: the four date types of Microsoft servers are put with their length, time, date and offset parts, and the reader gets
  back exactly the parts the type has, in the precision of 100 nanoseconds.\<close>

theorem tds_msdatetime_wire_roundtrip:
  assumes "sink_ok env s" "msdatetime_ok (server_column_type col) (data_dta col)" "0 \<le> column_cur_size col"
    "incoming env' (msdatetime_wire (server_column_type col) (data_dta col) @ rest) r"
    "column_type col' = server_column_type col" "column_prec col' = 7"
  shows "\<exists>s' r'. tds_msdatetime_put env col s = Some (TDS_SUCCESS, s') \<and>
    stream s' = stream s @ msdatetime_wire (server_column_type col) (data_dta col) \<and> out_inv s' \<and>
    tds_msdatetime_get env' col' r = Some (TDS_SUCCESS,
      col' \<lparr> data_dta := msdatetime_read (server_column_type col) (data_dta col), column_cur_size := 16 \<rparr>, r') \<and>
    incoming env' rest r'"
  using tds_msdatetime_put_wire [OF assms(1,3)] tds_msdatetime_get_wire [of col' "data_dta col" env' rest r] assms(2,4-6)
  by (auto simp: sink_ok_def)

text \<open>The eight byte times of Sybase servers.\<close>

theorem tds_sybbigtime_wire_roundtrip:
  assumes "sink_ok env s" "0 \<le> column_cur_size col" "incoming env' (8 # le8 (unat (data_big col)) @ rest) r"
  shows "\<exists>r'. tds_sybbigtime_put env col s = (TDS_SUCCESS, snd (tds_sybbigtime_put env col s)) \<and>
    stream (snd (tds_sybbigtime_put env col s)) = stream s @ 8 # le8 (unat (data_big col)) \<and>
    tds_sybbigtime_get env' col' r =
      Some (TDS_SUCCESS, col' \<lparr> column_cur_size := 8, data_big := data_big col \<rparr>, r') \<and>
    incoming env' rest r'"
  using tds_sybbigtime_put_wire [OF assms(1,2)] tds_sybbigtime_get_wire [OF assms(3)] by (auto simp: prod_eq_iff)

text \<open>Columns for the witnesses.\<close>

definition demo_col :: tdscolumn where
  "demo_col = \<lparr> column_usertype = 0, column_size = 35, column_type = SYBNUMERIC, funcs = tds_numeric_funcs,
     column_varint_size = 1, column_prec = 5, column_scale = 2, server_column_type = SYBNUMERIC, server_column_size = 35,
     column_cur_size = 35, data_buf = [],
     data_blob = \<lparr> textvalue = None, textptr = replicate 16 0, timestamp = replicate 8 0, valid_ptr = False \<rparr>,
     data_numeric = \<lparr> precision = 5, scale = 2, array = [1, 0, 1, 2] @ replicate 29 7 \<rparr>,
     data_dta = \<lparr> dta_time = 36000000000, dta_date = 40000, offset = - 60, time_prec = 7, has_time = True, has_date = True,
       has_offset = True \<rparr>,
     data_big = 7, column_collation = [] \<rparr>"

lemma demo_col_sel: "column_prec demo_col = 5" "column_scale demo_col = 2"
  by (simp_all add: demo_col_def)

theorem tds_numeric_wire_roundtrip_witness:
  "\<exists>s' r'. tds_numeric_put demo_env demo_col demo_socket = Some (TDS_SUCCESS, s') \<and> stream s' = [4, 0, 2, 1, 0] \<and>
    tds_numeric_get demo_env 0x704 demo_col (demo_in [4, 0, 2, 1, 0, 9]) = Some (TDS_SUCCESS, demo_col \<lparr> data_numeric :=
      \<lparr> precision = 5, scale = 2, array = [1, 0, 1, 2] @ replicate 29 0 \<rparr>, column_cur_size := 35 \<rparr>, r')"
proof -
  have sel: "precision (data_numeric demo_col) = 5" "scale (data_numeric demo_col) = 2"
    "array (data_numeric demo_col) = [1, 0, 1, 2] @ replicate 29 7" "0 \<le> column_cur_size demo_col" "tds_numeric_bytes_per_prec ! 5 = 4"
    by (simp_all add: demo_col_def tds_numeric_bytes_per_prec_def)
  have ok: "numeric_ok (data_numeric demo_col)"
    by (simp add: numeric_ok_def bad_prec_scale_def MAXPRECISION_def magnitude_def sel bytes_val_Cons)
  have w: "numeric_wire 0x704 (data_numeric demo_col) = [4, 0, 2, 1, 0]"
    by code_simp
  have c: "canonical_numeric (data_numeric demo_col) = \<lparr> precision = 5, scale = 2, array = [1, 0, 1, 2] @ replicate 29 0 \<rparr>"
    by code_simp
  have "incoming demo_env (numeric_wire 0x704 (data_numeric demo_col) @ [9]) (demo_in [4, 0, 2, 1, 0, 9])"
    unfolding w using demo_in_incoming [of "[4, 0, 2, 1, 0, 9]"] by simp
  from tds_numeric_wire_roundtrip [OF demo_sink(1) ok sel(4) demo_sink(2) [symmetric] this, of demo_col] demo_ok(5) sel(1,2)
  show ?thesis unfolding w c by (metis append_Nil demo_col_sel)
qed

theorem tds_msdatetime_wire_roundtrip_witness:
  "\<exists>s' r'. tds_msdatetime_put demo_env (demo_col \<lparr> server_column_type := SYBMSDATE \<rparr>) demo_socket = Some (TDS_SUCCESS, s') \<and>
    stream s' = [3, 155, 49, 11] \<and>
    tds_msdatetime_get demo_env (demo_col \<lparr> column_type := SYBMSDATE, column_prec := 7 \<rparr>) (demo_in [3, 155, 49, 11]) =
      Some (TDS_SUCCESS, demo_col \<lparr> column_type := SYBMSDATE, column_prec := 7, column_cur_size := 16,
        data_dta := msdatetime_read SYBMSDATE (data_dta demo_col) \<rparr>, r')"
proof -
  let ?c = "demo_col \<lparr> server_column_type := SYBMSDATE \<rparr>"
  have ok: "msdatetime_ok (server_column_type ?c) (data_dta ?c)"
    by (simp add: demo_col_def msdatetime_ok_def)
  have w: "msdatetime_wire (server_column_type ?c) (data_dta ?c) = [3, 155, 49, 11]"
    by (simp add: demo_col_def msdatetime_wire_def msdatetime_bytes_def TDS_PUT_A4LE_def u8_of_def)
  have "incoming demo_env (msdatetime_wire (server_column_type ?c) (data_dta ?c) @ []) (demo_in [3, 155, 49, 11])"
    unfolding w using demo_in_incoming [of "[3, 155, 49, 11]"] by simp
  moreover have "0 \<le> column_cur_size ?c" by (simp add: demo_col_def)
  ultimately obtain s' r' where "tds_msdatetime_put demo_env ?c demo_socket = Some (TDS_SUCCESS, s')" "stream s' = [3, 155, 49, 11]"
    "tds_msdatetime_get demo_env (demo_col \<lparr> column_type := SYBMSDATE, column_prec := 7 \<rparr>) (demo_in [3, 155, 49, 11]) =
      Some (TDS_SUCCESS, demo_col \<lparr> column_type := SYBMSDATE, column_prec := 7,
        data_dta := msdatetime_read SYBMSDATE (data_dta demo_col), column_cur_size := 16 \<rparr>, r')"
    using tds_msdatetime_wire_roundtrip [OF demo_sink(1) ok, of demo_env "[]" "demo_in [3, 155, 49, 11]"
      "demo_col \<lparr> column_type := SYBMSDATE, column_prec := 7 \<rparr>"] demo_ok(5) w
    by auto
  then show ?thesis by simp
qed

end
