(* ===== verification/Generic_Roundtrip.thy ===== *)
theory Generic_Roundtrip
  imports Columns_Generic Columns_Roundtrip
begin

text \<open>
  Values of the generic columns over the wire: chunked values, what is put is read back, null stays null, and no input makes the
  reader write outside the column.
\<close>

subsection \<open>Chunked values\<close>

definition heap_ok :: "col_env \<Rightarrow> bool" where
  "heap_ok ce \<longleftrightarrow> malloc_ok (heap ce) \<and> malloc_never_fails (heap ce)"

text \<open>The data of a column: the first \<open>column_cur_size\<close> bytes of its buffer.\<close>

definition col_value :: "tdscolumn \<Rightarrow> byte list" where
  "col_value col = take (nat (column_cur_size col)) (case col_src col of None \<Rightarrow> [] | Some b \<Rightarrow> b)"

lemma set_textvalue_sel [simp]:
  "textvalue (data_blob (set_textvalue b col)) = b" "column_varint_size (set_textvalue b col) = column_varint_size col"
  "column_cur_size (set_textvalue b col) = column_cur_size col" "data_buf (set_textvalue b col) = data_buf col"
  "column_size (set_textvalue b col) = column_size col" "server_column_type (set_textvalue b col) = server_column_type col"
  "textptr (data_blob (set_textvalue b col)) = textptr (data_blob col)"
  "timestamp (data_blob (set_textvalue b col)) = timestamp (data_blob col)"
  by (simp_all add: set_textvalue_def)

lemma dyn_result:
  assumes "dyn_written env bs w"
  shows "take (ds_size w) (ds_buf w) = bs" "ds_size w = length bs"
  using assms by (simp_all add: dyn_written_def)

lemma dynamic_init:
  assumes "heap_ok ce" "\<And>b. textvalue (data_blob col) = Some b \<Longrightarrow> 1024 \<le> allocated \<Longrightarrow> allocated \<le> length b"
  obtains w where "tds_dynamic_stream_init (heap ce) (textvalue (data_blob col)) allocated = Some w"
    "dyn_written (heap ce) [] w"
  using tds_dynamic_stream_init_written [of "heap ce" "textvalue (data_blob col)" allocated] assms
  by (auto simp: heap_ok_def)

lemma tds_get_char_dynamic_chunks:
  assumes "heap_ok ce" "\<And>b. textvalue (data_blob col) = Some b \<Longrightarrow> 1024 \<le> allocated \<Longrightarrow> allocated \<le> length b"
    "varmax_left env rest bs st"
  shows "\<exists>b t. tds_get_char_dynamic ce (tds_varmax_stream_read env) allocated col st =
      Some (TDS_SUCCESS, set_textvalue (Some b) col \<lparr> column_cur_size := int (length bs) \<rparr>, t) \<and>
      take (length bs) b = bs \<and> varmax_ended env rest t"
proof -
  obtain w where w: "tds_dynamic_stream_init (heap ce) (textvalue (data_blob col)) allocated = Some w"
    "dyn_written (heap ce) [] w" by (rule dynamic_init [OF assms(1,2)])
  from varmax_dynamic.copy [OF assms(3) w(2)] obtain t v where
    "tds_copy_stream (tds_varmax_stream_read env) dyn_left dyn_store (tds_dynamic_stream_write (heap ce)) st w =
      Some (TDS_SUCCESS, t, v)" "varmax_ended env rest t" "dyn_written (heap ce) bs v" by auto
  with w(1) dyn_result [OF this(3)] show ?thesis by (auto simp: tds_get_char_dynamic_def)
qed

lemma tds_get_char_dynamic_data:
  assumes "heap_ok ce" "\<And>b. textvalue (data_blob col) = Some b \<Longrightarrow> 1024 \<le> allocated \<Longrightarrow> allocated \<le> length b"
    "datain_left env rest bs st"
  shows "\<exists>b t. tds_get_char_dynamic ce (tds_datain_stream_read env) allocated col st =
      Some (TDS_SUCCESS, set_textvalue (Some b) col \<lparr> column_cur_size := int (length bs) \<rparr>, t) \<and>
      take (length bs) b = bs \<and> datain_left env rest [] t"
proof -
  obtain w where w: "tds_dynamic_stream_init (heap ce) (textvalue (data_blob col)) allocated = Some w"
    "dyn_written (heap ce) [] w" by (rule dynamic_init [OF assms(1,2)])
  from datain_dynamic.copy [OF assms(3) w(2)] obtain t v where
    "tds_copy_stream (tds_datain_stream_read env) dyn_left dyn_store (tds_dynamic_stream_write (heap ce)) st w =
      Some (TDS_SUCCESS, t, v)" "datain_left env rest [] t" "dyn_written (heap ce) bs v" by auto
  with w(1) dyn_result [OF this(3)] show ?thesis by (auto simp: tds_get_char_dynamic_def)
qed

lemma varmax_left_start:
  assumes "chunks_ok chunks" "incoming env (varmax_chunks chunks @ rest) s"
  shows "varmax_left env rest (concat chunks) (0, s)"
  unfolding varmax_left_def using assms
  by (intro disjI2 conjI exI [of _ "[]"] exI [of _ chunks]) simp_all

lemma sint_minus_one: "v < 2 ^ 64 \<Longrightarrow> v \<noteq> 2 ^ 64 - 1 \<Longrightarrow> sint (word_of_nat v :: u64) \<noteq> - 1"
proof
  assume v: "v < 2 ^ 64" "v \<noteq> 2 ^ 64 - 1" "sint (word_of_nat v :: u64) = - 1"
  from v(3) have "(word_of_nat v :: u64) = - 1" by (metis signed_minus_1 signed_word_eqI)
  then have "unat (word_of_nat v :: u64) = unat (- 1 :: u64)" by simp
  with v(1,2) show False by (simp add: unat_of_nat unsigned_minus_1_eq_mask mask_eq_exp_minus_1)
qed

lemma tds72_get_varmax_delivers:
  assumes "heap_ok ce" "chunks_ok chunks" "tot < 2 ^ 64" "tot \<noteq> 2 ^ 64 - 1"
    "incoming env (le8 tot @ varmax_chunks chunks @ rest) s"
  shows "\<exists>b t. tds72_get_varmax ce env col s = Some (TDS_SUCCESS,
      set_textvalue (Some b) col \<lparr> column_cur_size := int (length (concat chunks)) \<rparr>, t) \<and>
    take (length (concat chunks)) b = concat chunks \<and> incoming env rest t"
proof -
  from incoming_get_le8 [OF assms(5,3)] obtain s1 where
    s1: "tds_get_uint8 env s = (Some tot, s1)" "incoming env (varmax_chunks chunks @ rest) s1" by blast
  define len where "len = sint (word_of_nat tot :: u64)"
  have len: "len \<noteq> - 1" unfolding len_def by (rule sint_minus_one [OF assms(3,4)])
  define c where "c = (if 0 < len then set_textvalue None col else col)"
  define a where "a = (if 0 < len then if is_unicode_type ce (server_column_type c) then nat len div 2 else nat len else 0)"
  have "\<And>b. textvalue (data_blob c) = Some b \<Longrightarrow> 1024 \<le> a \<Longrightarrow> a \<le> length b"
    by (auto simp: c_def a_def split: if_splits)
  from tds_get_char_dynamic_chunks [OF assms(1) this varmax_left_start [OF assms(2) s1(2)]] obtain b t where
    b: "tds_get_char_dynamic ce (tds_varmax_stream_read env) a c (0, s1) =
      Some (TDS_SUCCESS, set_textvalue (Some b) c \<lparr> column_cur_size := int (length (concat chunks)) \<rparr>, t)"
      "take (length (concat chunks)) b = concat chunks" "varmax_ended env rest t" by blast
  have "set_textvalue (Some b) c = set_textvalue (Some b) col" by (simp add: c_def set_textvalue_def)
  moreover have "tds72_get_varmax ce env col s =
      Some (TDS_SUCCESS, set_textvalue (Some b) c \<lparr> column_cur_size := int (length (concat chunks)) \<rparr>, snd t)"
    using s1(1) len b(1)
    by (cases t) (simp add: tds72_get_varmax_def Let_def len_def [symmetric] c_def [symmetric] a_def [symmetric])
  moreover have "incoming env rest (snd t)" using b(3) by (simp add: varmax_ended_def)
  ultimately show ?thesis using b(2) by auto
qed

subsection \<open>The format of values\<close>

text \<open>What a value is on the wire: a length, of the size the type has, and the bytes; a blob has its text pointer and time stamp
  first, and the chunked values of TDS 7.2 come in one chunk.\<close>

definition value_wire :: "nat \<Rightarrow> bool \<Rightarrow> tdscolumn \<Rightarrow> byte list \<Rightarrow> byte list" where
  "value_wire ver bcp7 col bs =
     (if column_varint_size col = 8
      then le8 (if bcp7 then 2 ^ 64 - 2 else length bs) @ varmax_chunks (if bs = [] then [] else [bs])
      else if column_varint_size col = 5
      then 16 # (if TDS7_PLUS ver then replicate 16 0xff @ replicate 8 0xff
                 else textptr (data_blob col) @ timestamp (data_blob col)) @ TDS_PUT_A4LE (length bs) @ bs
      else if column_varint_size col = 4 then TDS_PUT_A4LE (length bs) @ bs
      else if column_varint_size col = 2 then TDS_PUT_A2LE (length bs) @ bs
      else if column_varint_size col = 1 then word_of_nat (length bs) # bs
      else bs)"

text \<open>The values that are put whole and that are not null on the wire: TDS 7 sends an empty value of a type with a one byte length
  as null, TDS 5 as a blank; a blob goes with its pointer in bulk copies only.\<close>

definition value_ok :: "col_env \<Rightarrow> nat \<Rightarrow> bool \<Rightarrow> tdscolumn \<Rightarrow> byte list \<Rightarrow> bool" where
  "value_ok ce ver bcp7 col bs \<longleftrightarrow>
     column_cur_size col = int (length bs) \<and> (\<exists>b. col_src col = Some b \<and> take (length bs) b = bs) \<and>
     length (textptr (data_blob col)) = 16 \<and> length (timestamp (data_blob col)) = 8 \<and> length bs < 2 ^ 31 \<and>
     (column_varint_size col = 8 \<and> TDS7_PLUS ver \<or>
      column_varint_size col = 5 \<and> TDS7_PLUS ver \<and> bcp7 \<and> is_blob_type (server_column_type col) \<and>
        length bs \<le> tds_fix_column_size ce col \<or>
      column_varint_size col = 5 \<and> \<not> TDS7_PLUS ver \<or>
      column_varint_size col = 4 \<and> \<not> TDS7_PLUS ver \<and> bs \<noteq> [] \<or>
      column_varint_size col = 2 \<and> length bs \<le> (if TDS7_PLUS ver then tds_fix_column_size ce col else 8000) \<or>
      column_varint_size col = 1 \<and> bs \<noteq> [] \<and> length bs \<le> (if TDS7_PLUS ver then tds_fix_column_size ce col else 255) \<or>
      column_varint_size col = 0 \<and>
        get_size_by_type ce (if TDS7_PLUS ver then server_column_type col else column_type col) = int (length bs))"

lemma IS_TDS7_PLUS_ver: "IS_TDS7_PLUS s = TDS7_PLUS (tds_version s)"
  by (simp add: IS_TDS7_PLUS_def TDS7_PLUS_def)

lemma fix_size_bounds:
  "column_varint_size col = 1 \<Longrightarrow> tds_fix_column_size ce col \<le> 255"
  "column_varint_size col = 2 \<Longrightarrow> tds_fix_column_size ce col \<le> 8000"
  by (simp_all add: tds_fix_column_size_def Let_def clamp_def)

lemma put_src_sink:
  assumes "sink_ok env s" "col_src col = Some b" "take (length bs) b = bs" "length bs = n"
  obtains t where "put_src env col n s = Some t" "sink_ok env t" "stream t = stream s @ bs" "tds_version t = tds_version s"
  using put_n_sink [OF assms(1,4)] assms by (auto simp: put_src_def)

lemma unat_of_nat_small:
  "n < 2 ^ 16 \<Longrightarrow> unat (word_of_nat n :: u16) = n" "n < 2 ^ 32 \<Longrightarrow> unat (word_of_nat n :: u32) = n"
  "n < 2 ^ 64 \<Longrightarrow> unat (word_of_nat n :: u64) = n"
  by (simp_all add: unat_of_nat)

lemma put_data7_wire:
  assumes s: "sink_ok env s" and v: "value_ok ce ver bcp7 col bs" "TDS7_PLUS ver"
  shows "\<exists>t. put_data7 ce env col bcp7 s = Some t \<and> sink_ok env t \<and> stream t = stream s @ value_wire ver bcp7 col bs"
proof -
  define n where "n = length bs"
  from v(1) obtain b where b: "col_src col = Some b" "take (length bs) b = bs" by (auto simp: value_ok_def)
  have n: "nat (column_cur_size col) = n" "n < 2 ^ 31" "length bs = n" using v(1) by (simp_all add: value_ok_def n_def)
  note put = put_src_sink [OF _ b n(3)]
  consider "column_varint_size col = 8"
    | "column_varint_size col = 5" "bcp7" "is_blob_type (server_column_type col)" "n \<le> tds_fix_column_size ce col"
    | "column_varint_size col = 2" "n \<le> tds_fix_column_size ce col"
    | "column_varint_size col = 1" "n \<le> tds_fix_column_size ce col"
    | "column_varint_size col = 0" "get_size_by_type ce (server_column_type col) = int n"
    using v by (auto simp: value_ok_def n_def)
  then show ?thesis
  proof cases
    case 1
    let ?s = "tds_put_int env (word_of_nat n) (tds_put_int8 env (if bcp7 then - 2 else word_of_nat n) s)"
    have "unat (if bcp7 then - 2 else word_of_nat n :: u64) = (if bcp7 then 2 ^ 64 - 2 else n)"
      using n(2) by (simp add: unat_of_nat)
    then have s1: "stream ?s = stream s @ le8 (if bcp7 then 2 ^ 64 - 2 else n) @ TDS_PUT_A4LE n"
      using s n(2) by (simp add: unat_of_nat_small)
    have "sink_ok env ?s" using s by simp
    then obtain t where t: "put_src env col n ?s = Some t" "sink_ok env t" "stream t = stream ?s @ bs" by (rule put)
    have "put_data7 ce env col bcp7 s = Some (if n \<noteq> 0 then tds_put_int env 0 t else t)"
      using 1 n t(1) by (simp add: put_data7_def Let_def)
    moreover have "stream (if n \<noteq> 0 then tds_put_int env 0 t else t) = stream s @ value_wire ver bcp7 col bs"
      using 1 t s1 n(3) by (auto simp: value_wire_def varmax_chunks_def)
    moreover have "sink_ok env (if n \<noteq> 0 then tds_put_int env 0 t else t)" using t(2) by simp
    ultimately show ?thesis by blast
  next
    case 2
    obtain s1 where s1: "tds_put_n env (Some (replicate 16 0xff)) 16 (tds_put_byte env 16 s) = Some s1" "sink_ok env s1"
      "stream s1 = stream s @ 16 # replicate 16 0xff"
      using put_n_sink [of env "tds_put_byte env 16 s" "replicate 16 0xff" 16] s by auto
    obtain s2 where s2: "tds_put_n env (Some (replicate 8 0xff)) 8 s1 = Some s2" "sink_ok env s2"
      "stream s2 = stream s1 @ replicate 8 0xff"
      using put_n_sink [OF s1(2), of "replicate 8 0xff" 8] by auto
    have "sink_ok env (tds_put_int env (word_of_nat n) s2)" using s2(2) by simp
    then obtain t where t: "put_src env col n (tds_put_int env (word_of_nat n) s2) = Some t" "sink_ok env t"
      "stream t = stream (tds_put_int env (word_of_nat n) s2) @ bs"
      by (rule put)
    have "put_data7 ce env col bcp7 s = Some t"
      using 2 n s1(1) s2(1) t(1) by (simp add: put_data7_def Let_def min_absorb1)
    moreover have "stream t = stream s @ value_wire ver bcp7 col bs"
      using 2 t(3) s2(2,3) s1(3) n(2,3) v(2) by (simp add: value_wire_def unat_of_nat_small)
    ultimately show ?thesis using t(2) by blast
  next
    case 3
    have "sink_ok env (tds_put_smallint env (word_of_nat n) s)" using s by simp
    then obtain t where t: "put_src env col n (tds_put_smallint env (word_of_nat n) s) = Some t" "sink_ok env t"
      "stream t = stream (tds_put_smallint env (word_of_nat n) s) @ bs"
      by (rule put)
    have "put_data7 ce env col bcp7 s = Some t" using 3 n t(1) by (simp add: put_data7_def Let_def min_absorb1)
    moreover have "stream t = stream s @ value_wire ver bcp7 col bs"
      using 3 t(3) s n(3) fix_size_bounds(2) [OF 3(1), of ce] by (simp add: value_wire_def unat_of_nat_small)
    ultimately show ?thesis using t(2) by blast
  next
    case 4
    have "sink_ok env (tds_put_byte env (word_of_nat n) s)" using s by simp
    then obtain t where t: "put_src env col n (tds_put_byte env (word_of_nat n) s) = Some t" "sink_ok env t"
      "stream t = stream (tds_put_byte env (word_of_nat n) s) @ bs"
      by (rule put)
    have "put_data7 ce env col bcp7 s = Some t" using 4 n t(1) by (simp add: put_data7_def Let_def min_absorb1)
    moreover have "stream t = stream s @ value_wire ver bcp7 col bs" using 4 t(3) s n(3) by (simp add: value_wire_def)
    ultimately show ?thesis using t(2) by blast
  next
    case 5
    have "sink_ok env s" using s by simp
    then obtain t where t: "put_src env col n s = Some t" "sink_ok env t" "stream t = stream s @ bs"
      by (rule put)
    have "put_data7 ce env col bcp7 s = Some t" using 5 n(2) t(1) by (simp add: put_data7_def size_t_of_def)
    moreover have "stream t = stream s @ value_wire ver bcp7 col bs" using 5 t(3) by (simp add: value_wire_def)
    ultimately show ?thesis using t(2) by blast
  qed
qed

lemma put_data5_wire:
  assumes s: "sink_ok env s" and v: "value_ok ce ver bcp7 col bs" "\<not> TDS7_PLUS ver"
  shows "\<exists>t. put_data5 ce env col s = Some t \<and> sink_ok env t \<and> stream t = stream s @ value_wire ver bcp7 col bs"
proof -
  define n where "n = length bs"
  from v(1) obtain b where b: "col_src col = Some b" "take (length bs) b = bs" by (auto simp: value_ok_def)
  have n: "nat (column_cur_size col) = n" "n < 2 ^ 31" "length bs = n" "length (textptr (data_blob col)) = 16"
    "length (timestamp (data_blob col)) = 8" using v(1) by (simp_all add: value_ok_def n_def)
  note put = put_src_sink [OF _ b n(3)]
  consider "column_varint_size col = 5" | "column_varint_size col = 4" | "column_varint_size col = 2" "n \<le> 8000"
    | "column_varint_size col = 1" "n \<noteq> 0" "n \<le> 255"
    | "column_varint_size col = 0" "get_size_by_type ce (column_type col) = int n"
    using v by (auto simp: value_ok_def n_def)
  then show ?thesis
  proof cases
    case 1
    obtain s1 where s1: "tds_put_n env (Some (textptr (data_blob col))) 16 (tds_put_byte env 16 s) = Some s1"
      "sink_ok env s1" "stream s1 = stream s @ 16 # textptr (data_blob col)"
      using put_n_sink [of env "tds_put_byte env 16 s" _ 16] s n(4) by auto
    obtain s2 where s2: "tds_put_n env (Some (timestamp (data_blob col))) 8 s1 = Some s2" "sink_ok env s2"
      "stream s2 = stream s1 @ timestamp (data_blob col)"
      using put_n_sink [OF s1(2), of _ 8] n(5) by auto
    have "sink_ok env (tds_put_int env (word_of_nat n) s2)" using s2(2) by simp
    then obtain t where t: "put_src env col n (tds_put_int env (word_of_nat n) s2) = Some t" "sink_ok env t"
      "stream t = stream (tds_put_int env (word_of_nat n) s2) @ bs"
      by (rule put)
    have "put_data5 ce env col s = Some t"
      using 1 n s1(1) s2(1) t(1) by (simp add: put_data5_def Let_def min_absorb1)
    moreover have "stream t = stream s @ value_wire ver bcp7 col bs"
      using 1 t(3) s2(2,3) s1(3) n(2,3) v(2) by (simp add: value_wire_def unat_of_nat_small)
    ultimately show ?thesis using t(2) by blast
  next
    case 2
    have "sink_ok env (tds_put_int env (word_of_nat n) s)" using s by simp
    then obtain t where t: "put_src env col n (tds_put_int env (word_of_nat n) s) = Some t" "sink_ok env t"
      "stream t = stream (tds_put_int env (word_of_nat n) s) @ bs"
      by (rule put)
    have "put_data5 ce env col s = Some t" using 2 n t(1) by (simp add: put_data5_def Let_def min_absorb1)
    moreover have "stream t = stream s @ value_wire ver bcp7 col bs"
      using 2 t(3) s n(2,3) by (simp add: value_wire_def unat_of_nat_small)
    ultimately show ?thesis using t(2) by blast
  next
    case 3
    have "sink_ok env (tds_put_smallint env (word_of_nat n) s)" using s by simp
    then obtain t where t: "put_src env col n (tds_put_smallint env (word_of_nat n) s) = Some t" "sink_ok env t"
      "stream t = stream (tds_put_smallint env (word_of_nat n) s) @ bs"
      by (rule put)
    have "put_data5 ce env col s = Some t" using 3 n t(1) by (simp add: put_data5_def Let_def min_absorb1)
    moreover have "stream t = stream s @ value_wire ver bcp7 col bs"
      using 3 t(3) s n(3) by (simp add: value_wire_def unat_of_nat_small)
    ultimately show ?thesis using t(2) by blast
  next
    case 4
    have "sink_ok env (tds_put_byte env (word_of_nat n) s)" using s by simp
    then obtain t where t: "put_src env col n (tds_put_byte env (word_of_nat n) s) = Some t" "sink_ok env t"
      "stream t = stream (tds_put_byte env (word_of_nat n) s) @ bs"
      by (rule put)
    have "put_data5 ce env col s = Some t" using 4 n t(1) by (simp add: put_data5_def Let_def min_absorb1)
    moreover have "stream t = stream s @ value_wire ver bcp7 col bs" using 4 t(3) s n(3) by (simp add: value_wire_def)
    ultimately show ?thesis using t(2) by blast
  next
    case 5
    have "sink_ok env s" using s by simp
    then obtain t where t: "put_src env col n s = Some t" "sink_ok env t" "stream t = stream s @ bs"
      by (rule put)
    have "put_data5 ce env col s = Some t" using 5 n(2) t(1) by (simp add: put_data5_def size_t_of_def)
    moreover have "stream t = stream s @ value_wire ver bcp7 col bs" using 5 t(3) by (simp add: value_wire_def)
    ultimately show ?thesis using t(2) by blast
  qed
qed

lemma tds_generic_put_wire:
  assumes "sink_ok env s" "value_ok ce (tds_version s) bcp7 col bs"
  shows "\<exists>t. tds_generic_put ce env col bcp7 s = Some (TDS_SUCCESS, t) \<and> sink_ok env t \<and>
    stream t = stream s @ value_wire (tds_version s) bcp7 col bs"
proof -
  have "\<not> column_cur_size col < 0" using assms(2) by (simp add: value_ok_def)
  then show ?thesis
    using put_data7_wire [OF assms] put_data5_wire [OF assms]
    by (cases "TDS7_PLUS (tds_version s)") (auto simp: tds_generic_put_def IS_TDS7_PLUS_ver)
qed

subsection \<open>Reading values\<close>

text \<open>Fixed buffers: what is more than the column holds is dropped, what is less is padded.\<close>

definition padded :: "tdscolumn \<Rightarrow> byte list \<Rightarrow> byte list" where
  "padded col data =
     data @ (case pad_char col of None \<Rightarrow> [] | Some c \<Rightarrow> replicate (nat (column_size col) - length data) c)"

lemma write_at_twice:
  "length xs + length ys \<le> length buf \<Longrightarrow> write_at (write_at buf 0 xs) (length xs) ys = write_at buf 0 (xs @ ys)"
  by (simp add: write_at_def add.commute)

lemma get_plain_data_wire:
  assumes "incoming env (bs @ rest) s" "0 \<le> column_size col" "nat (column_size col) \<le> length (data_buf col)"
  shows "\<exists>t. get_plain_data env (int (length bs)) col s = (TDS_SUCCESS,
      col \<lparr> data_buf := write_at (data_buf col) 0 (padded col (take (nat (column_size col)) bs)),
            column_cur_size := int (length (take (nat (column_size col)) bs)) \<rparr>, t) \<and> incoming env rest t"
proof -
  define m where "m = nat (column_size col)"
  have cs: "column_size col = int m" using assms(2) by (simp add: m_def)
  define data where "data = take m bs"
  have split: "bs @ rest = data @ (drop m bs @ rest)" by (simp add: data_def)
  from incoming_get [OF assms(1) [unfolded split] refl] obtain t where
    t: "tds_get_n env (length data) s = (True, data, t)" "incoming env (drop m bs @ rest) t" by blast
  obtain u where u: "(if m < length bs then snd (snd (tds_get_n env (length bs - m) t)) else t) = u" "incoming env rest u"
  proof (cases "m < length bs")
    case True
    from incoming_get [OF t(2), of "length bs - m"] obtain u where
      "tds_get_n env (length bs - m) t = (True, drop m bs, u)" "incoming env rest u" by auto
    with True that show thesis by simp
  qed (use t(2) that in simp)
  have ld: "length data = min m (length bs)" by (simp add: data_def)
  define colsize where "colsize = (if m < length bs then m else length bs)"
  have cl: "colsize = length data" using ld by (simp add: colsize_def min_def)
  let ?dest = "write_at (data_buf col) 0 data"
  have dest: "(case pad_char col of None \<Rightarrow> ?dest
      | Some c \<Rightarrow> if int colsize < int m then write_at ?dest (nat (int colsize)) (replicate (nat (int m - int colsize)) c)
                 else ?dest) =
      write_at (data_buf col) 0 (padded col data)"
  proof (cases "pad_char col")
    case (Some c)
    have "nat (int m - int (length data)) = m - length data" by simp
    with Some show ?thesis using write_at_twice [of data "replicate (m - length data) c" "data_buf col"] assms(3) ld
      by (auto simp: padded_def m_def [symmetric] cl)
  qed (simp add: padded_def)
  have "get_plain_data env (int (length bs)) col s =
      (let discard_len = (if int m < int (length bs) then int (length bs) - int m else 0);
           (ok, got, s) = tds_get_n env colsize s;
           dest = write_at (data_buf col) 0 got
       in if \<not> ok then (TDS_FAIL, col \<lparr> data_buf := dest \<rparr>, s)
          else let s = (if 0 < discard_len then snd (snd (tds_get_n env (nat discard_len) s)) else s);
                   dest = (case pad_char col of None \<Rightarrow> dest
                     | Some c \<Rightarrow> if int colsize < int m
                                then write_at dest (nat (int colsize)) (replicate (nat (int m - int colsize)) c) else dest)
               in (TDS_SUCCESS, col \<lparr> data_buf := dest, column_cur_size := int colsize \<rparr>, s))"
    unfolding get_plain_data_def cs colsize_def by (cases "m < length bs") (simp_all add: Let_def)
  also have "\<dots> = (TDS_SUCCESS, col \<lparr> data_buf := write_at (data_buf col) 0 (padded col data), column_cur_size := int (length data) \<rparr>, u)"
    using t(1) [folded cl] u(1) dest by (cases "m < length bs") (simp_all add: Let_def cl nat_diff_distrib')
  finally show ?thesis using u(2) by (auto simp: data_def m_def)
qed

text \<open>The block a column keeps is at least as large as the value it held.\<close>

definition blob_fits :: "tdscolumn \<Rightarrow> bool" where
  "blob_fits col \<longleftrightarrow> (\<forall>b. textvalue (data_blob col) = Some b \<longrightarrow> nat (column_cur_size col) \<le> length b)"

definition reads_value :: "tdscolumn \<Rightarrow> byte list \<Rightarrow> tdscolumn \<Rightarrow> bool" where
  "reads_value col bs col' \<longleftrightarrow> column_cur_size col' = int (length bs) \<and> col_value col' = bs \<and>
     column_varint_size col' = column_varint_size col"

lemma get_blob_data_wire:
  assumes "incoming env (bs @ rest) s" "heap_ok ce" "blob_fits col" "is_blob_col col"
  shows "\<exists>col' t. get_blob_data ce env (int (length bs)) col s = Some (TDS_SUCCESS, col', t) \<and>
    reads_value col bs col' \<and> incoming env rest t \<and>
    textptr (data_blob col') = textptr (data_blob col) \<and> timestamp (data_blob col') = timestamp (data_blob col)"
proof (cases "bs = []")
  case True
  with assms(1,4) show ?thesis
    by (simp add: get_blob_data_def reads_value_def col_value_def col_src_def is_blob_col_def)
next
  case False
  define n where "n = int (length bs)"
  have n: "n \<noteq> 0" "nat n = length bs" using False by (simp_all add: n_def)
  define a where "a = max (column_cur_size col) 0"
  define c where "c = (if a < n then set_textvalue None col else col)"
  define al where "al = (if a < n then if is_unicode_type ce (server_column_type col) then n div 2 else n else a)"
  have "\<And>b. textvalue (data_blob c) = Some b \<Longrightarrow> 1024 \<le> nat al \<Longrightarrow> nat al \<le> length b"
    using assms(3) by (auto simp: c_def al_def a_def blob_fits_def max_def split: if_splits)
  moreover have "datain_left env rest bs (length bs, s)" using assms(1) by (simp add: datain_left_def)
  ultimately obtain b t where b: "tds_get_char_dynamic ce (tds_datain_stream_read env) (nat al) c (length bs, s) =
      Some (TDS_SUCCESS, set_textvalue (Some b) c \<lparr> column_cur_size := n \<rparr>, t)" "take (length bs) b = bs"
      "datain_left env rest [] t"
    using tds_get_char_dynamic_data [OF assms(2)] n_def by blast
  have sc: "set_textvalue (Some b) c = set_textvalue (Some b) col" by (simp add: c_def set_textvalue_def)
  have "get_blob_data ce env n col s =
      (case tds_get_char_dynamic ce (tds_datain_stream_read env) (nat al) c (length bs, s) of
         None \<Rightarrow> None
       | Some (ret, col, (wire_size, s)) \<Rightarrow>
           if ret = TDS_FAIL \<and> 0 < wire_size then Some (ret, col, snd (snd (tds_get_n env wire_size s)))
           else Some (TDS_SUCCESS, col, s))"
    using n by (simp add: get_blob_data_def Let_def a_def [symmetric] c_def al_def bind_eq_None_conv split: option.splits)
  with b sc have "get_blob_data ce env n col s = Some (TDS_SUCCESS, set_textvalue (Some b) col \<lparr> column_cur_size := n \<rparr>, snd t)"
    by (simp split: prod.splits)
  moreover have "reads_value col bs (set_textvalue (Some b) col \<lparr> column_cur_size := n \<rparr>)"
    using b(2) n assms(4) by (simp add: reads_value_def col_value_def col_src_def is_blob_col_def set_textvalue_def n_def)
  moreover have "incoming env rest (snd t)" using b(3) by (simp add: datain_left_def)
  ultimately show ?thesis by (auto simp: n_def set_textvalue_def)
qed

text \<open>A column to read into: of the same kind, with enough memory.\<close>

definition reader_ok :: "col_env \<Rightarrow> tdscolumn \<Rightarrow> byte list \<Rightarrow> tdscolumn \<Rightarrow> bool" where
  "reader_ok ce col bs col' \<longleftrightarrow> column_varint_size col' = column_varint_size col \<and>
     (if is_blob_col col
      then heap_ok ce \<and> blob_fits col' \<and> length (textptr (data_blob col')) = 16 \<and> length (timestamp (data_blob col')) = 8
      else int (length bs) \<le> column_size col' \<and> nat (column_size col') \<le> length (data_buf col') \<and>
        (column_varint_size col = 0 \<longrightarrow> get_size_by_type ce (column_type col') = int (length bs)))"

lemma get_plain_value:
  assumes "incoming env (bs @ rest) s" "int (length bs) \<le> column_size col" "nat (column_size col) \<le> length (data_buf col)"
    "\<not> is_blob_col col"
  shows "\<exists>col' t. get_plain_data env (int (length bs)) col s = (TDS_SUCCESS, col', t) \<and> reads_value col bs col' \<and>
    incoming env rest t"
proof -
  have "take (nat (column_size col)) bs = bs" "0 \<le> column_size col" using assms(2) by simp_all
  moreover have "take (length bs) (write_at (data_buf col) 0 (padded col bs)) = bs"
    by (simp add: write_at_def padded_def)
  ultimately show ?thesis
    using get_plain_data_wire [OF assms(1) _ assms(3)] assms(4)
    by (fastforce simp: reads_value_def col_value_def col_src_def is_blob_col_def)
qed

lemma int16_of_small: "n < 2 ^ 15 \<Longrightarrow> int16_of n = int n"
  by (simp add: int16_of_def signed_of_nat signed_take_bit_int_eq_self)

lemma sint32_of_small: "n < 2 ^ 31 \<Longrightarrow> sint32_of n = int n"
  by (simp add: sint32_of_def sint_of_length)

lemma get_colsize_blob_wire:
  assumes "column_varint_size col = 5" "length ptr = 16" "length stamp = 8" "n < 2 ^ 31"
    "length (textptr (data_blob col)) = 16" "length (timestamp (data_blob col)) = 8"
    "incoming env (16 # ptr @ stamp @ TDS_PUT_A4LE n @ rest) s"
  shows "\<exists>col' t. get_colsize ce ver env col s = (Some (int n), col', t) \<and> incoming env rest t \<and> \<not> rx_dead t \<and>
    textptr (data_blob col') = ptr \<and> timestamp (data_blob col') = stamp \<and>
    textvalue (data_blob col') = textvalue (data_blob col) \<and> column_cur_size col' = column_cur_size col \<and>
    column_varint_size col' = column_varint_size col"
proof -
  from assms(7) obtain s1 where s1: "tds_get_byte env s = (16, s1)" "incoming env (ptr @ stamp @ TDS_PUT_A4LE n @ rest) s1"
    by (auto elim: incoming_get_byte)
  from incoming_get [OF s1(2) assms(2)] obtain s2 where s2: "tds_get_n env 16 s1 = (True, ptr, s2)"
    "incoming env (stamp @ TDS_PUT_A4LE n @ rest) s2" by blast
  from incoming_get [OF s2(2) assms(3)] obtain s3 where s3: "tds_get_n env 8 s2 = (True, stamp, s3)"
    "incoming env (TDS_PUT_A4LE n @ rest) s3" by blast
  have "n < 2 ^ 32" using assms(4) by simp
  from incoming_get_uint [OF s3(2) this] obtain s4 where s4: "tds_get_uint env s3 = (Some n, s4)" "incoming env rest s4"
    "\<not> rx_dead s4" by blast
  have "write_at (textptr (data_blob col)) 0 ptr = ptr" "write_at (timestamp (data_blob col)) 0 stamp = stamp"
    using assms(2,3,5,6) by (simp_all add: write_at_def)
  with s1(1) s2(1) s3(1) s4 assms(1) show ?thesis
    by (auto simp: get_colsize_def sint32_of_small [OF assms(4)] Let_def)
qed

lemma tds_generic_get_wire:
  assumes v: "value_ok ce ver bcp7 col bs" and r: "reader_ok ce col bs col'"
    and i: "incoming env (value_wire ver bcp7 col bs @ rest) s"
  shows "\<exists>col'' t. tds_generic_get ce ver env col' s = Some (TDS_SUCCESS, col'', t) \<and> reads_value col' bs col'' \<and>
    incoming env rest t"
proof -
  define n where "n = length bs"
  have n: "n < 2 ^ 31" "length bs = n" using v by (simp_all add: value_ok_def n_def)
  have vs: "column_varint_size col' = column_varint_size col" using r by (simp add: reader_ok_def)
  have plain: "\<exists>col'' t. Some (get_plain_data env (int n) col' u) = Some (TDS_SUCCESS, col'', t) \<and> reads_value col' bs col'' \<and>
      incoming env rest t" if "incoming env (bs @ rest) u" "column_varint_size col \<le> 2" for u
    using get_plain_value [OF that(1), of col'] r that(2) vs n(2) by (simp add: reader_ok_def is_blob_col_def)
  consider "column_varint_size col = 8" | "column_varint_size col = 5" | "column_varint_size col = 4" "bs \<noteq> []"
    | "column_varint_size col = 2" "n \<le> 8000" | "column_varint_size col = 1" "bs \<noteq> []" "n \<le> 255"
    | "column_varint_size col = 0"
    using v fix_size_bounds [of col ce] by (auto simp: value_ok_def n_def split: if_splits)
  then show ?thesis
  proof cases
    case 1
    define chunks where "chunks = (if bs = [] then [] else [bs])"
    define tot where "tot = (if bcp7 then 2 ^ 64 - 2 else length bs)"
    have ch: "chunks_ok chunks" "concat chunks = bs" using n by (auto simp: chunks_def chunks_ok_def)
    have tot: "tot < 2 ^ 64" "tot \<noteq> 2 ^ 64 - 1" using n by (auto simp: tot_def)
    from i 1 have "incoming env (le8 tot @ varmax_chunks chunks @ rest) s"
      by (simp add: value_wire_def chunks_def tot_def)
    from tds72_get_varmax_delivers [OF _ ch(1) tot this, of ce col'] r 1 obtain b t where
      t: "tds72_get_varmax ce env col' s = Some (TDS_SUCCESS, set_textvalue (Some b) col' \<lparr> column_cur_size := int n \<rparr>, t)"
        "take n b = bs" "incoming env rest t"
      by (auto simp: reader_ok_def is_blob_col_def ch(2) n(2))
    then show ?thesis using 1 vs n(2)
      by (auto simp: tds_generic_get_def reads_value_def col_value_def col_src_def is_blob_col_def set_textvalue_def)
  next
    case 2
    define ptr where "ptr = (if TDS7_PLUS ver then replicate 16 0xff else textptr (data_blob col))"
    define stamp where "stamp = (if TDS7_PLUS ver then replicate 8 0xff else timestamp (data_blob col))"
    have l: "length ptr = 16" "length stamp = 8" using v by (auto simp: ptr_def stamp_def value_ok_def)
    from i 2 have "incoming env (16 # ptr @ stamp @ TDS_PUT_A4LE n @ bs @ rest) s"
      by (simp add: value_wire_def ptr_def stamp_def n_def split: if_splits)
    from get_colsize_blob_wire [OF _ l n(1) _ _ this, of col' ce ver] r 2 vs obtain c u where
      u: "get_colsize ce ver env col' s = (Some (int n), c, u)" "incoming env (bs @ rest) u" "\<not> rx_dead u"
        "textvalue (data_blob c) = textvalue (data_blob col')" "column_cur_size c = column_cur_size col'"
        "column_varint_size c = column_varint_size col'"
      by (auto simp: reader_ok_def is_blob_col_def)
    have "heap_ok ce" "blob_fits c" "is_blob_col c" using r 2 vs u(4-6) by (simp_all add: reader_ok_def is_blob_col_def blob_fits_def)
    from get_blob_data_wire [OF u(2) this] u(1,3) 2 vs n(2) u(6) \<open>is_blob_col c\<close> show ?thesis
      by (auto simp: tds_generic_get_def reads_value_def)
  next
    case 3
    have "n < 2 ^ 32" using n by simp
    from i 3 n(2) have "incoming env (TDS_PUT_A4LE n @ bs @ rest) s" by (simp add: value_wire_def)
    from incoming_get_uint [OF this \<open>n < 2 ^ 32\<close>] obtain u where
      u: "tds_get_uint env s = (Some n, u)" "incoming env (bs @ rest) u" "\<not> rx_dead u" by blast
    have "heap_ok ce" "blob_fits col'" "is_blob_col col'" using r 3 vs by (simp_all add: reader_ok_def is_blob_col_def)
    moreover have "get_colsize ce ver env col' s = (Some (int n), col', u)"
      using u(1) 3 vs n by (simp add: get_colsize_def Let_def sint32_of_small n_def [symmetric]) (simp add: n_def)
    ultimately show ?thesis using get_blob_data_wire [OF u(2), of ce col'] u(3) 3 vs n(2)
      by (auto simp: tds_generic_get_def)
  next
    case 4
    from i 4 n(2) have "incoming env (TDS_PUT_A2LE n @ bs @ rest) s" by (simp add: value_wire_def)
    from incoming_get_usmallint [OF this] 4(2) obtain u where
      u: "tds_get_usmallint env s = (Some n, u)" "incoming env (bs @ rest) u" "\<not> rx_dead u" by auto
    have "get_colsize ce ver env col' s = (Some (int n), col', u)"
      using u(1) 4 vs by (simp add: get_colsize_def Let_def int16_of_small)
    with plain [OF u(2)] 4 u(3) vs show ?thesis by (simp add: tds_generic_get_def is_blob_col_def)
  next
    case 5
    from i 5 n(2) have "incoming env (word_of_nat n # bs @ rest) s" by (simp add: value_wire_def)
    then obtain u where u: "tds_get_byte env s = (word_of_nat n, u)" "incoming env (bs @ rest) u" "\<not> rx_dead u"
      by (rule incoming_get_byte)
    have "get_colsize ce ver env col' s = (Some (int n), col', u)"
      using u(1) 5 vs arg_cong [OF unat_byte_of [of n], of int] by (simp add: get_colsize_def Let_def n_def)
    with plain [OF u(2)] 5 u(3) vs show ?thesis by (simp add: tds_generic_get_def is_blob_col_def)
  next
    case 6
    have "\<not> rx_dead s" using i by (auto simp: incoming_def feed_def)
    moreover have "get_colsize ce ver env col' s = (Some (int n), col', s)"
      using r 6 vs by (simp add: get_colsize_def Let_def reader_ok_def is_blob_col_def n_def)
    moreover have "incoming env (bs @ rest) s" using i 6 by (simp add: value_wire_def)
    ultimately show ?thesis using plain [of s] 6 vs by (simp add: tds_generic_get_def is_blob_col_def)
  qed
qed

subsection \<open>Null\<close>

definition null_ok :: "nat \<Rightarrow> bool \<Rightarrow> tdscolumn \<Rightarrow> bool" where
  "null_ok ver bcp7 col \<longleftrightarrow> column_cur_size col < 0 \<and>
     (column_varint_size col \<in> {1, 2, 4, 8} \<or>
      column_varint_size col = 5 \<and> (bcp7 \<or> \<not> TDS7_PLUS ver) \<and> is_blob_type (server_column_type col))"

definition null_wire :: "tdscolumn \<Rightarrow> byte list" where
  "null_wire col =
     (if column_varint_size col = 8 then le8 (2 ^ 64 - 1) else if column_varint_size col = 4 then TDS_PUT_A4LE 0
      else if column_varint_size col = 2 then TDS_PUT_A2LE 0xffff else [0])"

lemma tds_generic_put_null:
  assumes "sink_ok env s" "null_ok (tds_version s) bcp7 col"
  shows "\<exists>t. tds_generic_put ce env col bcp7 s = Some (TDS_SUCCESS, t) \<and> sink_ok env t \<and> stream t = stream s @ null_wire col"
proof -
  have "unat (- 1 :: u64) = 2 ^ 64 - 1" "unat (- 1 :: u16) = 0xffff"
    by (simp_all add: unsigned_minus_1_eq_mask mask_eq_exp_minus_1)
  with assms show ?thesis
    by (auto simp: tds_generic_put_def null_ok_def put_null_def null_wire_def IS_TDS7_PLUS_ver)
qed

lemma tds_generic_get_null:
  assumes "null_ok ver bcp7 col" "column_varint_size col' = column_varint_size col" "incoming env (null_wire col @ rest) s"
  shows "\<exists>t. tds_generic_get ce ver' env col' s = Some (TDS_SUCCESS, set_null col', t) \<and> incoming env rest t"
proof -
  consider "column_varint_size col = 8" | "column_varint_size col = 4" | "column_varint_size col = 2"
    | "column_varint_size col = 1 \<or> column_varint_size col = 5" using assms(1) by (auto simp: null_ok_def)
  then show ?thesis
  proof cases
    case 1
    with assms(3) have i: "incoming env (le8 (2 ^ 64 - 1) @ rest) s" by (simp add: null_wire_def)
    have "(2 ^ 64 - 1 :: nat) < 2 ^ 64" by simp
    from incoming_get_le8 [OF i this] obtain t where t: "tds_get_uint8 env s = (Some (2 ^ 64 - 1), t)" "incoming env rest t"
      by blast
    have "sint (word_of_nat (2 ^ 64 - 1) :: u64) = - 1" by simp
    with t 1 assms(2) show ?thesis by (simp add: tds_generic_get_def tds72_get_varmax_def)
  next
    case 2
    with assms(3) have "incoming env (TDS_PUT_A4LE 0 @ rest) s" by (simp add: null_wire_def)
    from incoming_get_uint [OF this] obtain t where t: "tds_get_uint env s = (Some 0, t)" "incoming env rest t"
      "\<not> rx_dead t" by auto
    with 2 assms(2) show ?thesis by (simp add: tds_generic_get_def get_colsize_def sint32_of_def)
  next
    case 3
    with assms(3) have "incoming env (TDS_PUT_A2LE 0xffff @ rest) s" by (simp add: null_wire_def)
    from incoming_get_usmallint [OF this] obtain t where t: "tds_get_usmallint env s = (Some 0xffff, t)" "incoming env rest t"
      "\<not> rx_dead t" by auto
    with 3 assms(2) show ?thesis by (simp add: tds_generic_get_def get_colsize_def int16_of_def)
  next
    case 4
    with assms(3) have "incoming env (0 # rest) s" by (auto simp: null_wire_def)
    then obtain t where t: "tds_get_byte env s = (0, t)" "incoming env rest t" "\<not> rx_dead t" by (rule incoming_get_byte)
    with 4 assms(2) show ?thesis by (auto simp: tds_generic_get_def get_colsize_def)
  qed
qed

subsection \<open>Whatever the server sends\<close>

lemma tds_get_n_length: "tds_get_n env n s = (ok, got, t) \<Longrightarrow> length got \<le> n"
proof (induction "net_left s" arbitrary: n s ok got t rule: less_induct)
  case less
  show ?case
  proof (cases "n \<le> in_len s - in_pos s")
    case True
    with less.prems show ?thesis by (subst (asm) tds_get_n.simps) (auto simp: Let_def)
  next
    case False
    define k where "k = in_len s - in_pos s"
    have IH: "length got' \<le> n - k" if "tds_read_packet env s = (Some m, u)" "tds_get_n env (n - k) u = (ok', got', t')"
      for m u ok' got' t'
      by (rule less.hyps [OF tds_read_packet_left [OF that(1)] that(2)])
    have "length (take k (drop (in_pos s) (in_buf s))) \<le> k" "k \<le> n" using False by (simp_all add: k_def)
    with less.prems False IH show ?thesis
      by (subst (asm) tds_get_n.simps)
        (fastforce simp: Let_def k_def [symmetric] split: if_splits option.splits prod.splits)
  qed
qed

text \<open>A column without conversion keeps its fixed buffers within their size.\<close>

definition col_safe :: "tdscolumn \<Rightarrow> bool" where
  "col_safe col \<longleftrightarrow> 0 \<le> column_size col \<and> nat (column_size col) \<le> length (data_buf col) \<and>
     length (textptr (data_blob col)) = 16 \<and> length (timestamp (data_blob col)) = 8 \<and>
     (\<not> is_blob_col col \<longrightarrow> column_cur_size col \<le> column_size col)"

definition same_buffers :: "tdscolumn \<Rightarrow> tdscolumn \<Rightarrow> bool" where
  "same_buffers col col' \<longleftrightarrow> length (data_buf col') = length (data_buf col) \<and> column_size col' = column_size col \<and>
     column_varint_size col' = column_varint_size col \<and> col_safe col'"

lemma get_plain_data_safe:
  assumes "col_safe col" "0 \<le> colsize" "get_plain_data env colsize col s = (res, col', t)"
  shows "same_buffers col col'"
proof -
  define m where "m = nat (if column_size col < colsize then column_size col else colsize)"
  have m: "m \<le> nat (column_size col)" "nat (column_size col) \<le> length (data_buf col)" "0 \<le> column_size col"
    using assms(1,2) by (auto simp: m_def col_safe_def)
  obtain ok got u where g: "tds_get_n env m s = (ok, got, u)" by (metis prod_cases3)
  note l = tds_get_n_length [OF g]
  let ?dest = "write_at (data_buf col) 0 got"
  have d: "length ?dest = length (data_buf col)" using l m by simp
  have pad: "length (write_at ?dest m (replicate (nat (column_size col - int m)) c)) = length (data_buf col)" for c
    using m d by (subst length_write_at) (simp_all add: nat_diff_distrib)
  have cs: "(if column_size col < colsize then column_size col else colsize) = int m" using m(3) assms(2) by (simp add: m_def)
  have mm: "nat (int m) = m" by simp
  from assms(3) have "length (data_buf col') = length (data_buf col) \<and> column_size col' = column_size col \<and>
      column_varint_size col' = column_varint_size col \<and> data_blob col' = data_blob col \<and>
      (column_cur_size col' = column_cur_size col \<or> column_cur_size col' = int m)"
    unfolding get_plain_data_def Let_def cs mm g
    by (auto simp: d pad split: if_splits option.splits)
  then show ?thesis using assms(1) m(1,3) by (auto simp: same_buffers_def col_safe_def is_blob_col_def)
qed

lemma tds_get_char_dynamic_safe:
  assumes "tds_get_char_dynamic ce read n col st = Some (res, col', t)"
  shows "\<exists>b k. col' = set_textvalue b col \<lparr> column_cur_size := k \<rparr>"
proof (cases "tds_dynamic_stream_init (heap ce) (textvalue (data_blob col)) n")
  case None
  with assms show ?thesis
    by (auto simp: tds_get_char_dynamic_def set_textvalue_def intro!: exI [of _ "column_cur_size col"] exI [of _ None])
next
  case (Some w)
  with assms show ?thesis by (auto simp: tds_get_char_dynamic_def bind_eq_Some_conv)
qed

lemma blob_update_safe:
  "col_safe col \<Longrightarrow> is_blob_col col \<Longrightarrow> same_buffers col (set_textvalue b col \<lparr> column_cur_size := k \<rparr>)"
  by (simp add: same_buffers_def col_safe_def is_blob_col_def)

lemma set_textvalue_twice [simp]: "set_textvalue b (set_textvalue c col) = set_textvalue b col"
  by (simp add: set_textvalue_def)

lemma set_null_safe: "col_safe col \<Longrightarrow> same_buffers col (set_null col)"
  by (auto simp: same_buffers_def col_safe_def is_blob_col_def set_null_def)

lemma tds72_get_varmax_safe:
  assumes "col_safe col" "is_blob_col col" "tds72_get_varmax ce env col s = Some (res, col', t)"
  shows "same_buffers col col'"
proof -
  from assms(3) obtain n u where u: "tds_get_uint8 env s = (Some n, u)"
    by (auto simp: tds72_get_varmax_def split: prod.splits option.splits)
  show ?thesis
  proof (cases "sint (word_of_nat n :: u64) = - 1")
    case True
    with assms(1,3) u show ?thesis by (auto simp: tds72_get_varmax_def intro: set_null_safe)
  next
    case False
    define len where "len = sint (word_of_nat n :: u64)"
    define c where "c = (if 0 < len then set_textvalue None col else col)"
    define m where "m = (if 0 < len then if is_unicode_type ce (server_column_type c) then nat len div 2 else nat len else 0)"
    from assms(3) u False obtain st' where
      g: "tds_get_char_dynamic ce (tds_varmax_stream_read env) m c (0, u) = Some (res, col', st')"
      unfolding tds72_get_varmax_def Let_def
      by (auto simp: len_def [symmetric] c_def m_def bind_eq_Some_conv split: if_split_asm)
    have "c = col \<or> c = set_textvalue None col" by (simp add: c_def)
    with tds_get_char_dynamic_safe [OF g] blob_update_safe [OF assms(1,2)] show ?thesis by auto
  qed
qed

lemma get_blob_data_safe:
  assumes "col_safe col" "is_blob_col col" "get_blob_data ce env colsize col s = Some (res, col', t)"
  shows "same_buffers col col'"
proof (cases "colsize = 0")
  case True
  with assms blob_update_safe show ?thesis by (auto simp: get_blob_data_def)
next
  case False
  define a where "a = max (column_cur_size col) 0"
  define c where "c = (if a < colsize then set_textvalue None col else col)"
  define m where "m = nat (if a < colsize then if is_unicode_type ce (server_column_type col) then colsize div 2 else colsize
                       else a)"
  have eq: "(if a < colsize then (set_textvalue None col, if is_unicode_type ce (server_column_type col) then colsize div 2
      else colsize) else (col, a)) = (c, if a < colsize then if is_unicode_type ce (server_column_type col) then colsize div 2
      else colsize else a)" by (simp add: c_def)
  from assms(3) False obtain res' st' where
    g: "tds_get_char_dynamic ce (tds_datain_stream_read env) m c (nat colsize, s) = Some (res', col', st')"
    unfolding get_blob_data_def Let_def a_def [symmetric] eq
    by (auto simp: m_def bind_eq_Some_conv split: if_split_asm)
  have c: "c = col \<or> c = set_textvalue None col" by (simp add: c_def)
  from tds_get_char_dynamic_safe [OF g] c blob_update_safe [OF assms(1,2)] show ?thesis by auto
qed

lemma get_colsize_safe:
  assumes "col_safe col" "get_colsize ce ver env col s = (n, col', t)"
  shows "same_buffers col col' \<and> column_type col' = column_type col"
proof (cases "column_varint_size col = 5")
  case False
  with assms show ?thesis
    by (auto simp: get_colsize_def Let_def same_buffers_def split: if_splits prod.splits)
next
  case True
  obtain b s1 where s1: "tds_get_byte env s = (b, s1)" by fastforce
  obtain ok1 p s2 where s2: "tds_get_n env 16 s1 = (ok1, p, s2)" by (metis prod_cases3)
  obtain ok2 q s3 where s3: "tds_get_n env 8 s2 = (ok2, q, s3)" by (metis prod_cases3)
  have "length (write_at (textptr (data_blob col)) 0 p) = 16" "length (write_at (timestamp (data_blob col)) 0 q) = 8"
    using assms(1) tds_get_n_length [OF s2] tds_get_n_length [OF s3] by (simp_all add: col_safe_def)
  with True assms s1 s2 s3 show ?thesis
    by (auto simp: get_colsize_def Let_def same_buffers_def col_safe_def is_blob_col_def split: if_splits prod.splits)
qed

lemma same_buffers_trans: "same_buffers a b \<Longrightarrow> same_buffers b c \<Longrightarrow> same_buffers a c"
  by (simp add: same_buffers_def)

lemma tds_generic_get_safe:
  assumes "col_safe col" "tds_generic_get ce ver env col s = Some (res, col', t)"
  shows "same_buffers col col'"
proof (cases "column_varint_size col = 8")
  case True
  with assms tds72_get_varmax_safe [OF assms(1)] show ?thesis by (simp add: tds_generic_get_def is_blob_col_def)
next
  case False
  obtain n c u where g: "get_colsize ce ver env col s = (n, c, u)" by (metis prod_cases3)
  from get_colsize_safe [OF assms(1) g] have c: "same_buffers col c" "col_safe c" by (simp_all add: same_buffers_def)
  from assms(2) False g consider "col' = c" | "col' = set_null c"
    | k where "0 \<le> k" "is_blob_col c" "get_blob_data ce env k c u = Some (res, col', t)"
    | k where "0 \<le> k" "get_plain_data env k c u = (res, col', t)"
    by (auto simp: tds_generic_get_def not_less split: if_splits option.splits)
  then show ?thesis
  proof cases
    case 1 then show ?thesis using c by simp
  next
    case 2 then show ?thesis using same_buffers_trans [OF c(1)] set_null_safe [OF c(2)] by simp
  next
    case 3 then show ?thesis using same_buffers_trans [OF c(1)] get_blob_data_safe [OF c(2)] by blast
  next
    case 4 then show ?thesis using same_buffers_trans [OF c(1)] get_plain_data_safe [OF c(2)] by blast
  qed
qed

lemma tds_numeric_get_safe:
  assumes "tds_numeric_get env ver col s = Some (res, col', t)" "length (array (data_numeric col)) = 33"
    "1 \<le> column_prec col" "column_prec col \<le> 77"
  shows "length (array (data_numeric col')) = 33"
proof -
  obtain b u where b: "tds_get_byte env s = (b, u)" by fastforce
  obtain ok got v where g: "tds_get_n env (unat b) u = (ok, got, v)" by (metis prod_cases3)
  have bp: "tds_numeric_bytes_per_prec ! column_prec col \<le> 33" using bytes_per_prec(2) [OF assms(3,4)] .
  have "length (write_at (replicate 33 (0 :: byte)) 0 got) = 33" if "unat b \<le> 33"
    using tds_get_n_length [OF g] that by simp
  with assms(1,2) b g bp show ?thesis
    by (auto simp: tds_numeric_get_def Let_def set_null_def tds_swap_numeric_def tds_swap_bytes_reverses split: if_splits)
qed

subsection \<open>Properties\<close>


text \<open>C10: \<open>tds_generic_put\<close> sends a value, of any length its type can carry, in the format of the protocol version, and
  \<open>tds_generic_get\<close> reads it back into a column of the same kind: fixed and variable sizes, blobs with their text pointer, long binary values
  and the chunked values of TDS 7.2.\<close>

theorem tds_generic_wire_roundtrip:
  assumes "sink_ok env s" "value_ok ce (tds_version s) bcp7 col bs" "reader_ok ce col bs col'"
    "incoming env' (value_wire (tds_version s) bcp7 col bs @ rest) r"
  shows "\<exists>s' col'' r'. tds_generic_put ce env col bcp7 s = Some (TDS_SUCCESS, s') \<and>
    stream s' = stream s @ value_wire (tds_version s) bcp7 col bs \<and> out_inv s' \<and>
    tds_generic_get ce (tds_version s) env' col' r = Some (TDS_SUCCESS, col'', r') \<and>
    column_cur_size col'' = int (length bs) \<and> col_value col'' = bs \<and> incoming env' rest r'"
  using tds_generic_put_wire [OF assms(1,2)] tds_generic_get_wire [OF assms(2-4)]
  by (auto simp: sink_ok_def reads_value_def)




text \<open>A binary column of three bytes with a two byte length for the witnesses.\<close>

definition demo_ce :: col_env where
  "demo_ce = \<lparr> get_size_by_type = (\<lambda>_. 0), get_varint_size = (\<lambda>_ _. 2), is_char_type = (\<lambda>_. False),
     is_unicode_type = (\<lambda>_. False), is_collate_type = (\<lambda>_. False), conn_collation = replicate 5 0, heap = demo_env \<rparr>"

definition demo_bin :: tdscolumn where
  "demo_bin = demo_col \<lparr> column_type := SYBBINARY, server_column_type := XSYBBINARY, column_varint_size := 2, column_size := 3,
     server_column_size := 3, column_cur_size := 2, data_buf := [5, 6, 0] \<rparr>"

lemma demo_bin_sel:
  "column_varint_size demo_bin = 2" "column_size demo_bin = 3" "column_cur_size demo_bin = 2" "data_buf demo_bin = [5, 6, 0]"
  "server_column_size demo_bin = 3" "server_column_type demo_bin = XSYBBINARY" "column_type demo_bin = SYBBINARY"
  "length (textptr (data_blob demo_bin)) = 16" "length (timestamp (data_blob demo_bin)) = 8"
  "length (array (data_numeric demo_bin)) = 33"
  by (simp_all add: demo_bin_def demo_col_def)

lemma demo_heap: "heap_ok demo_ce"
  by (simp add: heap_ok_def demo_ce_def demo_ok)


theorem tds_generic_wire_roundtrip_witness:
  "\<exists>s' col'' r'. tds_generic_put demo_ce demo_env demo_bin False demo_socket = Some (TDS_SUCCESS, s') \<and> stream s' = [2, 0, 5, 6] \<and>
    tds_generic_get demo_ce 0x704 demo_env demo_bin (demo_in [2, 0, 5, 6]) = Some (TDS_SUCCESS, col'', r') \<and>
    col_value col'' = [5, 6]"
proof -
  have v: "value_ok demo_ce (tds_version demo_socket) False demo_bin [5, 6]"
    by (simp add: value_ok_def demo_bin_sel col_src_def is_blob_col_def tds_fix_column_size_def Let_def clamp_def size_t_of_def)
  have r: "reader_ok demo_ce demo_bin [5, 6] demo_bin"
    by (simp add: reader_ok_def demo_bin_sel is_blob_col_def)
  have w: "value_wire (tds_version demo_socket) False demo_bin [5, 6] @ [] = [2, 0, 5, 6]"
    by (simp add: value_wire_def demo_bin_sel TDS_PUT_A2LE_def u8_of_def)
  from tds_generic_wire_roundtrip [OF demo_sink(1) v r, of demo_env "[]" "demo_in [2, 0, 5, 6]", unfolded w, OF demo_in_incoming]
  show ?thesis using demo_ok(5) demo_sink(2) w by auto
qed




end
