(* ===== verification/Query_State.thy ===== *)
theory Query_State
  imports Freeze
begin

text \<open>
  The query state machine of \<open>src/tds/util.c\<close>: \<open>tds_set_state\<close> with the wire mutex it takes and
  releases, and the return code logic of \<open>tdserror\<close>.

  A \<open>TDSSOCKET\<close> is here its output half (\<open>Wire_Out\<close>), the query state, the wire mutex, the validity of
  the system socket and the results, cursor, dynamic statement and operation that a new
  request drops. Unlocking a mutex that is not locked sets \<open>mtx_error\<close>. The error numbers given to
  \<open>tdserror\<close> are collected in \<open>errs\<close>.
\<close>

datatype tds_state = TDS_IDLE | TDS_WRITING | TDS_SENDING | TDS_PENDING | TDS_READING | TDS_DEAD

record session =
  tx :: tdssocket
  qstate :: tds_state
  wire_locked :: bool
  mtx_error :: bool
  sock_valid :: bool
  has_results :: bool
  rows_affected :: int
  cur_cursor :: "nat option"
  cur_dyn :: "nat option"
  current_op :: nat
  errs :: "nat list"

definition TDS_NO_COUNT :: int where
  "TDS_NO_COUNT = - 1"

definition TDS_OP_NONE :: nat where
  "TDS_OP_NONE = 0"

definition TDSETIME :: nat where
  "TDSETIME = 20003"

definition TDSEWRIT :: nat where
  "TDSEWRIT = 20006"

definition TDSERPND :: nat where
  "TDSERPND = 20019"

definition mutex_trylock :: "session \<Rightarrow> bool \<times> session" where
  "mutex_trylock s = (\<not> wire_locked s, s \<lparr> wire_locked := True \<rparr>)"

definition mutex_unlock :: "session \<Rightarrow> session" where
  "mutex_unlock s = s \<lparr> wire_locked := False, mtx_error := mtx_error s \<or> \<not> wire_locked s \<rparr>"

text \<open>\<open>tds->state = state\<close>; the \<open>dead\<close> flag of the output half is \<open>IS_TDSDEAD\<close>.\<close>

definition assign_state :: "tds_state \<Rightarrow> session \<Rightarrow> session" where
  "assign_state st s = s \<lparr> qstate := st, tx := (tx s) \<lparr> dead := (st = TDS_DEAD) \<rparr> \<rparr>"

definition forget_results :: "session \<Rightarrow> session" where
  "forget_results s = s \<lparr> has_results := False, rows_affected := TDS_NO_COUNT, cur_cursor := None,
     cur_dyn := None, current_op := TDS_OP_NONE \<rparr>"

definition log_error :: "nat \<Rightarrow> session \<Rightarrow> session" where
  "log_error msgno s = s \<lparr> errs := errs s @ [msgno] \<rparr>"

text \<open>What is left of \<open>tds_connection_close\<close> when it is called here, on a socket in state \<open>TDS_IDLE\<close> or
  \<open>TDS_DEAD\<close> with nothing frozen: the nested \<open>tds_set_state (tds, TDS_DEAD)\<close> only assigns.\<close>

definition tds_connection_close :: "session \<Rightarrow> session" where
  "tds_connection_close s = assign_state TDS_DEAD (s \<lparr> sock_valid := False \<rparr>)"

definition drop_frozen :: "session \<Rightarrow> session" where
  "drop_frozen s =
     (if frozen (tx s) \<noteq> 0
      then tds_connection_close
             (s \<lparr> tx := snd (tds_freeze_abort \<lparr> fr_pkt = 0, fr_pkt_pos = 8, fr_size_len = 0 \<rparr>
                              ((tx s) \<lparr> frozen := 1 \<rparr>)) \<rparr>)
      else s)"

definition leave_to :: "tds_state \<Rightarrow> session \<Rightarrow> session" where
  "leave_to st s =
     drop_frozen (assign_state st
       (if qstate s = TDS_READING \<or> qstate s = TDS_WRITING then mutex_unlock s else s))"

definition tds_set_state :: "tds_state \<Rightarrow> session \<Rightarrow> tds_state \<times> session" where
  "tds_set_state st s =
     (if st = qstate s then (st, s)
      else let prior = qstate s;
               s' = (case st of
                 TDS_PENDING \<Rightarrow>
                   if prior = TDS_READING \<or> prior = TDS_WRITING
                   then mutex_unlock (assign_state TDS_PENDING s) else s
               | TDS_READING \<Rightarrow>
                   (case mutex_trylock s of
                      (ok, t) \<Rightarrow>
                        if \<not> ok then t
                        else if qstate t \<noteq> TDS_PENDING then mutex_unlock t
                        else assign_state st t)
               | TDS_SENDING \<Rightarrow>
                   if prior \<noteq> TDS_READING \<and> prior \<noteq> TDS_WRITING then s
                   else assign_state st (mutex_unlock (if qstate s = TDS_READING then forget_results s else s))
               | TDS_IDLE \<Rightarrow> if prior = TDS_DEAD \<and> \<not> sock_valid s then s else leave_to st s
               | TDS_DEAD \<Rightarrow> leave_to st s
               | TDS_WRITING \<Rightarrow>
                   (case mutex_trylock s of
                      (ok, t) \<Rightarrow>
                        if \<not> ok then t
                        else if qstate t = TDS_DEAD then log_error TDSEWRIT (mutex_unlock t)
                        else if qstate t \<noteq> TDS_IDLE \<and> qstate t \<noteq> TDS_SENDING
                             then log_error TDSERPND (mutex_unlock t)
                        else assign_state st (if qstate t = TDS_IDLE then forget_results t else t)))
           in (qstate s', s'))"

subsection \<open>tdserror\<close>

datatype int_code = TDS_INT_CONTINUE | TDS_INT_CANCEL | TDS_INT_TIMEOUT

text \<open>The handler of the client library is a parameter (\<open>None\<close> when there is none); the second result
  tells if \<open>tds_send_cancel\<close> is called. The \<open>assert\<close>s are those of a build with
  \<open>NDEBUG\<close>.\<close>

definition tdserror :: "(nat \<Rightarrow> int_code) option \<Rightarrow> nat \<Rightarrow> int_code \<times> bool" where
  "tdserror err_handler msgno =
     (let rc = (case err_handler of None \<Rightarrow> TDS_INT_CANCEL | Some h \<Rightarrow> h msgno);
          rc = (if msgno \<noteq> TDSETIME \<and> rc \<noteq> TDS_INT_CANCEL then TDS_INT_CANCEL else rc)
      in if rc = TDS_INT_TIMEOUT then (TDS_INT_CONTINUE, True) else (rc, False))"

text \<open>Whatever the client library's handler returns, \<open>tdserror\<close> tells its caller to go on only for a
  timeout, and then exactly when the handler asked to continue or to cancel the query; a cancel
  packet is sent in the latter case only.\<close>

theorem tdserror_continues_only_on_timeout:
  "tdserror err_handler msgno =
     (case err_handler of
        None \<Rightarrow> (TDS_INT_CANCEL, False)
      | Some h \<Rightarrow>
          if msgno = TDSETIME \<and> h msgno = TDS_INT_CONTINUE then (TDS_INT_CONTINUE, False)
          else if msgno = TDSETIME \<and> h msgno = TDS_INT_TIMEOUT then (TDS_INT_CONTINUE, True)
          else (TDS_INT_CANCEL, False))"
proof (cases err_handler)
  case (Some h)
  then show ?thesis by (cases "h msgno") (simp_all add: tdserror_def Let_def)
qed (simp add: tdserror_def Let_def)

subsection \<open>Invariant\<close>

definition session_inv :: "session \<Rightarrow> bool" where
  "session_inv s \<longleftrightarrow>
     (wire_locked s \<longleftrightarrow> qstate s = TDS_READING \<or> qstate s = TDS_WRITING) \<and> \<not> mtx_error s \<and>
     out_inv (tx s) \<and> (dead (tx s) \<longleftrightarrow> qstate s = TDS_DEAD) \<and>
     (qstate s = TDS_IDLE \<or> qstate s = TDS_DEAD \<longrightarrow> frozen (tx s) = 0)"

text \<open>The transitions of the state machine.\<close>

definition may_change :: "session \<Rightarrow> tds_state \<Rightarrow> bool" where
  "may_change s st \<longleftrightarrow>
     (case st of
        TDS_IDLE \<Rightarrow> qstate s \<noteq> TDS_DEAD \<or> sock_valid s
      | TDS_WRITING \<Rightarrow> qstate s = TDS_IDLE \<or> qstate s = TDS_SENDING
      | TDS_SENDING \<Rightarrow> qstate s = TDS_READING \<or> qstate s = TDS_WRITING
      | TDS_PENDING \<Rightarrow> qstate s = TDS_READING \<or> qstate s = TDS_WRITING
      | TDS_READING \<Rightarrow> qstate s = TDS_PENDING
      | TDS_DEAD \<Rightarrow> True)"

lemma drop_frozen_abort:
  assumes "out_inv t" "frozen t \<noteq> 0"
  shows "out_inv (snd (tds_freeze_abort \<lparr> fr_pkt = 0, fr_pkt_pos = 8, fr_size_len = 0 \<rparr> (t \<lparr> frozen := 1 \<rparr>)))"
    "frozen (snd (tds_freeze_abort \<lparr> fr_pkt = 0, fr_pkt_pos = 8, fr_size_len = 0 \<rparr> (t \<lparr> frozen := 1 \<rparr>))) = 0"
proof -
  let ?t = "t \<lparr> frozen := 1 \<rparr>" and ?f = "\<lparr> fr_pkt = 0, fr_pkt_pos = 8, fr_size_len = 0 \<rparr>"
  have inv: "out_inv ?t" using assms by (simp add: out_inv_def)
  have ok: "freeze_ok ?f ?t"
    using out_invD(1) [OF assms(1)] by (simp add: freeze_ok_def freeze_at_def)
  obtain r u where u: "tds_freeze_abort ?f ?t = (r, u)" by fastforce
  note a = tds_freeze_abort_eq [OF inv ok _ _ u]
  show "out_inv (snd (tds_freeze_abort ?f ?t))" "frozen (snd (tds_freeze_abort ?f ?t)) = 0"
    unfolding u using a(2,4) by simp_all
qed

lemma out_inv_dead [simp]: "out_inv (t \<lparr> dead := d \<rparr>) = out_inv t"
  by (simp add: out_inv_def)

lemma leave_to_inv:
  assumes "session_inv s" "st = TDS_IDLE \<or> st = TDS_DEAD" "st \<noteq> qstate s"
  shows "session_inv (leave_to st s)"
    "qstate (leave_to st s) = (if frozen (tx s) = 0 then st else TDS_DEAD)"
proof -
  note ab = drop_frozen_abort [of "(tx s) \<lparr> dead := d \<rparr>" for d, simplified]
  have "session_inv (leave_to st s) \<and> qstate (leave_to st s) = (if frozen (tx s) = 0 then st else TDS_DEAD)"
    using assms ab by (auto simp: session_inv_def leave_to_def drop_frozen_def assign_state_def
      tds_connection_close_def mutex_unlock_def)
  then show "session_inv (leave_to st s)"
    "qstate (leave_to st s) = (if frozen (tx s) = 0 then st else TDS_DEAD)" by auto
qed

lemmas set_state_defs = tds_set_state_def Let_def may_change_def session_inv_def mutex_trylock_def
  mutex_unlock_def assign_state_def forget_results_def log_error_def

lemma tds_set_state_step:
  assumes "session_inv s" "tds_set_state st s = (st', s')"
  shows "session_inv s' \<and> st' = qstate s' \<and>
    qstate s' = (if st = qstate s then st
      else if \<not> may_change s st then qstate s
      else if (st = TDS_IDLE \<or> st = TDS_DEAD) \<and> frozen (tx s) \<noteq> 0 then TDS_DEAD
      else st)"
proof (cases "st = qstate s")
  case True
  with assms show ?thesis by (auto simp: tds_set_state_def)
next
  case False
  have eq: "s' = snd (tds_set_state st s)" "st' = fst (tds_set_state st s)" using assms(2) by simp_all
  consider "st = TDS_IDLE \<or> st = TDS_DEAD" | "st = TDS_PENDING" | "st = TDS_READING" | "st = TDS_SENDING"
    | "st = TDS_WRITING" by (cases st) auto
  then show ?thesis
  proof cases
    case 1
    note l = leave_to_inv [OF assms(1) 1 False]
    show ?thesis using assms 1 False l
      by (cases "st = TDS_DEAD") (auto simp: tds_set_state_def Let_def may_change_def split: if_splits)
  next
    case 2
    show ?thesis unfolding eq using assms(1) unfolding 2
      by (cases "qstate s") (simp_all add: set_state_defs)
  next
    case 3
    show ?thesis unfolding eq using assms(1) unfolding 3
      by (cases "qstate s") (simp_all add: set_state_defs)
  next
    case 4
    show ?thesis unfolding eq using assms(1) unfolding 4
      by (cases "qstate s") (simp_all add: set_state_defs)
  next
    case 5
    show ?thesis unfolding eq using assms(1) unfolding 5
      by (cases "qstate s") (simp_all add: set_state_defs)
  qed
qed

text \<open>\<open>tds_set_state\<close> keeps the invariant: the wire mutex is held exactly in the reading and the
  writing state and is never unlocked twice, and no frozen output survives the end of a request. It
  returns the state it leaves; that is the requested one exactly for the legal transitions
  and the old one otherwise, except that leaving with frozen output closes the
  connection.\<close>

theorem tds_set_state_transitions:
  assumes "session_inv s" "tds_set_state st s = (st', s')"
  shows "session_inv s' \<and> st' = qstate s' \<and>
    qstate s' = (if st = qstate s then st
      else if \<not> may_change s st then qstate s
      else if (st = TDS_IDLE \<or> st = TDS_DEAD) \<and> frozen (tx s) \<noteq> 0 then TDS_DEAD
      else st)"
  using assms by (rule tds_set_state_step)

definition demo_session :: session where
  "demo_session = \<lparr> tx = demo_socket, qstate = TDS_IDLE, wire_locked = False, mtx_error = False,
     sock_valid = True, has_results = True, rows_affected = 3, cur_cursor = None, cur_dyn = None, current_op = 0,
     errs = [] \<rparr>"

lemma demo_session_ok: "session_inv demo_session"
  by (simp add: session_inv_def demo_session_def demo_ok)

theorem tds_set_state_transitions_witness: "qstate (snd (tds_set_state TDS_WRITING demo_session)) = TDS_WRITING"
proof -
  obtain st' s' where s': "tds_set_state TDS_WRITING demo_session = (st', s')" by fastforce
  from tds_set_state_transitions [OF demo_session_ok s'] show ?thesis
    unfolding s' by (simp add: may_change_def demo_session_def)
qed

subsection \<open>Sessions\<close>

text \<open>A session is any sequence of state requests, of output and freezes while writing, of losing the
  socket and of connecting again. Output is anything that appends to the stream without closing
  the connection (\<open>Wire_Out\<close>, \<open>Freeze\<close>).\<close>

inductive session_step :: "session \<Rightarrow> session \<Rightarrow> bool" where
  request: "session_step s (snd (tds_set_state st s))"
| emit: "qstate s = TDS_WRITING \<Longrightarrow> appends data (tx s) t \<Longrightarrow> dead t = dead (tx s) \<Longrightarrow>
    session_step s (s \<lparr> tx := t \<rparr>)"
| freeze: "qstate s = TDS_WRITING \<Longrightarrow> malloc_ok env \<Longrightarrow> malloc_never_fails env \<Longrightarrow>
    tds_freeze env n (tx s) = Some (f, t) \<Longrightarrow> dead t = dead (tx s) \<Longrightarrow> session_step s (s \<lparr> tx := t \<rparr>)"
| connect: "qstate s = TDS_DEAD \<Longrightarrow> session_step s (s \<lparr> sock_valid := True \<rparr>)"

inductive_cases session_stepE: "session_step s t"

lemma session_step_inv:
  assumes "session_step s t" "session_inv s"
  shows "session_inv t"
  using assms(1)
proof (cases rule: session_step.cases)
  case (request st)
  obtain st' s' where "tds_set_state st s = (st', s')" by fastforce
  with request assms(2) show ?thesis
    using tds_set_state_step [OF assms(2)] by simp
next
  case (emit data u)
  with assms(2) show ?thesis by (simp add: session_inv_def appends_def)
next
  case (freeze env n f u)
  have inv: "out_inv (tx s)" using assms(2) by (simp add: session_inv_def)
  have "can_write env (tx s)" using freeze by (simp add: can_write_def)
  from freeze_bracket [OF inv this freeze(4), of n] freeze(5) have "out_inv u"
    by (metis option.inject prod.inject)
  with freeze assms(2) show ?thesis by (simp add: session_inv_def)
next
  case connect
  with assms(2) show ?thesis by (simp add: session_inv_def)
qed

text \<open>C7: in every session that starts in a legal state, after any number of steps, the mutex is held exactly
  while reading or writing, it has never been unlocked while free, the send buffer is legal, and
  an idle or dead session has no frozen output.\<close>

theorem sessions_are_safe:
  assumes "session_inv s" "session_step\<^sup>*\<^sup>* s t"
  shows "(wire_locked t \<longleftrightarrow> qstate t = TDS_READING \<or> qstate t = TDS_WRITING) \<and> \<not> mtx_error t \<and> out_inv (tx t) \<and>
    (qstate t = TDS_IDLE \<or> qstate t = TDS_DEAD \<longrightarrow> frozen (tx t) = 0)"
proof -
  have "session_inv t"
    using assms(2,1) by (induction rule: rtranclp_induct) (auto intro: session_step_inv)
  then show ?thesis by (simp add: session_inv_def)
qed

theorem sessions_are_safe_witness: "\<not> mtx_error (snd (tds_set_state TDS_WRITING demo_session))"
  using sessions_are_safe [OF demo_session_ok, of "snd (tds_set_state TDS_WRITING demo_session)"]
    session_step.request [of demo_session TDS_WRITING] by (simp add: r_into_rtranclp)

end
