(* ===== verification/Row_Buffer.thy ===== *)
theory Row_Buffer
  imports Prelude "HOL-Library.Multiset"
begin

text \<open>
  The row buffer of DB-Library (\<open>src/dblib/buffering.h\<close>) and the calls of \<open>src/dblib/dblib.c\<close> that
  read it: a ring of row slots between \<open>tail\<close>, the oldest row, and \<open>head\<close>, where the next row goes.
  \<open>head = 0\<close> with \<open>tail = capacity\<close> is the empty buffer, \<open>head = tail\<close> the full one.

  A slot holds a reference to its \<open>TDSRESULTINFO\<close> (an address of the store \<open>resinfos\<close>), the row
  number, the saved row data once the row is not the current one any more, and the saved column
  sizes. Slots of a freed row are cleared as by \<open>buffer_free_row\<close>.
\<close>

record resinfo =
  current_row :: "byte list"
  col_sizes :: "int list"
  ref_count :: nat

record bufrow =
  row_resinfo :: "nat option"
  row_data :: "byte list option"
  row_number :: nat
  row_sizes :: "int list option"

record rowbuf =
  received :: nat
  head :: nat
  tail :: nat
  current :: nat
  capacity :: nat
  rows :: "bufrow list option"

record dbprocess =
  row_buf :: rowbuf
  resinfos :: "nat \<Rightarrow> resinfo option"
  buffering :: bool

definition empty_row :: bufrow where
  "empty_row = \<lparr> row_resinfo = None, row_data = None, row_number = 0, row_sizes = None \<rparr>"

definition buffer_count :: "rowbuf \<Rightarrow> nat" where
  "buffer_count buf =
     (if tail buf < head buf then head buf - tail buf else capacity buf - (tail buf - head buf))"

definition buffer_is_full :: "rowbuf \<Rightarrow> bool" where
  "buffer_is_full buf \<longleftrightarrow> capacity buf = buffer_count buf \<and> 1 < capacity buf"

text \<open>\<open>tds_free_results\<close>: drops a reference, the last one frees the structure.\<close>

definition tds_free_results :: "nat option \<Rightarrow> (nat \<Rightarrow> resinfo option) \<Rightarrow> nat \<Rightarrow> resinfo option" where
  "tds_free_results r m =
     (case r of
        None \<Rightarrow> m
      | Some a \<Rightarrow>
          (case m a of
             None \<Rightarrow> m
           | Some i \<Rightarrow> if ref_count i - 1 > 0 then m(a \<mapsto> i \<lparr> ref_count := ref_count i - 1 \<rparr>) else m(a := None)))"

text \<open>\<open>buffer_free_row\<close>: the slot is cleared and its reference to the result information dropped.\<close>

definition buffer_free_row :: "nat \<Rightarrow> dbprocess \<Rightarrow> dbprocess" where
  "buffer_free_row idx db =
     (case rows (row_buf db) of
        None \<Rightarrow> db
      | Some rs \<Rightarrow>
          db \<lparr> row_buf := (row_buf db) \<lparr> rows := Some (rs [idx := empty_row]) \<rparr>,
               resinfos := tds_free_results (row_resinfo (rs ! idx)) (resinfos db) \<rparr>)"

definition buffer_free :: "dbprocess \<Rightarrow> dbprocess" where
  "buffer_free db =
     (case rows (row_buf db) of
        None \<Rightarrow> db
      | Some rs \<Rightarrow>
          (fold buffer_free_row [0..<capacity (row_buf db)] db)
            \<lparr> row_buf := (row_buf (fold buffer_free_row [0..<capacity (row_buf db)] db)) \<lparr> rows := None \<rparr> \<rparr>)"

definition buffer_reset :: "rowbuf \<Rightarrow> rowbuf" where
  "buffer_reset buf = buf \<lparr> head := 0, current := capacity buf, tail := capacity buf \<rparr>"

definition buffer_idx_increment :: "rowbuf \<Rightarrow> nat \<Rightarrow> nat" where
  "buffer_idx_increment buf idx = (if capacity buf \<le> idx + 1 then 0 else idx + 1)"

definition buffer_row_address :: "rowbuf \<Rightarrow> nat \<Rightarrow> bufrow option" where
  "buffer_row_address buf idx =
     (if capacity buf \<le> idx then None else map_option (\<lambda>rs. rs ! idx) (rows buf))"

text \<open>\<open>buffer_idx2row\<close> dereferences the address: \<open>None\<close> is a null pointer.\<close>

definition buffer_idx2row :: "rowbuf \<Rightarrow> nat \<Rightarrow> nat option" where
  "buffer_idx2row buf idx = map_option row_number (buffer_row_address buf idx)"

text \<open>The march of \<open>buffer_row2idx\<close> from \<open>tail\<close> to \<open>head\<close>; the first argument bounds the rounds by the
  capacity, as the assertion in the loop does.\<close>

fun row2idx_loop :: "nat \<Rightarrow> rowbuf \<Rightarrow> nat \<Rightarrow> nat \<Rightarrow> nat option" where
  "row2idx_loop 0 buf n i = None"
| "row2idx_loop (Suc k) buf n i =
     (if buffer_idx2row buf i = Some n then Some i
      else let i = buffer_idx_increment buf i
           in if i = head buf then None else row2idx_loop k buf n i)"

definition buffer_row2idx :: "rowbuf \<Rightarrow> nat \<Rightarrow> nat option" where
  "buffer_row2idx buf n =
     (if tail buf = capacity buf then None else row2idx_loop (capacity buf) buf n (tail buf))"

fun delete_loop :: "nat \<Rightarrow> dbprocess \<Rightarrow> dbprocess" where
  "delete_loop 0 db = db"
| "delete_loop (Suc cnt) db =
     (let db = (if tail (row_buf db) < capacity (row_buf db) then buffer_free_row (tail (row_buf db)) db else db);
          db = db \<lparr> row_buf := (row_buf db) \<lparr> tail := buffer_idx_increment (row_buf db) (tail (row_buf db)) \<rparr> \<rparr>
      in if tail (row_buf db) = head (row_buf db) then db \<lparr> row_buf := buffer_reset (row_buf db) \<rparr>
         else delete_loop cnt db)"

definition buffer_delete_rows :: "int \<Rightarrow> dbprocess \<Rightarrow> dbprocess" where
  "buffer_delete_rows cnt db =
     (let n = buffer_count (row_buf db)
      in delete_loop (if cnt < 0 \<or> int n < cnt then n else nat cnt) db)"

text \<open>\<open>buffer_current_index\<close>: \<open>Inl\<close> is a failed assertion, \<open>Inr None\<close> the result -1.\<close>

definition buffer_current_index :: "rowbuf \<Rightarrow> unit + nat option" where
  "buffer_current_index buf =
     (if capacity buf \<le> 1 then Inr None
      else if current buf = head buf \<or> current buf = capacity buf then Inr None
      else if \<not> current buf < capacity buf then Inl ()
      else if tail buf < head buf
           then (if tail buf < current buf \<and> current buf < head buf then Inr (Some (current buf)) else Inl ())
           else if head buf < current buf \<and> \<not> tail buf < current buf then Inl ()
                else Inr (Some (current buf)))"

definition buffer_set_capacity :: "nat \<Rightarrow> dbprocess \<Rightarrow> dbprocess" where
  "buffer_set_capacity nrows db =
     (buffer_free db) \<lparr> row_buf :=
        \<lparr> received = 0, head = 0, tail = 0, current = 0, capacity = (if nrows = 0 then 1 else nrows), rows = None \<rparr> \<rparr>"

definition buffer_alloc :: "dbprocess \<Rightarrow> dbprocess" where
  "buffer_alloc db =
     (let buf = row_buf db
      in db \<lparr> row_buf := (buffer_reset (buf \<lparr> rows := Some (replicate (capacity buf) empty_row) \<rparr>)) \<lparr> received := 0 \<rparr> \<rparr>)"

text \<open>\<open>buffer_add_row\<close>: the result is the index of the row, \<open>None\<close> for -1. The result information \<open>r\<close> is the
  one the socket holds, so it is still there after the old occupant of the slot has been
  released; without it, or without storage, there is nothing to add.\<close>

definition buffer_add_row :: "nat \<Rightarrow> dbprocess \<Rightarrow> nat option \<times> dbprocess" where
  "buffer_add_row r db =
     (let buf = row_buf db
      in if buffer_is_full buf then (None, db)
         else case rows buf of
                None \<Rightarrow> (None, db)
              | Some rs \<Rightarrow>
                  let m = tds_free_results (row_resinfo (rs ! head buf)) (resinfos db)
                  in case m r of
                       None \<Rightarrow> (None, db)
                     | Some info \<Rightarrow>
                         let row = \<lparr> row_resinfo = Some r, row_data = None, row_number = received buf + 1,
                                     row_sizes = Some (col_sizes info) \<rparr>;
                             buf = buf \<lparr> received := received buf + 1, rows := Some (rs [head buf := row]) \<rparr>;
                             buf = (if tail buf = capacity buf then buf \<lparr> tail := 0 \<rparr> else buf);
                             buf = buf \<lparr> current := head buf, head := buffer_idx_increment buf (head buf) \<rparr>
                         in (Some (current buf),
                             db \<lparr> row_buf := buf,
                                  resinfos := m(r \<mapsto> info \<lparr> ref_count := ref_count info + 1 \<rparr>) \<rparr>))"

text \<open>\<open>buffer_save_row\<close>: the newest slot takes over the data of the current row, and the result
  information gets a fresh one (\<open>fresh\<close>, what \<open>tds_alloc_row\<close> leaves there).\<close>

definition buffer_save_row :: "byte list \<Rightarrow> dbprocess \<Rightarrow> dbprocess" where
  "buffer_save_row fresh db =
     (let buf = row_buf db;
          idx = (if head buf = 0 then capacity buf - 1 else head buf - 1)
      in if capacity buf \<le> 1 then db
         else case rows buf of
                None \<Rightarrow> db
              | Some rs \<Rightarrow>
                  (case (row_resinfo (rs ! idx), row_data (rs ! idx)) of
                     (Some a, None) \<Rightarrow>
                       (case resinfos db a of
                          None \<Rightarrow> db
                        | Some info \<Rightarrow>
                            db \<lparr> row_buf := buf \<lparr> rows := Some (rs [idx := (rs ! idx) \<lparr> row_data := Some (current_row info) \<rparr>]) \<rparr>,
                                 resinfos := (resinfos db)(a \<mapsto> info \<lparr> current_row := fresh \<rparr>) \<rparr>)
                   | _ \<Rightarrow> db))"

subsection \<open>The public calls\<close>

text \<open>The last statement of \<open>buffer_transfer_bound_data\<close>.\<close>

definition bump_current :: "rowbuf \<Rightarrow> rowbuf" where
  "bump_current buf = buf \<lparr> current := buffer_idx_increment buf (current buf) \<rparr>"

text \<open>\<open>dbgetrow\<close>: the row that is transferred, \<open>None\<close> for \<open>NO_MORE_ROWS\<close>.\<close>

definition dbgetrow :: "nat \<Rightarrow> dbprocess \<Rightarrow> bufrow option \<times> dbprocess" where
  "dbgetrow n db =
     (case buffer_row2idx (row_buf db) n of
        None \<Rightarrow> (None, db)
      | Some idx \<Rightarrow>
          (buffer_row_address (row_buf db) idx,
           db \<lparr> row_buf := bump_current ((row_buf db) \<lparr> current := idx \<rparr>) \<rparr>))"

text \<open>\<open>dbsetrow\<close>: whether the row was found (\<open>REG_ROW\<close> or \<open>NO_MORE_ROWS\<close>).\<close>

definition dbsetrow :: "nat \<Rightarrow> dbprocess \<Rightarrow> bool \<times> dbprocess" where
  "dbsetrow n db =
     (case buffer_row2idx (row_buf db) n of
        None \<Rightarrow> (False, db)
      | Some idx \<Rightarrow> (True, db \<lparr> row_buf := (row_buf db) \<lparr> current := idx \<rparr> \<rparr>))"

definition dbclrbuf :: "int \<Rightarrow> dbprocess \<Rightarrow> dbprocess" where
  "dbclrbuf n db =
     (if n \<le> 0 then db
      else if buffering db
           then let cnt = int (buffer_count (row_buf db))
                in buffer_delete_rows (if cnt \<le> n then cnt - 1 else n) db
           else db)"

definition dbfirstrow :: "dbprocess \<Rightarrow> nat option" where
  "dbfirstrow db = buffer_idx2row (row_buf db) (tail (row_buf db))"

definition dblastrow :: "dbprocess \<Rightarrow> nat option" where
  "dblastrow db =
     (let buf = row_buf db;
          idx = (if head buf \<noteq> tail buf then (if head buf = 0 then capacity buf - 1 else head buf - 1) else head buf)
      in buffer_idx2row buf idx)"

subsection \<open>The ring as a queue\<close>

definition slot :: "rowbuf \<Rightarrow> nat \<Rightarrow> nat" where
  "slot buf k = (tail buf + k) mod capacity buf"

definition contents :: "rowbuf \<Rightarrow> bufrow list" where
  "contents buf =
     (if tail buf = capacity buf then []
      else map (\<lambda>k. the (rows buf) ! slot buf k) [0..<buffer_count buf])"

text \<open>The conditions of \<open>buffer_check\<close>, with the row numbers made precise: the buffered rows are the
  last ones received, in order.\<close>

definition ring_inv :: "rowbuf \<Rightarrow> bool" where
  "ring_inv buf \<longleftrightarrow>
     1 < capacity buf \<and> head buf < capacity buf \<and> (tail buf < capacity buf \<or> tail buf = capacity buf \<and> head buf = 0) \<and>
     (\<exists>rs. rows buf = Some rs \<and> length rs = capacity buf \<and>
        (\<forall>i < capacity buf. (\<forall>k < length (contents buf). slot buf k \<noteq> i) \<longrightarrow> rs ! i = empty_row)) \<and>
     list_all (\<lambda>r. row_resinfo r \<noteq> None) (contents buf) \<and>
     length (contents buf) \<le> received buf \<and>
     map row_number (contents buf) = [received buf + 1 - length (contents buf)..<received buf + 1]"

lemma idx_increment_mod: "idx < capacity buf \<Longrightarrow> buffer_idx_increment buf idx = (idx + 1) mod capacity buf"
  by (cases "idx + 1 = capacity buf") (auto simp: buffer_idx_increment_def)

lemma mod_less_twice: "(a :: nat) < c \<Longrightarrow> n \<le> c \<Longrightarrow> (a + n) mod c = (if a + n < c then a + n else a + n - c)"
  by (auto simp: mod_if)

lemma buffer_count_ring:
  assumes "tail buf < capacity buf" "head buf < capacity buf"
  shows "1 \<le> buffer_count buf" "buffer_count buf \<le> capacity buf"
    "head buf = (tail buf + buffer_count buf) mod capacity buf"
  using assms by (auto simp: buffer_count_def mod_less_twice)

lemma buffer_count_eqI:
  assumes "tail buf < capacity buf" "head buf = (tail buf + n) mod capacity buf" "1 \<le> n" "n \<le> capacity buf"
  shows "buffer_count buf = n"
  using assms by (auto simp: buffer_count_def mod_less_twice split: if_splits)

lemma length_contents:
  "ring_inv buf \<Longrightarrow> length (contents buf) = buffer_count buf"
  by (auto simp: contents_def ring_inv_def buffer_count_def)

lemma slot_less: "0 < capacity buf \<Longrightarrow> slot buf k < capacity buf"
  by (simp add: slot_def)

lemma slot_inj:
  "slot buf i = slot buf j \<Longrightarrow> tail buf < capacity buf \<Longrightarrow> i < capacity buf \<Longrightarrow> j < capacity buf \<Longrightarrow> i = j"
  by (auto simp: slot_def mod_less_twice split: if_splits)

lemma ring_invD:
  assumes "ring_inv buf"
  obtains rs where "rows buf = Some rs" "length rs = capacity buf" "1 < capacity buf" "head buf < capacity buf"
    "\<And>i. i < capacity buf \<Longrightarrow> (\<And>k. k < length (contents buf) \<Longrightarrow> slot buf k \<noteq> i) \<Longrightarrow> rs ! i = empty_row"
  using assms that by (auto simp: ring_inv_def)

lemma contents_nth:
  assumes "ring_inv buf" "rows buf = Some rs" "k < length (contents buf)"
  shows "contents buf ! k = rs ! slot buf k" "tail buf < capacity buf"
  using assms by (auto simp: contents_def ring_inv_def split: if_splits)

text \<open>The slot at \<open>head\<close> is free unless the buffer is full.\<close>

lemma head_slot:
  assumes "ring_inv buf" "tail buf < capacity buf"
  shows "slot buf (length (contents buf)) = head buf"
proof -
  have "head buf < capacity buf" using assms(1) by (simp add: ring_inv_def)
  from buffer_count_ring(3) [OF assms(2) this] show ?thesis
    by (simp add: slot_def length_contents [OF assms(1)])
qed

lemma buffer_is_full_iff: "ring_inv buf \<Longrightarrow> buffer_is_full buf \<longleftrightarrow> length (contents buf) = capacity buf"
  by (auto simp: buffer_is_full_def length_contents) (simp add: ring_inv_def)

lemma head_empty:
  assumes "ring_inv buf" "\<not> buffer_is_full buf" "rows buf = Some rs"
  shows "rs ! head buf = empty_row"
proof -
  obtain rs' where r: "rows buf = Some rs'" "length rs' = capacity buf" "1 < capacity buf" "head buf < capacity buf"
    "\<And>i. i < capacity buf \<Longrightarrow> (\<And>k. k < length (contents buf) \<Longrightarrow> slot buf k \<noteq> i) \<Longrightarrow> rs' ! i = empty_row"
    using assms(1) by (rule ring_invD) blast
  have n: "length (contents buf) < capacity buf"
    using assms(1,2) buffer_is_full_iff [OF assms(1)] buffer_count_ring(2) [of buf] r(3,4)
    by (cases "tail buf < capacity buf") (auto simp: length_contents contents_def ring_inv_def)
  have "slot buf k \<noteq> head buf" if "k < length (contents buf)" for k
  proof -
    have t: "tail buf < capacity buf" using that contents_nth [OF assms(1) r(1)] by blast
    have "slot buf k = head buf \<Longrightarrow> k = length (contents buf)"
      using head_slot [OF assms(1) t] slot_inj [OF _ t, of k "length (contents buf)"] that n by simp
    with that show ?thesis by auto
  qed
  with r assms(3) show ?thesis by simp
qed

text \<open>The ring described by its tail and its contents: enough for the invariant.\<close>

lemma ring_invI:
  assumes "1 < capacity buf" "tail buf < capacity buf" "rows buf = Some rs" "length rs = capacity buf"
    "1 \<le> length xs" "length xs \<le> capacity buf" "head buf = (tail buf + length xs) mod capacity buf"
    "\<And>k. k < length xs \<Longrightarrow> rs ! slot buf k = xs ! k"
    "\<And>i. i < capacity buf \<Longrightarrow> (\<And>k. k < length xs \<Longrightarrow> slot buf k \<noteq> i) \<Longrightarrow> rs ! i = empty_row"
    "list_all (\<lambda>r. row_resinfo r \<noteq> None) xs" "length xs \<le> received buf"
    "map row_number xs = [received buf + 1 - length xs..<received buf + 1]"
  shows "ring_inv buf" "contents buf = xs"
proof -
  have "buffer_count buf = length xs" by (rule buffer_count_eqI) (use assms in simp_all)
  then show c: "contents buf = xs"
    using assms(2,3,8) by (auto simp: contents_def intro!: nth_equalityI)
  show "ring_inv buf" unfolding ring_inv_def c using assms by auto
qed

lemma ring_inv_emptyI:
  assumes "1 < capacity buf" "tail buf = capacity buf" "head buf = 0" "rows buf = Some (replicate (capacity buf) empty_row)"
  shows "ring_inv buf" "contents buf = []"
  using assms by (simp_all add: ring_inv_def contents_def)

subsection \<open>Operations on the queue\<close>

lemma buffer_add_row_queue:
  assumes inv: "ring_inv (row_buf db)" and nf: "\<not> buffer_is_full (row_buf db)" and r: "resinfos db r = Some info"
    and add: "buffer_add_row r db = (idx, db')"
  shows "ring_inv (row_buf db')" and
    "contents (row_buf db') = contents (row_buf db) @
       [\<lparr> row_resinfo = Some r, row_data = None, row_number = received (row_buf db) + 1, row_sizes = Some (col_sizes info) \<rparr>]"
    and "idx = Some (head (row_buf db))" "current (row_buf db') = head (row_buf db)"
    "received (row_buf db') = received (row_buf db) + 1" "capacity (row_buf db') = capacity (row_buf db)"
proof -
  define buf where "buf = row_buf db"
  define n where "n = length (contents buf)"
  define new where "new = \<lparr> row_resinfo = Some r, row_data = None, row_number = received buf + 1,
      row_sizes = Some (col_sizes info) \<rparr>"
  obtain rs where rs: "rows buf = Some rs" "length rs = capacity buf" "1 < capacity buf" "head buf < capacity buf"
    "\<And>i. i < capacity buf \<Longrightarrow> (\<And>k. k < n \<Longrightarrow> slot buf k \<noteq> i) \<Longrightarrow> rs ! i = empty_row"
    using inv unfolding buf_def [symmetric] n_def by (rule ring_invD) blast
  have "rs ! head buf = empty_row" using head_empty [OF inv nf] rs(1) by (simp add: buf_def)
  then have db': "db' = db \<lparr> row_buf := buf \<lparr> received := received buf + 1, rows := Some (rs [head buf := new]),
      tail := (if tail buf = capacity buf then 0 else tail buf), current := head buf,
      head := (head buf + 1) mod capacity buf \<rparr>, resinfos := (resinfos db)(r \<mapsto> info \<lparr> ref_count := ref_count info + 1 \<rparr>) \<rparr>"
    "idx = Some (head buf)"
    using add nf r rs(1,4) unfolding buffer_add_row_def buf_def [symmetric]
    by (auto simp: Let_def empty_row_def tds_free_results_def new_def idx_increment_mod)
  define b' where "b' = row_buf db'"
  have b': "rows b' = Some (rs [head buf := new])" "capacity b' = capacity buf"
    "tail b' = (if tail buf = capacity buf then 0 else tail buf)" "head b' = (head buf + 1) mod capacity buf"
    "received b' = received buf + 1" "current b' = head buf"
    by (simp_all add: b'_def db')
  have num: "n \<le> received buf" "map row_number (contents buf) = [received buf + 1 - n..<received buf + 1]"
    "list_all (\<lambda>r. row_resinfo r \<noteq> None) (contents buf)"
    using inv by (simp_all add: ring_inv_def buf_def n_def)
  have num': "map row_number (contents buf @ [new]) = [received b' + 1 - Suc n..<received b' + 1]"
    using num(1,2) by (simp add: new_def b')
  have "ring_inv b' \<and> contents b' = contents buf @ [new]"
  proof (cases "tail buf = capacity buf")
    case True
    then have n0: "contents buf = []" "n = 0" "head buf = 0"
      using inv by (simp_all add: contents_def n_def ring_inv_def buf_def)
    have "ring_inv b'" "contents b' = [new]"
      by (rule ring_invI [of b' "rs [head buf := new]" "[new]"];
          use rs n0 True num' in \<open>simp add: b' slot_def nth_list_update new_def\<close>)+
    with n0 show ?thesis by simp
  next
    case False
    then have t: "tail buf < capacity buf" using inv by (auto simp: ring_inv_def buf_def)
    have full: "n < capacity buf"
      using buffer_count_ring(2) [OF t rs(4)] nf inv buffer_is_full_iff [OF inv]
      by (simp add: n_def length_contents buf_def)
    have hs: "slot buf n = head buf" using head_slot [OF _ t] inv by (simp add: buf_def n_def)
    have sl: "slot b' k = slot buf k" for k using False by (simp add: slot_def b')
    have ne: "slot buf k \<noteq> head buf" if "k < n" for k
      using slot_inj [OF _ t, of k n] that full hs by auto
    let ?rs = "rs [head buf := new]" and ?xs = "contents buf @ [new]"
    have hd': "head b' = (tail b' + length ?xs) mod capacity b'"
      using False by (simp add: b' hs [symmetric] slot_def mod_Suc_eq n_def)
    have at: "?rs ! slot b' k = ?xs ! k" if "k < length ?xs" for k
    proof (cases "k < n")
      case True
      with ne [OF True] contents_nth(1) [OF inv [folded buf_def] rs(1)] show ?thesis
        by (simp add: sl nth_append n_def)
    next
      case False
      with that have "k = n" by (simp add: n_def)
      with hs rs(2,4) show ?thesis by (simp add: sl nth_append n_def)
    qed
    have emp: "?rs ! i = empty_row" if "i < capacity b'" "\<And>k. k < length ?xs \<Longrightarrow> slot b' k \<noteq> i" for i
    proof -
      have "i \<noteq> head buf" using that(2) [of n] hs by (simp add: sl n_def)
      moreover have "rs ! i = empty_row" using rs(5) [of i] that by (simp add: b' sl n_def)
      ultimately show ?thesis by simp
    qed
    have rest: "1 < capacity b'" "tail b' < capacity b'" "rows b' = Some ?rs" "length ?rs = capacity b'"
      "1 \<le> length ?xs" "length ?xs \<le> capacity b'" "list_all (\<lambda>r. row_resinfo r \<noteq> None) ?xs"
      "length ?xs \<le> received b'" "map row_number ?xs = [received b' + 1 - length ?xs..<received b' + 1]"
      using rs t full num num' False by (simp_all add: b' new_def n_def)
    note ri = ring_invI [OF rest(1-6) hd' at emp rest(7-9)]
    have "ring_inv b'" "contents b' = contents buf @ [new]" by (rule ri; assumption?)+
    then show ?thesis by simp
  qed
  then show "ring_inv (row_buf db')" and
    "contents (row_buf db') = contents (row_buf db) @
       [\<lparr> row_resinfo = Some r, row_data = None, row_number = received (row_buf db) + 1, row_sizes = Some (col_sizes info) \<rparr>]"
    by (simp_all add: b'_def buf_def new_def)
  show "idx = Some (head (row_buf db))" "current (row_buf db') = head (row_buf db)"
    "received (row_buf db') = received (row_buf db) + 1" "capacity (row_buf db') = capacity (row_buf db)"
    using b' db'(2) by (simp_all add: b'_def buf_def)
qed

text \<open>One round of the loop of \<open>buffer_delete_rows\<close>, before the test for the empty buffer.\<close>

definition drop_tail :: "dbprocess \<Rightarrow> dbprocess" where
  "drop_tail db =
     (let db = (if tail (row_buf db) < capacity (row_buf db) then buffer_free_row (tail (row_buf db)) db else db)
      in db \<lparr> row_buf := (row_buf db) \<lparr> tail := buffer_idx_increment (row_buf db) (tail (row_buf db)) \<rparr> \<rparr>)"

lemma delete_loop_drop_tail:
  "delete_loop (Suc cnt) db =
     (if tail (row_buf (drop_tail db)) = head (row_buf (drop_tail db))
      then (drop_tail db) \<lparr> row_buf := buffer_reset (row_buf (drop_tail db)) \<rparr>
      else delete_loop cnt (drop_tail db))"
  by (simp add: drop_tail_def Let_def)

declare delete_loop.simps(2) [simp del]

lemma drop_tail_queue:
  assumes inv: "ring_inv (row_buf db)" and ne: "contents (row_buf db) = x # xs"
  shows "received (row_buf (drop_tail db)) = received (row_buf db)" "capacity (row_buf (drop_tail db)) = capacity (row_buf db)"
    "xs \<noteq> [] \<Longrightarrow> tail (row_buf (drop_tail db)) \<noteq> head (row_buf (drop_tail db)) \<and>
       ring_inv (row_buf (drop_tail db)) \<and> contents (row_buf (drop_tail db)) = xs"
    "xs = [] \<Longrightarrow> tail (row_buf (drop_tail db)) = head (row_buf (drop_tail db)) \<and>
       rows (row_buf (drop_tail db)) = Some (replicate (capacity (row_buf db)) empty_row)"
proof -
  define buf where "buf = row_buf db"
  define n where "n = length (x # xs)"
  have c: "contents buf = x # xs" "n = length (contents buf)" using ne by (simp_all add: buf_def n_def)
  obtain rs where rs: "rows buf = Some rs" "length rs = capacity buf" "1 < capacity buf" "head buf < capacity buf"
    "\<And>i. i < capacity buf \<Longrightarrow> (\<And>k. k < n \<Longrightarrow> slot buf k \<noteq> i) \<Longrightarrow> rs ! i = empty_row"
    using inv unfolding buf_def [symmetric] c(2) by (rule ring_invD) blast
  have t: "tail buf < capacity buf"
    using contents_nth(2) [OF inv [folded buf_def] rs(1), of 0] c by simp
  have cap: "n \<le> capacity buf"
    using buffer_count_ring(2) [OF t rs(4)] length_contents [OF inv] c(2) by (simp add: buf_def)
  have hs: "slot buf n = head buf" using head_slot [OF _ t] inv c(2) by (simp add: buf_def)
  have s0: "slot buf 0 = tail buf" using t by (simp add: slot_def)
  let ?rs = "rs [tail buf := empty_row]"
  define b' where "b' = row_buf (drop_tail db)"
  have b': "rows b' = Some ?rs" "capacity b' = capacity buf" "tail b' = (tail buf + 1) mod capacity buf"
    "head b' = head buf" "received b' = received buf"
    using t rs(1) by (simp_all add: b'_def drop_tail_def buffer_free_row_def Let_def buf_def idx_increment_mod)
  have sl: "slot b' k = slot buf (Suc k)" for k
    by (simp add: slot_def b' mod_add_left_eq)
  have tail': "tail b' = slot buf 1" using t by (simp add: b' slot_def)
  show "received (row_buf (drop_tail db)) = received (row_buf db)" "capacity (row_buf (drop_tail db)) = capacity (row_buf db)"
    using b' by (simp_all add: b'_def buf_def)
  have emp: "?rs ! i = empty_row" if "i < capacity buf" "\<And>k. k < length xs \<Longrightarrow> slot b' k \<noteq> i" for i
  proof (cases "i = tail buf")
    case False
    have "slot buf k \<noteq> i" if "k < n" for k
      using False s0 that \<open>\<And>k. k < length xs \<Longrightarrow> slot b' k \<noteq> i\<close> by (cases k) (auto simp: sl n_def)
    with False rs(5) [of i] that(1) show ?thesis by simp
  qed (use that rs(2) in simp)
  {
    assume "xs = []"
    then have "n = 1" by (simp add: n_def)
    with hs tail' have "tail b' = head b'" by (simp add: b')
    moreover have "?rs = replicate (capacity buf) empty_row"
      using emp \<open>xs = []\<close> rs(2) by (intro nth_equalityI) simp_all
    ultimately show "tail (row_buf (drop_tail db)) = head (row_buf (drop_tail db)) \<and>
       rows (row_buf (drop_tail db)) = Some (replicate (capacity (row_buf db)) empty_row)"
      using b' by (simp add: b'_def buf_def)
  next
    assume xs: "xs \<noteq> []"
    then have n2: "1 < n" by (simp add: n_def)
    have neq: "tail b' \<noteq> head b'"
    proof (cases "n = capacity buf")
      case True
      then have "head buf = tail buf" using hs t by (simp add: slot_def)
      with slot_inj [OF _ t, of 1 0] n2 cap rs(3) s0 show ?thesis by (auto simp: b'(4) tail')
    next
      case False
      with slot_inj [OF _ t, of 1 n] n2 cap hs show ?thesis by (auto simp: b'(4) tail')
    qed
    have old: "length (x # xs) \<le> received buf"
      "map row_number (x # xs) = [received buf + 1 - length (x # xs)..<received buf + 1]"
      "list_all (\<lambda>r. row_resinfo r \<noteq> None) (x # xs)"
      using inv c(1) by (simp_all add: ring_inv_def buf_def)
    have num: "length xs \<le> received b'" "map row_number xs = [received b' + 1 - length xs..<received b' + 1]"
      "list_all (\<lambda>r. row_resinfo r \<noteq> None) xs"
      using old(1,3) arg_cong [OF old(2), of "List.tl"] by (simp_all add: b' tl_upt Suc_diff_le del: upt_Suc)
    have at: "?rs ! slot b' k = xs ! k" if "k < length xs" for k
    proof -
      have "slot buf (Suc k) \<noteq> tail buf"
        using slot_inj [OF _ t, of "Suc k" 0] that cap s0 by (auto simp: n_def)
      moreover have "contents buf ! Suc k = rs ! slot buf (Suc k)"
        using contents_nth(1) [OF inv [folded buf_def] rs(1), of "Suc k"] that c by (simp add: n_def)
      ultimately show ?thesis using c(1) by (simp add: sl)
    qed
    have rest: "1 < capacity b'" "tail b' < capacity b'" "length ?rs = capacity b'"
      "1 \<le> length xs" "length xs \<le> capacity b'"
      using rs(2,3) t cap xs by (simp_all add: b' n_def Suc_le_eq)
    have hd': "head b' = (tail b' + length xs) mod capacity b'"
      using hs by (simp add: b' slot_def n_def mod_add_left_eq)
    note ri = ring_invI [OF rest(1,2) b'(1) rest(3-5) hd' at emp num(3,1,2)]
    have "ring_inv b'" "contents b' = xs" by (rule ri; simp add: b')+
    with neq show "tail (row_buf (drop_tail db)) \<noteq> head (row_buf (drop_tail db)) \<and>
       ring_inv (row_buf (drop_tail db)) \<and> contents (row_buf (drop_tail db)) = xs"
      by (simp add: b'_def)
  }
qed

lemma delete_loop_queue:
  assumes "ring_inv (row_buf db)" "cnt \<le> length (contents (row_buf db))"
  shows "ring_inv (row_buf (delete_loop cnt db)) \<and>
    contents (row_buf (delete_loop cnt db)) = drop cnt (contents (row_buf db)) \<and>
    received (row_buf (delete_loop cnt db)) = received (row_buf db) \<and>
    capacity (row_buf (delete_loop cnt db)) = capacity (row_buf db)"
  using assms
proof (induction cnt arbitrary: db)
  case (Suc cnt)
  then obtain x xs where c: "contents (row_buf db) = x # xs" by (cases "contents (row_buf db)") auto
  note d = drop_tail_queue [OF Suc.prems(1) c]
  show ?case
  proof (cases "xs = []")
    case True
    let ?b = "buffer_reset (row_buf (drop_tail db))"
    have "ring_inv ?b" "contents ?b = []"
      by (rule ring_inv_emptyI; use d(2) d(4) [OF True] Suc.prems(1) in \<open>simp add: buffer_reset_def ring_inv_def\<close>)+
    moreover have "received ?b = received (row_buf db)" "capacity ?b = capacity (row_buf db)"
      using d(1,2) by (simp_all add: buffer_reset_def)
    ultimately show ?thesis using d(4) [OF True] c True by (simp add: delete_loop_drop_tail)
  next
    case False
    note d3 = d(3) [OF False]
    from Suc.IH [of "drop_tail db"] d3 d(1,2) Suc.prems(2) c show ?thesis
      by (simp add: delete_loop_drop_tail)
  qed
qed simp

lemma contents_row_number:
  assumes "ring_inv buf" "i < length (contents buf)"
  shows "row_number (contents buf ! i) = received buf + 1 - length (contents buf) + i"
proof -
  have m: "map row_number (contents buf) = [received buf + 1 - length (contents buf)..<received buf + 1]"
    and "length (contents buf) \<le> received buf"
    using assms(1) by (simp_all add: ring_inv_def)
  moreover have "row_number (contents buf ! i) = map row_number (contents buf) ! i" using assms(2) by simp
  ultimately show ?thesis unfolding m using assms(2) by (simp del: upt_Suc)
qed

lemma slot_Suc:
  "0 < capacity buf \<Longrightarrow> buffer_idx_increment buf (slot buf j) = slot buf (Suc j)"
  by (simp add: idx_increment_mod slot_less) (simp add: slot_def mod_Suc_eq)

lemma slot_not_head:
  assumes "ring_inv buf" "0 < j" "j < length (contents buf)"
  shows "slot buf j \<noteq> head buf"
proof -
  obtain rs where rs: "rows buf = Some rs" "length rs = capacity buf" "1 < capacity buf" "head buf < capacity buf"
    using assms(1) by (rule ring_invD) blast
  have t: "tail buf < capacity buf" using contents_nth(2) [OF assms(1) rs(1) assms(3)] .
  have len: "length (contents buf) \<le> capacity buf"
    using buffer_count_ring(2) [OF t rs(4)] by (simp add: length_contents [OF assms(1)])
  have hs: "slot buf (length (contents buf)) = head buf" by (rule head_slot [OF assms(1) t])
  show ?thesis
  proof (cases "length (contents buf) = capacity buf")
    case True
    then have "head buf = slot buf 0" using hs by (simp add: slot_def)
    with slot_inj [OF _ t, of j 0] assms True rs(3) show ?thesis by auto
  next
    case False
    with slot_inj [OF _ t, of j "length (contents buf)"] assms hs len show ?thesis by auto
  qed
qed

lemma row2idx_loop_finds:
  assumes inv: "ring_inv buf" and base: "base = received buf + 1 - length (contents buf)"
    and "j < length (contents buf)" "length (contents buf) \<le> j + k"
  shows "row2idx_loop k buf m (slot buf j) =
    (if base + j \<le> m \<and> m < base + length (contents buf) then Some (slot buf (m - base)) else None)"
  using assms(3,4)
proof (induction k arbitrary: j)
  case (Suc k)
  define len where "len = length (contents buf)"
  obtain rs where rs: "rows buf = Some rs" "length rs = capacity buf" "1 < capacity buf" "head buf < capacity buf"
    using inv by (rule ring_invD) blast
  have nth: "buffer_idx2row buf (slot buf j) = Some (base + j)"
    using contents_nth(1) [OF inv rs(1) Suc.prems(1)] contents_row_number [OF inv Suc.prems(1)] rs(1,3)
      slot_less [of buf j] by (simp add: buffer_idx2row_def buffer_row_address_def base)
  have inc: "buffer_idx_increment buf (slot buf j) = slot buf (Suc j)" using rs(3) by (simp add: slot_Suc)
  show ?case
  proof (cases "Suc j = len")
    case True
    have "tail buf < capacity buf" using contents_nth(2) [OF inv rs(1) Suc.prems(1)] .
    from head_slot [OF inv this] True have "slot buf (Suc j) = head buf" by (simp add: len_def)
    with True nth inc show ?thesis by (auto simp: len_def)
  next
    case False
    with Suc.prems(1) have "Suc j < len" by (simp add: len_def)
    with slot_not_head [OF inv, of "Suc j"] have "slot buf (Suc j) \<noteq> head buf" by (simp add: len_def)
    with Suc.IH [of "Suc j"] Suc.prems(2) \<open>Suc j < len\<close> nth inc show ?thesis
      by (auto simp: len_def [symmetric])
  qed
qed simp

text \<open>The interface the callers of the row buffer rely on: a bounded queue.\<close>

locale row_queue =
  fixes ok :: "'s \<Rightarrow> bool" and queue :: "'s \<Rightarrow> 'r list" and limit :: "'s \<Rightarrow> nat"
    and add :: "'a \<Rightarrow> 's \<Rightarrow> 's option" and del :: "nat \<Rightarrow> 's \<Rightarrow> 's" and made :: "'a \<Rightarrow> 's \<Rightarrow> 'r"
  assumes add_full: "ok s \<Longrightarrow> length (queue s) = limit s \<Longrightarrow> add a s = None"
    and add_ok: "ok s \<Longrightarrow> length (queue s) < limit s \<Longrightarrow>
      \<exists>t. add a s = Some t \<and> ok t \<and> queue t = queue s @ [made a s] \<and> limit t = limit s"
    and del_ok: "ok s \<Longrightarrow> ok (del n s) \<and> queue (del n s) = drop n (queue s) \<and> limit (del n s) = limit s"
    and bounded: "ok s \<Longrightarrow> length (queue s) \<le> limit s"
begin

text \<open>Deleting \<open>n\<close> rows makes room for \<open>n\<close> more.\<close>

lemma add_after_del:
  assumes "ok s" "0 < n" "n \<le> length (queue s)"
  shows "\<exists>t. add a (del n s) = Some t \<and> ok t \<and> queue t = drop n (queue s) @ [made a (del n s)]"
proof -
  have d: "ok (del n s)" "queue (del n s) = drop n (queue s)" "limit (del n s) = limit s"
    using del_ok [OF assms(1)] by simp_all
  with bounded [OF assms(1)] assms(2,3) have "length (queue (del n s)) < limit (del n s)" by simp
  from add_ok [OF d(1) this, of a] d(2) show ?thesis by auto
qed

lemma del_all: "ok s \<Longrightarrow> queue (del (length (queue s)) s) = []"
  using del_ok by simp

end

subsection \<open>References\<close>

text \<open>\<open>H\<close> is the set of result informations the socket itself holds. Every reference of a slot is
  counted, so nothing in use has been freed and nothing unused is left.\<close>

definition refs :: "nat set \<Rightarrow> bufrow list \<Rightarrow> nat \<Rightarrow> nat" where
  "refs H rs a = count (mset (map row_resinfo rs)) (Some a) + (if a \<in> H then 1 else 0)"

definition refs_ok :: "nat set \<Rightarrow> dbprocess \<Rightarrow> bool" where
  "refs_ok H db \<longleftrightarrow>
     (case rows (row_buf db) of
        None \<Rightarrow> True
      | Some rs \<Rightarrow>
          (\<forall>a. if refs H rs a = 0 then resinfos db a = None
               else \<exists>i. resinfos db a = Some i \<and> ref_count i = refs H rs a))"

lemma refs_update:
  assumes "i < length rs"
  shows "refs H (rs [i := row]) a + (if row_resinfo (rs ! i) = Some a then 1 else 0) =
    refs H rs a + (if row_resinfo row = Some a then 1 else 0)"
proof -
  have "mset (map row_resinfo (rs [i := row])) =
      add_mset (row_resinfo row) (mset (map row_resinfo rs) - {#row_resinfo (rs ! i)#})"
    using assms by (simp add: map_update mset_update)
  moreover have "row_resinfo (rs ! i) \<in># mset (map row_resinfo rs)" using assms by simp
  then have "0 < count (mset (map row_resinfo rs)) (row_resinfo (rs ! i))"
    unfolding count_greater_zero_iff .
  ultimately show ?thesis by (auto simp: refs_def)
qed

lemma refs_ok_rows:
  "rows (row_buf db) = Some rs \<Longrightarrow> refs_ok H db \<longleftrightarrow>
     (\<forall>a. if refs H rs a = 0 then resinfos db a = None
          else \<exists>i. resinfos db a = Some i \<and> ref_count i = refs H rs a)"
  by (simp add: refs_ok_def)

lemma refs_ok_cong:
  "rows (row_buf db') = rows (row_buf db) \<Longrightarrow> resinfos db' = resinfos db \<Longrightarrow> refs_ok H db' = refs_ok H db"
  by (cases "rows (row_buf db)") (simp_all add: refs_ok_def)

lemma refs_okD:
  assumes "refs_ok H db" "rows (row_buf db) = Some rs"
  shows "refs H rs a = 0 \<Longrightarrow> resinfos db a = None"
    "refs H rs a \<noteq> 0 \<Longrightarrow> \<exists>i. resinfos db a = Some i \<and> ref_count i = refs H rs a"
  using spec [OF iffD1 [OF refs_ok_rows [OF assms(2)] assms(1)], of a] by simp_all

lemma refs_okI:
  assumes "rows (row_buf db) = Some rs" "\<And>a. refs H rs a = 0 \<Longrightarrow> resinfos db a = None"
    "\<And>a. refs H rs a \<noteq> 0 \<Longrightarrow> \<exists>i. resinfos db a = Some i \<and> ref_count i = refs H rs a"
  shows "refs_ok H db"
  unfolding refs_ok_rows [OF assms(1)] using assms(2,3) by presburger

lemma buffer_free_row_refs:
  assumes ok: "refs_ok H db" and rs: "rows (row_buf db) = Some rs" and i: "i < length rs"
  shows "refs_ok H (buffer_free_row i db)"
proof -
  let ?rs = "rs [i := empty_row]"
  have free: "rows (row_buf (buffer_free_row i db)) = Some ?rs"
    "resinfos (buffer_free_row i db) = tds_free_results (row_resinfo (rs ! i)) (resinfos db)"
    using rs by (simp_all add: buffer_free_row_def)
  have up: "refs H ?rs a + (if row_resinfo (rs ! i) = Some a then 1 else 0) = refs H rs a" for a
    using refs_update [OF i, of H empty_row a] by (simp add: empty_row_def)
  have "if refs H ?rs a = 0 then resinfos (buffer_free_row i db) a = None
      else \<exists>j. resinfos (buffer_free_row i db) a = Some j \<and> ref_count j = refs H ?rs a" for a
  proof (cases "row_resinfo (rs ! i) = Some a")
    case True
    with up [of a] have r: "refs H rs a = Suc (refs H ?rs a)" by simp
    then obtain j where "resinfos db a = Some j" "ref_count j = refs H rs a"
      using refs_okD(2) [OF ok rs, of a] by auto
    with True r show ?thesis by (simp add: free tds_free_results_def)
  next
    case False
    with up [of a] have "refs H ?rs a = refs H rs a" by simp
    moreover have "resinfos (buffer_free_row i db) a = resinfos db a"
      using False by (auto simp: free tds_free_results_def split: option.splits)
    ultimately show ?thesis using refs_okD [OF ok rs, of a] by simp
  qed
  then show ?thesis unfolding refs_ok_rows [OF free(1)] by blast
qed

lemma drop_tail_refs:
  assumes "refs_ok H db" "ring_inv (row_buf db)"
  shows "refs_ok H (drop_tail db)"
proof -
  obtain rs where rs: "rows (row_buf db) = Some rs" "length rs = capacity (row_buf db)"
    using assms(2) by (rule ring_invD) blast
  have "refs_ok H (if tail (row_buf db) < capacity (row_buf db) then buffer_free_row (tail (row_buf db)) db else db)"
    using buffer_free_row_refs [OF assms(1) rs(1)] rs(2) assms(1) by simp
  then show ?thesis unfolding drop_tail_def Let_def by (subst refs_ok_cong) auto
qed

lemma delete_loop_refs:
  assumes "refs_ok H db" "ring_inv (row_buf db)" "cnt \<le> length (contents (row_buf db))"
  shows "refs_ok H (delete_loop cnt db)"
  using assms
proof (induction cnt arbitrary: db)
  case (Suc cnt)
  then obtain x xs where c: "contents (row_buf db) = x # xs" by (cases "contents (row_buf db)") auto
  note d = drop_tail_queue [OF Suc.prems(2) c]
  have r: "refs_ok H (drop_tail db)" by (rule drop_tail_refs [OF Suc.prems(1,2)])
  show ?case
  proof (cases "xs = []")
    case True
    from r have "refs_ok H ((drop_tail db) \<lparr> row_buf := buffer_reset (row_buf (drop_tail db)) \<rparr>)"
      by (subst refs_ok_cong) (auto simp: buffer_reset_def)
    with d(4) [OF True] show ?thesis by (simp add: delete_loop_drop_tail)
  next
    case False
    with d(3) [OF False] Suc.IH [OF r] Suc.prems(3) c show ?thesis by (simp add: delete_loop_drop_tail)
  qed
qed simp

lemma buffer_add_row_refs:
  assumes ok: "refs_ok H db" and inv: "ring_inv (row_buf db)" and nf: "\<not> buffer_is_full (row_buf db)" and r: "r \<in> H"
    and add: "buffer_add_row r db = (idx, db')"
  shows "refs_ok H db'" "\<exists>info. resinfos db r = Some info"
    "\<And>a. map_option current_row (resinfos db' a) = map_option current_row (resinfos db a)"
proof -
  define buf where "buf = row_buf db"
  obtain rs where rs: "rows buf = Some rs" "length rs = capacity buf" "head buf < capacity buf"
    using inv unfolding buf_def by (rule ring_invD) blast
  have e: "rs ! head buf = empty_row" using head_empty [OF inv nf] rs(1) by (simp add: buf_def)
  have "refs H rs r \<noteq> 0" using r by (simp add: refs_def)
  then show ex: "\<exists>info. resinfos db r = Some info"
    using refs_okD(2) [OF ok rs(1) [unfolded buf_def]] by blast
  then obtain info where info: "resinfos db r = Some info" by blast
  define row where "row = \<lparr> row_resinfo = Some r, row_data = None, row_number = received buf + 1,
      row_sizes = Some (col_sizes info) \<rparr>"
  have row: "row_resinfo row = Some r" "rows (row_buf db') = Some (rs [head buf := row])"
    "resinfos db' = (resinfos db)(r \<mapsto> info \<lparr> ref_count := ref_count info + 1 \<rparr>)"
    using add nf info rs(1) e unfolding buffer_add_row_def buf_def [symmetric]
    by (auto simp: Let_def empty_row_def tds_free_results_def row_def)
  have up: "refs H (rs [head buf := row]) a = refs H rs a + (if a = r then 1 else 0)" for a
    using refs_update [of "head buf" rs H row a] rs(2,3) e row(1) by (auto simp: empty_row_def)
  show "refs_ok H db'"
  proof (rule refs_okI [OF row(2)])
    note d = refs_okD [OF ok rs(1) [unfolded buf_def]]
    show "resinfos db' a = None" if "refs H (rs [head buf := row]) a = 0" for a
      using that d(1) [of a] by (simp add: up row(3) split: if_splits)
    show "\<exists>i. resinfos db' a = Some i \<and> ref_count i = refs H (rs [head buf := row]) a"
      if "refs H (rs [head buf := row]) a \<noteq> 0" for a
      using that d(2) [of a] info \<open>refs H rs r \<noteq> 0\<close> by (auto simp: up row(3) split: if_splits)
  qed
  show "map_option current_row (resinfos db' a) = map_option current_row (resinfos db a)" for a
    using info by (auto simp: row(3))
qed

subsection \<open>The rows as the application sees them\<close>

text \<open>A buffered row is its number, its data and its column sizes; the data of the newest row may still be
  the current row of its result information.\<close>

type_synonym row_view = "nat \<times> byte list \<times> int list option"

definition view_row :: "dbprocess \<Rightarrow> bufrow \<Rightarrow> row_view" where
  "view_row db r =
     (row_number r,
      (case row_data r of Some d \<Rightarrow> d | None \<Rightarrow> current_row (the (resinfos db (the (row_resinfo r))))),
      row_sizes r)"

definition view :: "dbprocess \<Rightarrow> row_view list" where
  "view db = map (view_row db) (contents (row_buf db))"

text \<open>A row of the server arrives: \<open>dbnextrow\<close> saves the newest buffered row, the token reader
  overwrites the current row and the sizes of the result information \<open>r\<close>, and the row is added.\<close>

definition overwrite :: "nat \<Rightarrow> byte list \<Rightarrow> int list \<Rightarrow> dbprocess \<Rightarrow> dbprocess" where
  "overwrite r d szs db =
     db \<lparr> resinfos := (resinfos db)(r := map_option (\<lambda>i. i \<lparr> current_row := d, col_sizes := szs \<rparr>) (resinfos db r)) \<rparr>"

definition receive_row :: "nat \<Rightarrow> byte list \<Rightarrow> byte list \<times> int list \<Rightarrow> dbprocess \<Rightarrow> dbprocess option" where
  "receive_row r fresh row db =
     (if buffer_is_full (row_buf db) then None
      else case buffer_add_row r (overwrite r (fst row) (snd row) (buffer_save_row fresh db)) of
             (None, db) \<Rightarrow> None
           | (Some idx, db) \<Rightarrow> Some db)"

definition db_ok :: "nat set \<Rightarrow> dbprocess \<Rightarrow> bool" where
  "db_ok H db \<longleftrightarrow> ring_inv (row_buf db) \<and> refs_ok H db \<and>
     list_all (\<lambda>r. row_data r \<noteq> None) (butlast (contents (row_buf db)))"

definition saved :: "dbprocess \<Rightarrow> bool" where
  "saved db \<longleftrightarrow> list_all (\<lambda>r. row_data r \<noteq> None) (contents (row_buf db))"

text \<open>Replacing a slot by one with the same number and result information.\<close>

lemma ring_inv_replace:
  assumes inv: "ring_inv buf" and rs: "rows buf = Some rs" and k: "k < length (contents buf)"
    and row: "row_number row = row_number (contents buf ! k)" "row_resinfo row = row_resinfo (contents buf ! k)"
  shows "ring_inv (buf \<lparr> rows := Some (rs [slot buf k := row]) \<rparr>)"
    "contents (buf \<lparr> rows := Some (rs [slot buf k := row]) \<rparr>) = (contents buf) [k := row]"
proof -
  let ?b = "buf \<lparr> rows := Some (rs [slot buf k := row]) \<rparr>" and ?xs = "(contents buf) [k := row]"
  obtain rs' where r: "rows buf = Some rs'" "length rs' = capacity buf" "1 < capacity buf" "head buf < capacity buf"
    "\<And>i. i < capacity buf \<Longrightarrow> (\<And>k. k < length (contents buf) \<Longrightarrow> slot buf k \<noteq> i) \<Longrightarrow> rs' ! i = empty_row"
    using inv by (rule ring_invD) blast
  have [simp]: "rs' = rs" using r(1) rs by simp
  have t: "tail buf < capacity buf" using contents_nth(2) [OF inv rs k] .
  have cap: "length (contents buf) \<le> capacity buf"
    using buffer_count_ring(2) [OF t r(4)] by (simp add: length_contents [OF inv])
  have sl: "slot ?b i = slot buf i" for i by (simp add: slot_def)
  have old: "list_all (\<lambda>r. row_resinfo r \<noteq> None) (contents buf)" "length (contents buf) \<le> received buf"
    "map row_number (contents buf) = [received buf + 1 - length (contents buf)..<received buf + 1]"
    using inv by (simp_all add: ring_inv_def)
  have "map row_number ?xs = map row_number (contents buf)"
    using k row(1) by (simp add: map_update list_update_same_conv)
  then have num: "map row_number ?xs = [received ?b + 1 - length ?xs..<received ?b + 1]" using old(3) by simp
  have inf: "list_all (\<lambda>r. row_resinfo r \<noteq> None) ?xs"
    using old(1) k row(2) by (simp add: list_all_length nth_list_update)
  have at: "rs [slot buf k := row] ! slot ?b i = ?xs ! i" if "i < length ?xs" for i
  proof (cases "i = k")
    case True
    with k r(2,3) slot_less [of buf k] show ?thesis by (simp add: sl)
  next
    case False
    with slot_inj [OF _ t, of i k] that k cap have "slot buf i \<noteq> slot buf k" by auto
    with False contents_nth(1) [OF inv rs] that show ?thesis by (simp add: sl)
  qed
  have emp: "rs [slot buf k := row] ! i = empty_row"
    if "i < capacity ?b" "\<And>j. j < length ?xs \<Longrightarrow> slot ?b j \<noteq> i" for i
    using that k r(5) [of i] by (simp add: sl)
  have hd': "head ?b = (tail ?b + length ?xs) mod capacity ?b"
    using head_slot [OF inv t] by (simp add: slot_def)
  have rest: "1 < capacity ?b" "tail ?b < capacity ?b" "rows ?b = Some (rs [slot buf k := row])"
    "length (rs [slot buf k := row]) = capacity ?b" "1 \<le> length ?xs" "length ?xs \<le> capacity ?b" "length ?xs \<le> received ?b"
    using r t cap k old(2) by simp_all
  note ri = ring_invI [OF rest(1-6) hd' at emp inf rest(7) num]
  show "ring_inv ?b" "contents ?b = ?xs" by (rule ri; simp)+
qed

lemma last_slot:
  assumes inv: "ring_inv buf" and n: "length (contents buf) = Suc m"
  shows "(if head buf = 0 then capacity buf - 1 else head buf - 1) = slot buf m"
proof -
  obtain rs where rs: "rows buf = Some rs" "1 < capacity buf" using inv by (rule ring_invD) blast
  have t: "tail buf < capacity buf" using contents_nth(2) [OF inv rs(1), of 0] n by simp
  have "buffer_idx_increment buf (slot buf m) = head buf"
    using head_slot [OF inv t] n rs(2) by (simp add: slot_Suc)
  with slot_less [of buf m] rs(2) show ?thesis by (auto simp: buffer_idx_increment_def split: if_splits)
qed

lemma slot_resinfo_alive:
  assumes "refs_ok H db" "rows (row_buf db) = Some rs" "i < length rs" "row_resinfo (rs ! i) = Some a"
  shows "\<exists>info. resinfos db a = Some info"
proof -
  have "row_resinfo (rs ! i) \<in> row_resinfo ` set rs" using assms(3) by simp
  then have "Some a \<in># mset (map row_resinfo rs)" using assms(4) by simp
  then have "refs H rs a \<noteq> 0" unfolding refs_def count_greater_zero_iff [symmetric] by simp
  from refs_okD(2) [OF assms(1,2) this] show ?thesis by blast
qed

lemma view_row_saved: "row_data r \<noteq> None \<Longrightarrow> view_row db r = view_row db' r"
  by (auto simp: view_row_def)

lemma buffer_save_row_view:
  assumes ok: "db_ok H db"
  shows "ring_inv (row_buf (buffer_save_row fresh db)) \<and> refs_ok H (buffer_save_row fresh db) \<and>
    saved (buffer_save_row fresh db) \<and> view (buffer_save_row fresh db) = view db \<and>
    received (row_buf (buffer_save_row fresh db)) = received (row_buf db) \<and>
    capacity (row_buf (buffer_save_row fresh db)) = capacity (row_buf db)"
proof -
  define buf where "buf = row_buf db"
  from ok have inv: "ring_inv buf" and refs: "refs_ok H db"
    and butl: "list_all (\<lambda>r. row_data r \<noteq> None) (butlast (contents buf))"
    by (simp_all add: db_ok_def buf_def)
  obtain rs where rs: "rows buf = Some rs" "length rs = capacity buf" "1 < capacity buf" "head buf < capacity buf"
    "\<And>i. i < capacity buf \<Longrightarrow> (\<And>k. k < length (contents buf) \<Longrightarrow> slot buf k \<noteq> i) \<Longrightarrow> rs ! i = empty_row"
    using inv by (rule ring_invD) blast
  define idx where "idx = (if head buf = 0 then capacity buf - 1 else head buf - 1)"
  have save: "buffer_save_row fresh db = (case (row_resinfo (rs ! idx), row_data (rs ! idx)) of
      (Some a, None) \<Rightarrow>
        (case resinfos db a of
           None \<Rightarrow> db
         | Some info \<Rightarrow> db \<lparr> row_buf := buf \<lparr> rows := Some (rs [idx := (rs ! idx) \<lparr> row_data := Some (current_row info) \<rparr>]) \<rparr>,
             resinfos := (resinfos db)(a \<mapsto> info \<lparr> current_row := fresh \<rparr>) \<rparr>)
    | _ \<Rightarrow> db)"
    unfolding buffer_save_row_def buf_def [symmetric] Let_def idx_def [symmetric] using rs(1,3) by simp
  show ?thesis
  proof (cases "length (contents buf)")
    case 0
    then have "idx < capacity buf" using rs(3,4) by (auto simp: idx_def)
    with rs(5) [of idx] 0 have "rs ! idx = empty_row" by simp
    with save inv refs 0 show ?thesis by (simp add: empty_row_def saved_def buf_def)
  next
    case (Suc m)
    have idx: "idx = slot buf m" unfolding idx_def by (rule last_slot [OF inv Suc])
    have row: "rs ! idx = contents buf ! m" using contents_nth(1) [OF inv rs(1)] Suc idx by simp
    have lt: "idx < length rs" using idx rs(2,3) slot_less [of buf m] by simp
    from Suc have split: "contents buf = butlast (contents buf) @ [contents buf ! m]"
      by (metis append_butlast_last_id diff_Suc_1 last_conv_nth length_0_conv nat.distinct(1))
    obtain a where a: "row_resinfo (rs ! idx) = Some a"
      using inv Suc row by (auto simp: ring_inv_def list_all_length)
    obtain info where info: "resinfos db a = Some info"
      using slot_resinfo_alive [OF refs _ lt a] rs(1) by (auto simp: buf_def)
    show ?thesis
    proof (cases "row_data (rs ! idx)")
      case (Some d)
      have "list_all (\<lambda>r. row_data r \<noteq> None) (contents buf)"
        by (subst split) (use butl Some row in simp)
      with save Some a inv refs show ?thesis by (simp add: saved_def buf_def)
    next
      case None
      let ?row = "(rs ! idx) \<lparr> row_data := Some (current_row info) \<rparr>"
      let ?b = "buf \<lparr> rows := Some (rs [idx := ?row]) \<rparr>"
      have s: "buffer_save_row fresh db = db \<lparr> row_buf := ?b, resinfos := (resinfos db)(a \<mapsto> info \<lparr> current_row := fresh \<rparr>) \<rparr>"
        using save None a info by simp
      have rr: "ring_inv ?b" "contents ?b = (contents buf) [m := ?row]"
        using ring_inv_replace [OF inv rs(1), of m ?row] Suc row by (simp_all add: idx)
      have cb: "contents ?b = butlast (contents buf) @ [?row]"
      proof -
        have "length (butlast (contents buf)) = m" using Suc by simp
        then have "(butlast (contents buf) @ [contents buf ! m]) [m := ?row] = butlast (contents buf) @ [?row]"
          by (metis list_update_length)
        with split rr(2) show ?thesis by simp
      qed
      have ref: "refs H (rs [idx := ?row]) b = refs H rs b" for b
        using refs_update [OF lt, of H ?row b] by simp
      have "refs_ok H (buffer_save_row fresh db)"
      proof (rule refs_okI [of _ "rs [idx := ?row]"])
        note d = refs_okD [OF refs rs(1) [unfolded buf_def]]
        show "resinfos (buffer_save_row fresh db) b = None" if "refs H (rs [idx := ?row]) b = 0" for b
          using that d(1) [of b] info by (auto simp: s ref)
        show "\<exists>i. resinfos (buffer_save_row fresh db) b = Some i \<and> ref_count i = refs H (rs [idx := ?row]) b"
          if "refs H (rs [idx := ?row]) b \<noteq> 0" for b
          using that d(2) [of b] info by (auto simp: s ref)
      qed (simp add: s)
      moreover have "saved (buffer_save_row fresh db)" using butl by (simp add: saved_def s cb)
      moreover have "map (view_row (buffer_save_row fresh db)) (butlast (contents buf)) =
          map (view_row db) (butlast (contents buf))"
        using butl by (auto simp: list_all_iff intro: view_row_saved)
      moreover have "view_row (buffer_save_row fresh db) ?row = view_row db (contents buf ! m)"
        using a info None by (simp add: view_row_def row [symmetric])
      moreover have "contents (row_buf (buffer_save_row fresh db)) = butlast (contents buf) @ [?row]"
        by (simp add: s cb)
      moreover have "map (view_row db) (contents buf) =
          map (view_row db) (butlast (contents buf)) @ [view_row db (contents buf ! m)]"
        using arg_cong [OF split, of "map (view_row db)"] by simp
      ultimately have "view (buffer_save_row fresh db) = view db"
        unfolding view_def buf_def [symmetric] by simp
      with \<open>refs_ok H (buffer_save_row fresh db)\<close> \<open>saved (buffer_save_row fresh db)\<close> rr(1)
      show ?thesis by (simp add: s buf_def)
    qed
  qed
qed

lemma overwrite_view:
  assumes "saved db" "refs_ok H db"
  shows "view (overwrite r d szs db) = view db" "refs_ok H (overwrite r d szs db)"
proof -
  have "map (view_row (overwrite r d szs db)) (contents (row_buf db)) = map (view_row db) (contents (row_buf db))"
    using assms(1) by (auto simp: saved_def list_all_iff intro: view_row_saved)
  then show "view (overwrite r d szs db) = view db" by (simp add: view_def overwrite_def)
  show "refs_ok H (overwrite r d szs db)"
  proof (cases "rows (row_buf db)")
    case None
    then show ?thesis by (simp add: refs_ok_def overwrite_def)
  next
    case (Some rs)
    note d = refs_okD [OF assms(2) Some]
    show ?thesis
    proof (rule refs_okI [of _ rs])
      show "resinfos (overwrite r d szs db) a = None" if "refs H rs a = 0" for a
        using that d(1) [of a] by (auto simp: overwrite_def)
      show "\<exists>i. resinfos (overwrite r d szs db) a = Some i \<and> ref_count i = refs H rs a" if "refs H rs a \<noteq> 0" for a
        using that d(2) [of a] by (auto simp: overwrite_def)
    qed (simp add: Some overwrite_def)
  qed
qed

lemma receive_row_view:
  assumes ok: "db_ok H db" and r: "r \<in> H" and nf: "\<not> buffer_is_full (row_buf db)"
  shows "\<exists>db'. receive_row r fresh (d, szs) db = Some db' \<and> db_ok H db' \<and>
    view db' = view db @ [(received (row_buf db) + 1, d, Some szs)] \<and>
    capacity (row_buf db') = capacity (row_buf db) \<and> received (row_buf db') = received (row_buf db) + 1"
proof -
  note sv = buffer_save_row_view [OF ok, of fresh]
  define s where "s = overwrite r d szs (buffer_save_row fresh db)"
  have sb: "row_buf s = row_buf (buffer_save_row fresh db)" by (simp add: s_def overwrite_def)
  have s: "ring_inv (row_buf s)" "refs_ok H s" "saved s" "view s = view db"
    "received (row_buf s) = received (row_buf db)" "capacity (row_buf s) = capacity (row_buf db)"
    using sv overwrite_view [of "buffer_save_row fresh db" H r d szs] by (simp_all add: s_def sb [unfolded s_def] saved_def)
  have "length (contents (row_buf s)) = length (contents (row_buf db))"
    using arg_cong [OF s(4), of length] by (simp add: view_def)
  then have nfs: "\<not> buffer_is_full (row_buf s)"
    using nf ok s(1,6) by (simp add: buffer_is_full_iff db_ok_def)
  obtain idx db' where add: "buffer_add_row r s = (idx, db')" by fastforce
  note refs = buffer_add_row_refs [OF s(2,1) nfs r add]
  obtain info where info: "resinfos s r = Some info" using refs(2) by blast
  have i2: "current_row info = d" "col_sizes info = szs" using info by (auto simp: s_def overwrite_def)
  note q = buffer_add_row_queue [OF s(1) nfs info add]
  define new where "new = \<lparr> row_resinfo = Some r, row_data = None, row_number = received (row_buf s) + 1,
      row_sizes = Some (col_sizes info) \<rparr>"
  have c: "contents (row_buf db') = contents (row_buf s) @ [new]" using q(2) by (simp add: new_def)
  have "db_ok H db'" using q(1) refs(1) s(3) by (simp add: db_ok_def c saved_def)
  moreover have "map (view_row db') (contents (row_buf s)) = map (view_row s) (contents (row_buf s))"
    using s(3) by (auto simp: saved_def list_all_iff intro: view_row_saved)
  moreover have "map_option current_row (resinfos db' r) = Some d" using refs(3) [of r] info i2 by simp
  then have "view_row db' new = (received (row_buf db) + 1, d, Some szs)"
    using s(5) i2 by (auto simp: view_row_def new_def)
  ultimately have "db_ok H db' \<and> view db' = view db @ [(received (row_buf db) + 1, d, Some szs)]"
    using s(4) unfolding view_def c by (simp del: map_eq_conv)
  moreover have "receive_row r fresh (d, szs) db = Some db'"
    using nf add q(3) by (simp add: receive_row_def s_def)
  ultimately show ?thesis using q(5,6) s(5,6) by simp
qed

text \<open>Freeing rows does not touch the current row of a result information that stays.\<close>

lemma tds_free_results_current:
  "tds_free_results r m a = Some i \<Longrightarrow> \<exists>j. m a = Some j \<and> current_row j = current_row i"
  by (auto simp: tds_free_results_def split: option.splits if_splits)

lemma delete_loop_current:
  "resinfos (delete_loop n db) a = Some i \<Longrightarrow> \<exists>j. resinfos db a = Some j \<and> current_row j = current_row i"
proof (induction n arbitrary: db)
  case (Suc n)
  have drop: "\<exists>j. resinfos db a = Some j \<and> current_row j = current_row i" if "resinfos (drop_tail db) a = Some i" for i
    using that by (auto simp: drop_tail_def buffer_free_row_def Let_def dest: tds_free_results_current
      split: option.splits if_splits)
  show ?case
  proof (cases "tail (row_buf (drop_tail db)) = head (row_buf (drop_tail db))")
    case True
    with Suc.prems drop show ?thesis by (simp add: delete_loop_drop_tail)
  next
    case False
    with Suc.prems Suc.IH [of "drop_tail db"] drop show ?thesis by (fastforce simp: delete_loop_drop_tail)
  qed
qed simp

lemma ring_inv_resinfo: "ring_inv buf \<Longrightarrow> r \<in> set (contents buf) \<Longrightarrow> \<exists>a. row_resinfo r = Some a"
  unfolding ring_inv_def list_all_iff by blast

lemma delete_loop_view:
  assumes ok: "db_ok H db" and n: "n \<le> length (contents (row_buf db))"
  shows "db_ok H (delete_loop n db)" "view (delete_loop n db) = drop n (view db)"
proof -
  have inv: "ring_inv (row_buf db)" "refs_ok H db" using ok by (simp_all add: db_ok_def)
  note q = delete_loop_queue [OF inv(1) n]
  have q2: "contents (row_buf (delete_loop n db)) = drop n (contents (row_buf db))" using q by simp
  have "butlast (drop n xs) = drop n (butlast xs)" for xs :: "bufrow list"
    by (simp add: butlast_drop)
  then have "list_all (\<lambda>r. row_data r \<noteq> None) (butlast (contents (row_buf (delete_loop n db))))"
    using ok by (auto simp: db_ok_def q2 list_all_iff dest: in_set_dropD)
  then show "db_ok H (delete_loop n db)"
    using q delete_loop_refs [OF inv(2,1) n] by (simp add: db_ok_def)
  let ?db = "delete_loop n db"
  have "view_row ?db r = view_row db r" if r: "r \<in> set (contents (row_buf ?db))" for r
  proof (cases "row_data r")
    case None
    obtain rs where rs: "rows (row_buf ?db) = Some rs" "length rs = capacity (row_buf ?db)" "1 < capacity (row_buf ?db)"
      using q by (auto elim: ring_invD)
    from r obtain k where k: "k < length (contents (row_buf ?db))" "r = contents (row_buf ?db) ! k"
      by (auto simp: in_set_conv_nth)
    then have "r = rs ! slot (row_buf ?db) k" using contents_nth(1) [OF _ rs(1)] q by simp
    moreover obtain a where "row_resinfo r = Some a" using ring_inv_resinfo q r by blast
    ultimately obtain i where "resinfos ?db a = Some i"
      using slot_resinfo_alive [OF delete_loop_refs [OF inv(2,1) n] rs(1)] slot_less [of "row_buf ?db" k] rs(2,3)
      by auto
    with delete_loop_current [OF this] None \<open>row_resinfo r = Some a\<close> show ?thesis by (auto simp: view_row_def)
  qed (simp add: view_row_def)
  then show "view ?db = drop n (view db)"
    by (simp add: view_def q2 drop_map cong: map_cong)
qed

lemma length_view: "db_ok H db \<Longrightarrow> length (view db) = buffer_count (row_buf db)"
  by (simp add: view_def db_ok_def length_contents)

lemma buffer_delete_rows_view:
  assumes "db_ok H db"
  shows "db_ok H (buffer_delete_rows n db)"
    "view (buffer_delete_rows n db) = (if n < 0 then [] else drop (nat n) (view db))"
    "capacity (row_buf (buffer_delete_rows n db)) = capacity (row_buf db)"
    "received (row_buf (buffer_delete_rows n db)) = received (row_buf db)"
proof -
  define k where "k = (if n < 0 \<or> int (buffer_count (row_buf db)) < n then buffer_count (row_buf db) else nat n)"
  have k: "k \<le> length (contents (row_buf db))" "buffer_delete_rows n db = delete_loop k db"
    using assms by (auto simp: k_def buffer_delete_rows_def Let_def db_ok_def length_contents)
  have "drop k (view db) = (if n < 0 then [] else drop (nat n) (view db))"
    using length_view [OF assms] by (auto simp: k_def)
  then show "db_ok H (buffer_delete_rows n db)"
    "view (buffer_delete_rows n db) = (if n < 0 then [] else drop (nat n) (view db))"
    "capacity (row_buf (buffer_delete_rows n db)) = capacity (row_buf db)"
    "received (row_buf (buffer_delete_rows n db)) = received (row_buf db)"
    using delete_loop_view [OF assms k(1)] delete_loop_queue [OF _ k(1)] assms by (simp_all add: k(2) db_ok_def)
qed

lemma db_full_iff: "db_ok H db \<Longrightarrow> buffer_is_full (row_buf db) \<longleftrightarrow> length (view db) = capacity (row_buf db)"
  using buffer_is_full_iff [of "row_buf db"] by (simp add: db_ok_def view_def)

lemma view_bounded: "db_ok H db \<Longrightarrow> length (view db) \<le> capacity (row_buf db)"
proof -
  assume ok: "db_ok H db"
  then have "tail (row_buf db) < capacity (row_buf db) \<or> contents (row_buf db) = []" "head (row_buf db) < capacity (row_buf db)"
    by (auto simp: db_ok_def ring_inv_def contents_def)
  with length_view [OF ok] buffer_count_ring(2) [of "row_buf db"] show ?thesis by (auto simp: view_def)
qed

interpretation rb: row_queue "db_ok (insert r H)" view "\<lambda>db. capacity (row_buf db)" "receive_row r fresh"
    "\<lambda>n. buffer_delete_rows (int n)" "\<lambda>row db. (received (row_buf db) + 1, fst row, Some (snd row))" for r H fresh
proof
  fix s a
  assume ok: "db_ok (insert r H) s"
  show "length (view s) = capacity (row_buf s) \<Longrightarrow> receive_row r fresh a s = None"
    using db_full_iff [OF ok] by (simp add: receive_row_def)
  show "\<exists>t. receive_row r fresh a s = Some t \<and> db_ok (insert r H) t \<and>
      view t = view s @ [(received (row_buf s) + 1, fst a, Some (snd a))] \<and> capacity (row_buf t) = capacity (row_buf s)"
    if "length (view s) < capacity (row_buf s)"
    using receive_row_view [OF ok, of r fresh "fst a" "snd a"] db_full_iff [OF ok] that by auto
  show "length (view s) \<le> capacity (row_buf s)" by (rule view_bounded [OF ok])
  show "db_ok (insert r H) (buffer_delete_rows (int n) s) \<and> view (buffer_delete_rows (int n) s) = drop n (view s) \<and>
      capacity (row_buf (buffer_delete_rows (int n) s)) = capacity (row_buf s)" for n
    using buffer_delete_rows_view [OF ok, of "int n"] by simp
qed

subsection \<open>Looking rows up\<close>

lemma buffer_row2idx_finds:
  assumes inv: "ring_inv buf"
  shows "buffer_row2idx buf n =
    (if received buf + 1 - length (contents buf) \<le> n \<and> n < received buf + 1 - length (contents buf) + length (contents buf)
     then Some (slot buf (n - (received buf + 1 - length (contents buf)))) else None)"
proof (cases "tail buf = capacity buf")
  case True
  then show ?thesis by (simp add: buffer_row2idx_def contents_def)
next
  case False
  have c: "tail buf < capacity buf" "head buf < capacity buf" using inv False by (auto simp: ring_inv_def)
  from buffer_count_ring(1,2) [OF c] have l: "0 < length (contents buf)" "length (contents buf) \<le> 0 + capacity buf"
    by (simp_all add: length_contents [OF inv])
  have "slot buf 0 = tail buf" using c by (simp add: slot_def)
  with row2idx_loop_finds [OF inv refl l, of n] False show ?thesis by (simp add: buffer_row2idx_def)
qed

lemma view_nth:
  assumes "db_ok H db" "k < length (view db)"
  shows "view db ! k = view_row db (the (buffer_row_address (row_buf db) (slot (row_buf db) k)))"
    "buffer_row_address (row_buf db) (slot (row_buf db) k) \<noteq> None"
    "fst (view db ! k) = received (row_buf db) + 1 - length (view db) + k"
proof -
  have inv: "ring_inv (row_buf db)" and k: "k < length (contents (row_buf db))"
    using assms by (simp_all add: db_ok_def view_def)
  obtain rs where rs: "rows (row_buf db) = Some rs" "1 < capacity (row_buf db)" using inv by (rule ring_invD) blast
  from contents_nth(1) [OF inv rs(1) k] contents_row_number [OF inv k] rs k slot_less [of "row_buf db" k]
  show "view db ! k = view_row db (the (buffer_row_address (row_buf db) (slot (row_buf db) k)))"
    "buffer_row_address (row_buf db) (slot (row_buf db) k) \<noteq> None"
    "fst (view db ! k) = received (row_buf db) + 1 - length (view db) + k"
    by (simp_all add: view_def buffer_row_address_def view_row_def)
qed

lemma view_current [simp]: "view (db \<lparr> row_buf := (row_buf db) \<lparr> current := i \<rparr> \<rparr>) = view db"
proof -
  have "contents ((row_buf db) \<lparr> current := i \<rparr>) = contents (row_buf db)"
    by (simp add: contents_def buffer_count_def slot_def)
  moreover have "view_row (db \<lparr> row_buf := b \<rparr>) r = view_row db r" for b r
    by (simp add: view_row_def split: option.split)
  ultimately show ?thesis by (simp add: view_def)
qed

lemma received_view: "db_ok H db \<Longrightarrow> length (view db) \<le> received (row_buf db)"
  by (simp add: db_ok_def ring_inv_def view_def)

lemma dbgetrow_cases:
  assumes ok: "db_ok H db"
  shows "(\<exists>k < length (view db). fst (view db ! k) = n \<and>
      buffer_row2idx (row_buf db) n = Some (slot (row_buf db) k)) \<or>
    n \<notin> fst ` set (view db) \<and> buffer_row2idx (row_buf db) n = None"
proof -
  define base where "base = received (row_buf db) + 1 - length (view db)"
  have i: "buffer_row2idx (row_buf db) n =
      (if base \<le> n \<and> n < base + length (view db) then Some (slot (row_buf db) (n - base)) else None)"
    using buffer_row2idx_finds [of "row_buf db" n] ok by (simp add: db_ok_def base_def view_def)
  have nth: "fst (view db ! k) = base + k" if "k < length (view db)" for k
    using view_nth(3) [OF ok that] by (simp add: base_def)
  show ?thesis
  proof (cases "base \<le> n \<and> n < base + length (view db)")
    case True
    then show ?thesis using i nth [of "n - base"] by (intro disjI1 exI [of _ "n - base"]) auto
  next
    case False
    have "n \<notin> fst ` set (view db)"
    proof
      assume "n \<in> fst ` set (view db)"
      then obtain k where "k < length (view db)" "n = fst (view db ! k)" by (auto simp: in_set_conv_nth)
      with nth False show False by auto
    qed
    with False i show ?thesis by auto
  qed
qed

lemma view_distinct:
  assumes "db_ok H db" shows "map fst (view db) = [received (row_buf db) + 1 - length (view db)..<received (row_buf db) + 1]"
  using assms by (simp add: db_ok_def ring_inv_def view_def view_row_def comp_def)

lemma buffer_alloc_ok:
  assumes "1 < capacity (row_buf db)"
    "\<And>a. if a \<in> H then \<exists>i. resinfos db a = Some i \<and> ref_count i = 1 else resinfos db a = None"
  shows "db_ok H (buffer_alloc db)" "view (buffer_alloc db) = []"
    "capacity (row_buf (buffer_alloc db)) = capacity (row_buf db)"
proof -
  have n: "refs H (replicate n empty_row) a = (if a \<in> H then 1 else 0)" for n a
    by (simp add: refs_def empty_row_def count_eq_zero_iff)
  have "ring_inv (row_buf (buffer_alloc db))" "contents (row_buf (buffer_alloc db)) = []"
    using assms(1) by (auto simp: buffer_alloc_def buffer_reset_def Let_def intro!: ring_inv_emptyI)
  moreover have "refs_ok H (buffer_alloc db)"
  proof -
    have "if refs H (replicate n empty_row) a = 0 then resinfos db a = None
        else \<exists>i. resinfos db a = Some i \<and> ref_count i = refs H (replicate n empty_row) a" for a n
      using assms(2) [of a] n [of n a] by (cases "a \<in> H") simp_all
    then show ?thesis by (simp add: refs_ok_def buffer_alloc_def buffer_reset_def Let_def)
  qed
  ultimately show "db_ok H (buffer_alloc db)" "view (buffer_alloc db) = []" by (simp_all add: db_ok_def view_def)
  show "capacity (row_buf (buffer_alloc db)) = capacity (row_buf db)"
    by (simp add: buffer_alloc_def buffer_reset_def Let_def)
qed

subsection \<open>Properties\<close>

text \<open>C5: the row buffer is a bounded queue of rows with their data: a row that arrives is appended with the
  next row number, and the data of the rows before it stays what it was although the reader
  reuses the current row; a full buffer refuses the row. No result information in use is freed.\<close>

theorem receive_row_appends:
  assumes "db_ok (insert r H) db"
  shows "if length (view db) = capacity (row_buf db) then receive_row r fresh row db = None
    else \<exists>db'. receive_row r fresh row db = Some db' \<and> db_ok (insert r H) db' \<and>
      view db' = view db @ [(received (row_buf db) + 1, fst row, Some (snd row))]"
proof (cases "length (view db) = capacity (row_buf db)")
  case True
  with rb.add_full [OF assms, of fresh row] show ?thesis by simp
next
  case False
  with rb.bounded [OF assms] have "length (view db) < capacity (row_buf db)" by simp
  from rb.add_ok [OF assms this, of fresh row] False show ?thesis by auto
qed

text \<open>C31: \<open>dbclrbuf\<close> deletes the \<open>n\<close> oldest rows of an active buffer but always keeps the newest one,
  and leaves the other rows, their numbers and their data alone.\<close>

theorem dbclrbuf_drops_oldest:
  assumes "db_ok H db" "buffering db"
  shows "db_ok H (dbclrbuf n db) \<and>
    view (dbclrbuf n db) = (if n \<le> 0 then view db else drop (min (nat n) (length (view db) - 1)) (view db))"
proof (cases "n \<le> 0")
  case True
  with assms show ?thesis by (simp add: dbclrbuf_def)
next
  case False
  note d = buffer_delete_rows_view [OF assms(1)]
  have "dbclrbuf n db = buffer_delete_rows (if int (length (view db)) \<le> n then int (length (view db)) - 1 else n) db"
    using False assms(2) length_view [OF assms(1)] by (simp add: dbclrbuf_def Let_def)
  with False d show ?thesis by (auto simp: min_def nat_diff_distrib' split: if_splits)
qed

text \<open>\<open>dbgetrow\<close> finds a row by its number exactly when it is in the buffer, gives that row with its
  data and leaves the buffered rows alone.\<close>

theorem dbgetrow_finds_row:
  assumes "db_ok H db"
  shows "(case fst (dbgetrow n db) of
       None \<Rightarrow> n \<notin> fst ` set (view db)
     | Some r \<Rightarrow> view_row db r \<in> set (view db) \<and> row_number r = n) \<and>
    view (snd (dbgetrow n db)) = view db"
proof (rule disjE [OF dbgetrow_cases [OF assms, of n]])
  assume "\<exists>k < length (view db). fst (view db ! k) = n \<and> buffer_row2idx (row_buf db) n = Some (slot (row_buf db) k)"
  then obtain k where k: "k < length (view db)" "fst (view db ! k) = n" "buffer_row2idx (row_buf db) n = Some (slot (row_buf db) k)"
    by blast
  obtain r where r: "buffer_row_address (row_buf db) (slot (row_buf db) k) = Some r"
    using view_nth(2) [OF assms k(1)] by blast
  with view_nth(1) [OF assms k(1)] have v: "view db ! k = view_row db r" by simp
  with k(1) have "view_row db r \<in> set (view db)" by (metis nth_mem)
  moreover have "row_number r = n" using v k(2) by (simp add: view_row_def)
  ultimately show ?thesis using k(3) r by (simp add: dbgetrow_def bump_current_def)
qed (simp add: dbgetrow_def)

text \<open>The first and the last row number. \<open>dbfirstrow\<close> gives the number of the oldest row and follows a
  null pointer on an empty buffer; \<open>dblastrow\<close> gives the number of the newest row except when the
  buffer is full, where it gives the number of the oldest.\<close>

theorem dbfirstrow_dblastrow:
  assumes "db_ok H db"
  shows "dbfirstrow db = (if view db = [] then None else Some (fst (hd (view db)))) \<and>
    dblastrow db =
      (if view db = [] then Some 0
       else if length (view db) = capacity (row_buf db) then Some (fst (hd (view db)))
       else Some (fst (last (view db))))"
proof -
  have inv: "ring_inv (row_buf db)" using assms by (simp add: db_ok_def)
  obtain rs where rs: "rows (row_buf db) = Some rs" "length rs = capacity (row_buf db)" "1 < capacity (row_buf db)"
    "head (row_buf db) < capacity (row_buf db)"
    "\<And>i. i < capacity (row_buf db) \<Longrightarrow> (\<And>k. k < length (contents (row_buf db)) \<Longrightarrow> slot (row_buf db) k \<noteq> i) \<Longrightarrow> rs ! i = empty_row"
    using inv by (rule ring_invD) blast
  show ?thesis
  proof (cases "view db = []")
    case True
    then have c: "contents (row_buf db) = []" by (simp add: view_def)
    have t: "tail (row_buf db) = capacity (row_buf db)" "head (row_buf db) = 0"
      using inv c buffer_count_ring(1) [of "row_buf db"] length_contents [OF inv] by (auto simp: ring_inv_def)
    then have "rs ! (capacity (row_buf db) - 1) = empty_row" using rs c by auto
    with True t rs show ?thesis
      by (simp add: dbfirstrow_def dblastrow_def Let_def buffer_idx2row_def buffer_row_address_def empty_row_def)
  next
    case False
    then obtain m where m: "length (view db) = Suc m" by (cases "view db") auto
    have num: "fst (view db ! k) = the (buffer_idx2row (row_buf db) (slot (row_buf db) k))"
      "buffer_idx2row (row_buf db) (slot (row_buf db) k) \<noteq> None" if "k < length (view db)" for k
      using view_nth(1,2) [OF assms that] by (auto simp: buffer_idx2row_def view_row_def)
    have t: "tail (row_buf db) < capacity (row_buf db)"
      using contents_nth(2) [OF inv rs(1), of m] m by (simp add: view_def)
    have s: "slot (row_buf db) 0 = tail (row_buf db)" using t by (simp add: slot_def)
    have full: "length (view db) = capacity (row_buf db) \<longleftrightarrow> head (row_buf db) = tail (row_buf db)"
      using length_view [OF assms] t rs(4) by (auto simp: buffer_count_def)
    have l: "(if head (row_buf db) = 0 then capacity (row_buf db) - 1 else head (row_buf db) - 1) = slot (row_buf db) m"
      using last_slot [OF inv, of m] m by (simp add: view_def)
    have "fst (hd (view db)) = fst (view db ! 0)" "fst (last (view db)) = fst (view db ! m)"
      using False m by (simp_all add: hd_conv_nth last_conv_nth)
    then show ?thesis unfolding dbfirstrow_def dblastrow_def Let_def l full using False num [of 0] num [of m] m s by auto
  qed
qed

text \<open>C32: an over-strict assertion. After \<open>dbsetrow\<close> has made the oldest row current, \<open>dbnextrow\<close> aborts on
  the assertion \<open>tail < current\<close> of \<open>buffer_current_index\<close> whenever the ring has not wrapped.\<close>

theorem dbsetrow_oldest_asserts:
  assumes "db_ok H db" "tail (row_buf db) < head (row_buf db)" "n = fst (hd (view db))"
  shows "fst (dbsetrow n db) \<and> buffer_current_index (row_buf (snd (dbsetrow n db))) = Inl ()"
proof -
  have inv: "ring_inv (row_buf db)" using assms(1) by (simp add: db_ok_def)
  have t: "tail (row_buf db) < capacity (row_buf db)" "1 < capacity (row_buf db)"
    using inv assms(2) by (auto simp: ring_inv_def)
  have l: "0 < length (view db)" using length_view [OF assms(1)] assms(2) by (simp add: buffer_count_def)
  then have "view db \<noteq> []" by auto
  with assms(3) have n: "n = fst (view db ! 0)" by (simp add: hd_conv_nth)
  have "buffer_row2idx (row_buf db) n = Some (slot (row_buf db) 0)"
    using buffer_row2idx_finds [OF inv, of n] view_nth(3) [OF assms(1) l] l received_view [OF assms(1)]
    by (simp add: n view_def)
  with t assms(2) show ?thesis by (simp add: dbsetrow_def buffer_current_index_def slot_def)
qed

subsection \<open>Examples\<close>

definition demo_start :: dbprocess where
  "demo_start = buffer_alloc
     \<lparr> row_buf = \<lparr> received = 0, head = 0, tail = 0, current = 0, capacity = 3, rows = None \<rparr>,
       resinfos = [0 \<mapsto> \<lparr> current_row = [], col_sizes = [], ref_count = 1 \<rparr>], buffering = True \<rparr>"

definition demo_rows :: dbprocess where
  "demo_rows = the (receive_row 0 [] ([2], [1]) (the (receive_row 0 [] ([1], [1]) demo_start)))"

lemma demo_start_ok: "db_ok {0} demo_start" "view demo_start = []" "capacity (row_buf demo_start) = 3"
  unfolding demo_start_def by ((rule buffer_alloc_ok [where H = "{0}"]; simp)+) (simp add: buffer_alloc_def buffer_reset_def)

lemma demo_rows_ok: "db_ok {0} demo_rows" "view demo_rows = [(1, [1], Some [1]), (2, [2], Some [1])]"
proof -
  obtain a where a: "receive_row 0 [] ([1], [1]) demo_start = Some a" "db_ok {0} a" "capacity (row_buf a) = 3"
    "length (view a) = 1"
    using rb.add_ok [of 0 "{}" demo_start "[]" "([1], [1])"] demo_start_ok by auto
  obtain b where "receive_row 0 [] ([2], [1]) a = Some b" "db_ok {0} b"
    using rb.add_ok [of 0 "{}" a "[]" "([2], [1])"] a by auto
  with a show "db_ok {0} demo_rows" by (simp add: demo_rows_def)
  show "view demo_rows = [(1, [1], Some [1]), (2, [2], Some [1])]" by code_simp
qed

theorem receive_row_appends_witness:
  "\<exists>db. receive_row 0 [] ([3], [1]) demo_rows = Some db \<and>
     view db = [(1, [1], Some [1]), (2, [2], Some [1]), (3, [3], Some [1])]"
proof -
  have "capacity (row_buf demo_rows) = 3" "received (row_buf demo_rows) = 2" by code_simp+
  with receive_row_appends [of 0 "{}" demo_rows "[]" "([3], [1])"] demo_rows_ok show ?thesis by auto
qed

theorem dbclrbuf_drops_oldest_witness: "view (dbclrbuf 5 demo_rows) = [(2, [2], Some [1])]"
proof -
  have "buffering demo_rows" by code_simp
  with dbclrbuf_drops_oldest [of "{0}" demo_rows 5] demo_rows_ok show ?thesis by simp
qed

theorem dbgetrow_finds_row_witness: "\<exists>r. fst (dbgetrow 2 demo_rows) = Some r \<and> row_number r = 2"
  using dbgetrow_finds_row [of "{0}" demo_rows 2] demo_rows_ok by (auto split: option.splits)

theorem dbfirstrow_dblastrow_witness: "dbfirstrow demo_rows = Some 1 \<and> dblastrow demo_rows = Some 2"
proof -
  have "capacity (row_buf demo_rows) = 3" by code_simp
  with dbfirstrow_dblastrow [of "{0}" demo_rows] demo_rows_ok show ?thesis by simp
qed

theorem dbsetrow_oldest_asserts_witness: "buffer_current_index (row_buf (snd (dbsetrow 1 demo_rows))) = Inl ()"
proof -
  have "tail (row_buf demo_rows) < head (row_buf demo_rows)" by code_simp
  with dbsetrow_oldest_asserts [of "{0}" demo_rows 1] demo_rows_ok show ?thesis by simp
qed

end
