(* ===== verification/Date_Parse.thy ===== *)
theory Date_Parse
  imports Calendar Numeric
begin

text \<open>
  Reading dates and times from text: \<open>string_to_datetime\<close> of \<open>src/tds/convert.c\<close> with its helpers. Tokens are split at
  blanks and commas and drive a machine with three states. Characters are those of the C locale. \<open>atoi\<close> is only called on
  texts that begin with a digit; a number too large for an \<open>int\<close>, where \<open>atoi\<close> is undefined, is kept as it is.
\<close>

subsection \<open>Characters and tokens\<close>

record tds_time =
  tm_year :: int
  tm_mon :: int
  tm_mday :: int
  tm_hour :: int
  tm_min :: int
  tm_sec :: int
  tm_ns :: int

definition is_alpha :: "char \<Rightarrow> bool" where
  "is_alpha c \<longleftrightarrow> (let n = of_char c :: nat in 65 \<le> n \<and> n \<le> 90 \<or> 97 \<le> n \<and> n \<le> 122)"

definition to_lower :: "char \<Rightarrow> char" where
  "to_lower c = (if 65 \<le> (of_char c :: nat) \<and> (of_char c :: nat) \<le> 90 then char_of ((of_char c :: nat) + 32) else c)"

definition strcaseeq :: "string \<Rightarrow> string \<Rightarrow> bool" where
  "strcaseeq a b \<longleftrightarrow> map to_lower a = map to_lower b"

definition atoi :: "string \<Rightarrow> int" where
  "atoi s = int (read_nat (takeWhile is_digit s))"

definition digit_of :: "char \<Rightarrow> int" where
  "digit_of c = int (of_char c) - 48"

definition is_sep :: "char \<Rightarrow> bool" where
  "is_sep c \<longleftrightarrow> c = CHR '' '' \<or> c = CHR '',''"

text \<open>What the calls of \<open>strtok_r\<close> return.\<close>

function tokens :: "string \<Rightarrow> string list" where
  "tokens s =
     (let s = dropWhile is_sep s
      in if s = [] then [] else takeWhile (\<lambda>c. \<not> is_sep c) s # tokens (tl (dropWhile (\<lambda>c. \<not> is_sep c) s)))"
  by pat_completeness auto
termination
proof (relation "measure length")
  fix s x assume x: "x = dropWhile is_sep s" "x \<noteq> []"
  have "length (tl (dropWhile (\<lambda>c. \<not> is_sep c) x)) \<le> length x - 1"
    using length_dropWhile_le [of "\<lambda>c. \<not> is_sep c" x] by simp
  also have "\<dots> < length x" using x(2) by simp
  also have "\<dots> \<le> length s" unfolding x(1) by (rule length_dropWhile_le)
  finally show "(tl (dropWhile (\<lambda>c. \<not> is_sep c) x), s) \<in> measure length" by simp
qed simp

declare tokens.simps [simp del]

subsection \<open>Tests on a token\<close>

definition is_alphabetic :: "string \<Rightarrow> bool" where
  "is_alphabetic s \<longleftrightarrow> list_all is_alpha s"

definition is_numeric :: "string \<Rightarrow> bool" where
  "is_numeric s \<longleftrightarrow> list_all is_digit s"

definition is_ampm :: "string \<Rightarrow> bool" where
  "is_ampm s \<longleftrightarrow> strcaseeq s ''am'' \<or> strcaseeq s ''pm''"

definition is_timeformat :: "string \<Rightarrow> bool" where
  "is_timeformat datestr \<longleftrightarrow>
     (let s = dropWhile (\<lambda>c. is_digit c \<or> c = CHR '':'' \<or> c = CHR ''.'') datestr
      in s = [] \<or> is_ampm s)"

definition count_char :: "char \<Rightarrow> string \<Rightarrow> nat" where
  "count_char c s = length (filter ((=) c) s)"

definition is_numeric_dateformat :: "string \<Rightarrow> bool" where
  "is_numeric_dateformat t \<longleftrightarrow>
     list_all (\<lambda>c. is_digit c \<or> c = CHR ''/'' \<or> c = CHR ''-'' \<or> c = CHR ''.'') t \<and>
     (let slashes = count_char (CHR ''/'') t;
          hyphens = count_char (CHR ''-'') t;
          periods = count_char (CHR ''.'') t;
          digits = length t - slashes - hyphens - periods
      in hyphens + slashes + periods = 2 \<and> hyphens \<noteq> 1 \<and> slashes \<noteq> 1 \<and> periods \<noteq> 1 \<and> 4 \<le> digits \<and> digits \<le> 8)"

definition month_names :: "string list" where
  "month_names = [''jan'', ''feb'', ''mar'', ''apr'', ''may'', ''jun'', ''jul'', ''aug'', ''sep'', ''oct'', ''nov'', ''dec'']"

definition long_month_names :: "(string \<times> int) list" where
  "long_month_names =
     [(''january'', 0), (''february'', 1), (''march'', 2), (''april'', 3), (''june'', 5), (''july'', 6), (''august'', 7),
      (''september'', 8), (''october'', 9), (''november'', 10), (''december'', 11)]"

text \<open>The number of a month, \<open>None\<close> for -1.\<close>

definition month_number :: "string \<Rightarrow> int option" where
  "month_number datestr =
     map_option snd (find (\<lambda>(name, _). strcaseeq datestr name)
       (if length datestr = 3 then zip month_names [0..11] else long_month_names))"

definition is_monthname :: "string \<Rightarrow> bool" where
  "is_monthname s \<longleftrightarrow> month_number s \<noteq> None"

text \<open>\<open>d2\<close> is two digits, \<open>None\<close> when they are not there, otherwise the rest.\<close>

definition two_digits :: "string \<Rightarrow> string option" where
  "two_digits s = (if is_digit (deref s) \<and> is_digit (deref (drop 1 s)) then Some (drop 2 s) else None)"

definition ends_in_year :: "string \<Rightarrow> bool" where
  "ends_in_year s \<longleftrightarrow> (case two_digits s of None \<Rightarrow> False | Some r \<Rightarrow> r = [] \<or> two_digits r \<noteq> None)"

definition is_dd_mon_yyyy :: "string \<Rightarrow> bool" where
  "is_dd_mon_yyyy t \<longleftrightarrow>
     (case two_digits t of
        None \<Rightarrow> False
      | Some s \<Rightarrow>
          if deref s = CHR ''-''
          then is_monthname (take 3 (drop 1 s)) \<and> deref (drop 4 s) = CHR ''-'' \<and> ends_in_year (drop 5 s)
          else is_monthname (take 3 s) \<and> ends_in_year (drop 3 s))"

subsection \<open>Storing what a token says\<close>

definition store_year :: "int \<Rightarrow> tds_time \<Rightarrow> bool \<times> tds_time" where
  "store_year y t =
     (if y < 0 then (False, t)
      else if y < 100 then (True, t \<lparr> tm_year := (if 49 < y then y else 100 + y) \<rparr>)
      else if y < 1753 then (False, t)
      else if y \<le> 9999 then (True, t \<lparr> tm_year := y - 1900 \<rparr>)
      else (False, t))"

definition store_mday :: "string \<Rightarrow> tds_time \<Rightarrow> tds_time" where
  "store_mday datestr t =
     (let mday = atoi datestr in if 0 < mday \<and> mday < 32 then t \<lparr> tm_mday := mday \<rparr> else t)"

definition store_monthname :: "string \<Rightarrow> tds_time \<Rightarrow> tds_time option" where
  "store_monthname datestr t = map_option (\<lambda>mon. t \<lparr> tm_mon := mon \<rparr>) (month_number datestr)"

text \<open>Month, day and year, as the code stores them one after the other.\<close>

definition store_mdy :: "int \<Rightarrow> int \<Rightarrow> int \<Rightarrow> tds_time \<Rightarrow> bool \<times> tds_time" where
  "store_mdy mon mday y t =
     (if 0 < mon \<and> mon < 13
      then let t = t \<lparr> tm_mon := mon - 1 \<rparr>
           in if 0 < mday \<and> mday < 32 then store_year y (t \<lparr> tm_mday := mday \<rparr>) else (False, t)
      else (False, t))"

text \<open>The loop of \<open>store_numeric_date\<close>: the positions of month, day and year, the current position, the last character and
  the three numbers.\<close>

fun numeric_date_loop :: "nat \<times> nat \<times> nat \<Rightarrow> nat \<Rightarrow> char \<Rightarrow> int \<times> int \<times> int \<Rightarrow> string \<Rightarrow> int \<times> int \<times> int" where
  "numeric_date_loop pos state last_char acc [] = acc"
| "numeric_date_loop (pm, pd, py) state last_char (mon, mday, y) (c # s) =
     (if \<not> is_digit c \<and> is_digit last_char
      then numeric_date_loop (pm, pd, py) (state + 1) c (mon, mday, y) s
      else numeric_date_loop (pm, pd, py) state c
             (if state = pm then mon * 10 + digit_of c else mon, if state = pd then mday * 10 + digit_of c else mday,
              if state = py then y * 10 + digit_of c else y) s)"

definition store_numeric_date :: "string \<Rightarrow> tds_time \<Rightarrow> bool \<times> tds_time" where
  "store_numeric_date datestr t =
     (case numeric_date_loop
             (if length datestr = 10 \<and> datestr ! 4 = CHR ''-'' \<and> datestr ! 7 = CHR ''-'' then (1, 2, 0) else (0, 1, 2))
             0 NUL (0, 0, 0) datestr of
        (mon, mday, y) \<Rightarrow> store_mdy mon mday y t)"

definition store_yymmdd_date :: "string \<Rightarrow> tds_time \<Rightarrow> bool \<times> tds_time" where
  "store_yymmdd_date datestr t =
     (let wholedate = atoi datestr;
          y = wholedate div 10000;
          mon = (wholedate - y * 10000) div 100;
          mday = wholedate - y * 10000 - mon * 100
      in store_mdy mon mday y t)"

definition store_dd_mon_yyy_date :: "string \<Rightarrow> tds_time \<Rightarrow> bool \<times> tds_time" where
  "store_dd_mon_yyy_date datestr t =
     (let mday = atoi (take 2 datestr);
          at = (if datestr ! 2 = CHR ''-'' then 3 else 2)
      in if 0 < mday \<and> mday < 32
         then (let t = t \<lparr> tm_mday := mday \<rparr>
               in case store_monthname (take 3 (drop at datestr)) t of
                    None \<Rightarrow> (False, t)
                  | Some t \<Rightarrow> store_year (atoi (drop (if datestr ! 2 = CHR ''-'' then 7 else 5) datestr)) t)
         else (False, t))"

text \<open>\<open>unsigned\<close> arithmetic of the time parser.\<close>

definition add_digit :: "nat \<Rightarrow> char \<Rightarrow> nat" where
  "add_digit n c = nat ((int n * 10 + digit_of c) mod 2 ^ 32)"

record time_scan =
  ts_state :: nat
  last_sep :: char
  hours :: nat
  minutes :: nat
  seconds :: nat
  nanosecs :: nat
  ns_div :: nat
  ts_ok :: bool

definition scan_time_char :: "char \<Rightarrow> time_scan \<Rightarrow> time_scan" where
  "scan_time_char c a =
     (if c = CHR '':'' \<or> c = CHR ''.'' then a \<lparr> last_sep := c, ts_state := ts_state a + 1 \<rparr>
      else
        let a = a \<lparr> ts_ok := ts_ok a \<and> is_digit c \<rparr>
        in if ts_state a = 0 then a \<lparr> hours := add_digit (hours a) c \<rparr>
           else if ts_state a = 1 then a \<lparr> minutes := add_digit (minutes a) c \<rparr>
           else if ts_state a = 2 then a \<lparr> seconds := add_digit (seconds a) c \<rparr>
           else if ts_state a = 3 \<and> ns_div a < 1000000000
           then a \<lparr> nanosecs := add_digit (nanosecs a) c, ns_div := ns_div a * 10 \<rparr>
           else a)"

definition time_stop :: "char \<Rightarrow> bool" where
  "time_stop c \<longleftrightarrow> c \<in> set ''apmAPM''"

text \<open>The hour of a 12-hour clock.\<close>

definition hour_am :: "nat \<Rightarrow> nat" where
  "hour_am h = (if h = 12 then 0 else h)"

definition hour_pm :: "nat \<Rightarrow> nat" where
  "hour_pm h = (if 0 < h \<and> h < 12 then h + 12 else h)"

definition store_time :: "string \<Rightarrow> tds_time \<Rightarrow> bool \<times> tds_time" where
  "store_time datestr t =
     (let a = fold scan_time_char (takeWhile (\<lambda>c. \<not> time_stop c) datestr)
                \<lparr> ts_state = 0, last_sep = NUL, hours = 0, minutes = 0, seconds = 0, nanosecs = 0, ns_div = 1, ts_ok = True \<rparr>;
          s = dropWhile (\<lambda>c. \<not> time_stop c) datestr;
          (ok, t) =
            (if s \<noteq> []
             then if strcaseeq s ''am'' then (ts_ok a, t \<lparr> tm_hour := int (hour_am (hours a)) \<rparr>)
                  else if strcaseeq s ''pm'' then (ts_ok a \<and> hours a \<noteq> 0, t \<lparr> tm_hour := int (hour_pm (hours a)) \<rparr>)
                  else (ts_ok a, t)
             else if hours a < 24 then (ts_ok a, t \<lparr> tm_hour := int (hours a) \<rparr>) else (False, t));
          (ok, t) = (if minutes a < 60 then (ok, t \<lparr> tm_min := int (minutes a) \<rparr>) else (False, t));
          (ok, t) = (if seconds a < 60 then (ok, t \<lparr> tm_sec := int (seconds a) \<rparr>) else (False, t))
      in if nanosecs a \<noteq> 0
         then if nanosecs a < ns_div a \<and> last_sep a = CHR ''.''
              then (ok, t \<lparr> tm_ns := int (nanosecs a * (1000000000 div ns_div a)) \<rparr>)
              else if nanosecs a < 1000 then (ok, t \<lparr> tm_ns := int (nanosecs a * 1000000) \<rparr>)
              else (False, t)
         else (ok, t))"

definition store_hour :: "string \<Rightarrow> string \<Rightarrow> tds_time \<Rightarrow> tds_time" where
  "store_hour hr ampm t =
     (let h = nat (atoi hr)
      in if h < 24
         then if strcaseeq ampm ''am'' then t \<lparr> tm_hour := int (hour_am h) \<rparr>
              else if strcaseeq ampm ''pm'' then t \<lparr> tm_hour := int (hour_pm h) \<rparr>
              else t
         else t)"

subsection \<open>\<open>string_to_datetime\<close>\<close>

datatype dt_state = GOING_IN_BLIND | PUT_NUMERIC_IN_CONTEXT | DOING_ALPHABETIC_DATE

record dt_machine =
  current_state :: dt_state
  last_token :: string
  monthdone :: nat
  yeardone :: nat
  mdaydone :: nat
  dt_t :: tds_time

text \<open>The next state inside of an alphabetic date.\<close>

definition all_done :: "dt_machine \<Rightarrow> dt_machine" where
  "all_done a =
     a \<lparr> current_state :=
           (if monthdone a \<noteq> 0 \<and> yeardone a \<noteq> 0 \<and> mdaydone a \<noteq> 0 then GOING_IN_BLIND else DOING_ALPHABETIC_DATE) \<rparr>"

text \<open>One token; \<open>None\<close> is \<open>string_garbled\<close>. The result of \<open>store_year\<close> and of most other stores is not looked at.\<close>

definition blind_step :: "string \<Rightarrow> dt_machine \<Rightarrow> dt_machine option" where
  "blind_step tok a =
     (if is_alphabetic tok
      then map_option (\<lambda>t. a \<lparr> dt_t := t, monthdone := monthdone a + 1, current_state := DOING_ALPHABETIC_DATE \<rparr>)
             (store_monthname tok (dt_t a))
      else if is_numeric tok
      then if length tok = 4
           then Some (a \<lparr> dt_t := snd (store_year (atoi tok) (dt_t a)), yeardone := yeardone a + 1,
                          current_state := DOING_ALPHABETIC_DATE \<rparr>)
           else if length tok = 2 \<or> length tok = 1
           then Some (a \<lparr> last_token := tok, current_state := PUT_NUMERIC_IN_CONTEXT \<rparr>)
           else if length tok = 6 \<or> length tok = 8
           then case store_yymmdd_date tok (dt_t a) of
                  (ok, t) \<Rightarrow> if ok then Some (a \<lparr> dt_t := t \<rparr>) else None
           else None
      else if is_numeric_dateformat tok then Some (a \<lparr> dt_t := snd (store_numeric_date tok (dt_t a)) \<rparr>)
      else if is_dd_mon_yyyy tok then Some (a \<lparr> dt_t := snd (store_dd_mon_yyy_date tok (dt_t a)) \<rparr>)
      else if is_timeformat tok then Some (a \<lparr> dt_t := snd (store_time tok (dt_t a)) \<rparr>)
      else None)"

definition alphabetic_step :: "string \<Rightarrow> dt_machine \<Rightarrow> dt_machine option" where
  "alphabetic_step tok a =
     (if is_alphabetic tok
      then if monthdone a \<noteq> 0 then None
           else map_option (\<lambda>t. all_done (a \<lparr> dt_t := t, monthdone := monthdone a + 1 \<rparr>)) (store_monthname tok (dt_t a))
      else if is_numeric tok
      then if mdaydone a \<noteq> 0 \<and> yeardone a \<noteq> 0 then None
           else if length tok = 4
           then Some (all_done (a \<lparr> dt_t := snd (store_year (atoi tok) (dt_t a)), yeardone := yeardone a + 1 \<rparr>))
           else if length tok = 2 \<or> length tok = 1
           then if mdaydone a = 0
                then Some (all_done (a \<lparr> dt_t := store_mday tok (dt_t a), mdaydone := mdaydone a + 1 \<rparr>))
                else Some (all_done (a \<lparr> dt_t := snd (store_year (atoi tok) (dt_t a)), yeardone := yeardone a + 1 \<rparr>))
           else None
      else None)"

definition context_step :: "string \<Rightarrow> dt_machine \<Rightarrow> dt_machine option" where
  "context_step tok a =
     (if is_alphabetic tok
      then case store_monthname tok (dt_t a) of
             Some t \<Rightarrow>
               Some (all_done (a \<lparr> dt_t := store_mday (last_token a) t, mdaydone := mdaydone a + 1, monthdone := monthdone a + 1 \<rparr>))
           | None \<Rightarrow>
               if is_ampm tok then Some (a \<lparr> dt_t := store_hour (last_token a) tok (dt_t a), current_state := GOING_IN_BLIND \<rparr>)
               else None
      else if is_numeric tok
      then if length tok = 4 \<or> length tok = 2
           then Some (all_done (a \<lparr> dt_t := snd (store_year (atoi tok) (store_mday (last_token a) (dt_t a))),
                                    mdaydone := mdaydone a + 1, yeardone := yeardone a + 1 \<rparr>))
           else None
      else None)"

definition token_step :: "string \<Rightarrow> dt_machine \<Rightarrow> dt_machine option" where
  "token_step tok a =
     (case current_state a of
        GOING_IN_BLIND \<Rightarrow> blind_step tok a
      | DOING_ALPHABETIC_DATE \<Rightarrow> alphabetic_step tok a
      | PUT_NUMERIC_IN_CONTEXT \<Rightarrow> context_step tok a)"

fun token_loop :: "string list \<Rightarrow> dt_machine \<Rightarrow> dt_machine option" where
  "token_loop [] a = Some a"
| "token_loop (tok # toks) a = (case token_step tok a of None \<Rightarrow> None | Some a \<Rightarrow> token_loop toks a)"

definition dt_start :: dt_machine where
  "dt_start =
     \<lparr> current_state = GOING_IN_BLIND, last_token = [], monthdone = 0, yeardone = 0, mdaydone = 0,
       dt_t = \<lparr> tm_year = 0, tm_mon = 0, tm_mday = 1, tm_hour = 0, tm_min = 0, tm_sec = 0, tm_ns = 0 \<rparr> \<rparr>"

text \<open>The date and time of a text; \<open>instr\<close> is copied up to its first null character.\<close>

definition parse_datetime :: "string \<Rightarrow> tds_time option" where
  "parse_datetime instr = map_option dt_t (token_loop (tokens (takeWhile (\<lambda>c. c \<noteq> NUL) instr)) dt_start)"

definition dt_days_of :: "tds_time \<Rightarrow> int" where
  "dt_days_of t =
     (let i = quot (tm_mon t - 13) 12
      in quot (1461 * (tm_year t + 1900 + i)) 4 + quot (367 * (tm_mon t - 1 - 12 * i)) 12 -
         quot (3 * quot (tm_year t + 2000 + i) 100) 4 + tm_mday t - 693932)"

end
