(* ===== verification/Convert_Dates.thy ===== *)
theory Convert_Dates
  imports Convert Date_Parse
begin

text \<open>
  The conversions of \<open>src/tds/convert.c\<close> that deal with dates: the results of \<open>string_to_datetime\<close>, the conversions between
  the date types, and \<open>tds_strftime\<close>. Integers have their width; an overflow of a signed 32-bit sum wraps around.
\<close>

subsection \<open>From text\<close>

definition time_of :: "tds_time \<Rightarrow> 32 word" where
  "time_of t = word_of_int (tm_hour t * 60 + tm_min t)"

definition thousandths_300 :: "tds_time \<Rightarrow> 32 word" where
  "thousandths_300 t = (word_of_int (tm_ns t) div 1000000 * 300 + 150) div 1000"

definition big_day :: "64 word" where
  "big_day = 86400 * 1000000"

definition datetime_result :: "tds_time \<Rightarrow> server_type \<Rightarrow> nat \<times> cr" where
  "datetime_result t desttype =
     (let dt_days = word_of_int (dt_days_of t) :: 32 word;
          dt_time = time_of t;
          secs = dt_time * 60 + word_of_int (tm_sec t);
          ns = word_of_int (tm_ns t) :: 32 word
      in if desttype = SYBDATE then (4, CR_date dt_days)
         else if desttype = SYBDATETIME4 then (4, CR_dt4 (ucast dt_days) (ucast dt_time))
         else if desttype = SYBDATETIME then (8, CR_dt dt_days (secs * 300 + thousandths_300 t))
         else if desttype = SYBTIME then (4, CR_time (secs * 300 + thousandths_300 t))
         else if desttype = SYB5BIGTIME then (8, CR_bigtime (ucast secs * 1000000 + ucast (ns div 1000)))
         else if desttype = SYB5BIGDATETIME
         then (8, CR_bigdatetime (scast (dt_days + word_of_int BIGDATETIME_BIAS) * big_day + ucast secs * 1000000 + ucast (ns div 1000)))
         else (16, CR_dta \<lparr> dta_time = ucast secs * 10000000 + ucast (ns div 100), dta_date = dt_days, offset = 0, time_prec = 7,
                            has_time = True, has_date = True, has_offset = False \<rparr>))"

definition string_to_datetime :: "conv_env \<Rightarrow> string \<Rightarrow> server_type \<Rightarrow> conv_res" where
  "string_to_datetime env instr desttype =
     (if \<not> mem_ok env then Inl TDS_CONVERT_NOMEM
      else case parse_datetime instr of
             None \<Rightarrow> Inl TDS_CONVERT_SYNTAX
           | Some t \<Rightarrow> Inr (datetime_result t desttype))"

subsection \<open>\<open>tds_strftime\<close>\<close>

definition two_digit :: "int \<Rightarrow> string" where
  "two_digit num =
     (let n = nat (if num < 1 then 1 else if 31 < num then 31 else num)
      in [if n < 10 then CHR '' '' else digit (n div 10), digit (n mod 10)])"

text \<open>The seven digits of the fraction, of which \<open>prec\<close> are taken; with a precision of 8 and 9 the terminator of \<open>buf\<close> and the
  byte behind it are copied, too.\<close>

definition fraction :: "tdsdaterec \<Rightarrow> nat \<Rightarrow> string" where
  "fraction dr prec = take prec (dec 7 (nat (decimicrosecond dr mod 2 ^ 31) mod 10 ^ 7) @ [NUL, NUL])"

text \<open>One conversion specification \<open>%d\<close>. The state is what stands before \<open>pz\<close>, in reverse, whether the fraction has been
  inserted, the precision and what is left of the format.\<close>

definition rewrite_spec :: "tdsdaterec \<Rightarrow> char \<Rightarrow> string \<Rightarrow> bool \<Rightarrow> nat \<Rightarrow> string \<Rightarrow> string \<times> bool \<times> nat \<times> string" where
  "rewrite_spec dr d before z_found prec s =
     (if d = CHR ''e'' then (rev (two_digit (day dr)) @ before, z_found, prec, s)
      else if d = CHR ''l'' then (rev (two_digit ((hour dr + 11) mod 2 ^ 32 mod 12 + 1)) @ before, z_found, prec, s)
      else if is_digit d \<and> d \<noteq> CHR ''0'' \<and> deref s = CHR ''z''
      then let prec = nat (digit_of d)
           in if z_found then (d # CHR ''%'' # before, z_found, prec, s)
              else (rev (fraction dr prec) @ before, True, prec, drop 1 s)
      else if d = CHR ''z'' \<and> \<not> z_found
      then if prec \<noteq> 0 \<or> deref before \<noteq> CHR ''.'' then (rev (fraction dr prec) @ before, True, prec, s)
           else (tl before, True, prec, s)
      else (d # CHR ''%'' # before, z_found, prec, s))"

lemma rewrite_spec_rest: "length (snd (snd (snd (rewrite_spec dr d before z p s)))) \<le> length s"
  by (simp add: rewrite_spec_def Let_def)

text \<open>The loop over \<open>our_format\<close>.\<close>

function rewrite_format :: "tdsdaterec \<Rightarrow> string \<Rightarrow> bool \<Rightarrow> nat \<Rightarrow> string \<Rightarrow> string" where
  "rewrite_format dr before z_found prec [] = rev before"
| "rewrite_format dr before z_found prec (c # s) =
     (if c \<noteq> CHR ''%'' then rewrite_format dr (c # before) z_found prec s
      else case s of
             [] \<Rightarrow> rev before @ ''%%''
           | d # s' \<Rightarrow>
               (case rewrite_spec dr d before z_found prec s' of
                  (before, z_found, prec, rest) \<Rightarrow> rewrite_format dr before z_found prec rest))"
  by pat_completeness auto
termination
  by (relation "measure (\<lambda>(_, _, _, _, s). length s)") (auto simp: split_beta rewrite_spec_rest less_Suc_eq_le
    intro: le_SucI [OF rewrite_spec_rest] dest: sym)

declare rewrite_format.simps [simp del]

definition day_names :: "string list" where
  "day_names = [''Sunday'', ''Monday'', ''Tuesday'', ''Wednesday'', ''Thursday'', ''Friday'', ''Saturday'']"

definition full_month_names :: "string list" where
  "full_month_names =
     [''January'', ''February'', ''March'', ''April'', ''May'', ''June'', ''July'', ''August'', ''September'', ''October'',
      ''November'', ''December'']"

definition name_at :: "string list \<Rightarrow> int \<Rightarrow> string" where
  "name_at names i = (if 0 \<le> i \<and> i < int (length names) then names ! nat i else ''?'')"

text \<open>A number with leading zeros.\<close>

definition pad :: "nat \<Rightarrow> int \<Rightarrow> string" where
  "pad k i = (if 0 \<le> i \<and> i < 10 ^ k then dec k (nat i) else show_int i)"

text \<open>The conversion specifications of \<open>strftime\<close> in the C locale; \<open>None\<close> is one that is left to \<open>strftime_ext\<close>.\<close>

definition strftime_spec :: "tm \<Rightarrow> char \<Rightarrow> string option" where
  "strftime_spec t c =
     (let month_day_year = pad 2 (c_mon t + 1) @ ''/'' @ pad 2 (c_mday t) @ ''/'' @ pad 2 ((c_year t + 1900) mod 100);
          hours = pad 2 (c_hour t);
          hour_min = hours @ '':'' @ pad 2 (c_min t);
          clock = hour_min @ '':'' @ pad 2 (c_sec t);
          date = show_int (c_year t + 1900) @ ''-'' @ pad 2 (c_mon t + 1) @ ''-'' @ pad 2 (c_mday t)
      in map_of
           [(CHR ''a'', take 3 (name_at day_names (c_wday t))), (CHR ''A'', name_at day_names (c_wday t)),
            (CHR ''b'', take 3 (name_at full_month_names (c_mon t))), (CHR ''h'', take 3 (name_at full_month_names (c_mon t))),
            (CHR ''B'', name_at full_month_names (c_mon t)), (CHR ''C'', pad 2 ((c_year t + 1900) div 100)),
            (CHR ''d'', pad 2 (c_mday t)), (CHR ''D'', month_day_year), (CHR ''F'', date),
            (CHR ''H'', hours), (CHR ''I'', pad 2 ((c_hour t + 11) mod 12 + 1)), (CHR ''j'', pad 3 (c_yday t + 1)),
            (CHR ''m'', pad 2 (c_mon t + 1)), (CHR ''M'', pad 2 (c_min t)), (CHR ''n'', [CHR 0x0A]),
            (CHR ''p'', if c_hour t < 12 then ''AM'' else ''PM''), (CHR ''R'', hour_min), (CHR ''S'', pad 2 (c_sec t)),
            (CHR ''t'', [CHR 0x09]), (CHR ''T'', clock), (CHR ''u'', show_int (if c_wday t = 0 then 7 else c_wday t)),
            (CHR ''w'', show_int (c_wday t)), (CHR ''y'', pad 2 ((c_year t + 1900) mod 100)),
            (CHR ''Y'', show_int (c_year t + 1900)), (CHR ''%'', ''%'')] c)"

function strftime_text :: "(string \<Rightarrow> tm \<Rightarrow> string \<times> nat) \<Rightarrow> tm \<Rightarrow> string \<Rightarrow> string" where
  "strftime_text ext t [] = []"
| "strftime_text ext t (c # s) =
     (if c \<noteq> CHR ''%'' then c # strftime_text ext t s
      else case s of
             [] \<Rightarrow> [c]
           | d # s' \<Rightarrow>
               (case strftime_spec t d of
                  Some x \<Rightarrow> x @ strftime_text ext t s'
                | None \<Rightarrow> (case ext s t of (x, k) \<Rightarrow> x @ strftime_text ext t (drop k s))))"
  by pat_completeness auto
termination
  by (relation "measure (\<lambda>(_, _, s). length s)") auto

declare strftime_text.simps [simp del]

definition c_str :: "string \<Rightarrow> string" where
  "c_str s = takeWhile (\<lambda>c. c \<noteq> NUL) s"

text \<open>The text in \<open>buf\<close>, \<open>None\<close> when \<open>malloc\<close> fails or it does not fit: then \<open>buf\<close> is undefined.\<close>

definition tds_strftime :: "conv_env \<Rightarrow> nat \<Rightarrow> string \<Rightarrow> tdsdaterec \<Rightarrow> int \<Rightarrow> string option" where
  "tds_strftime env maxsize fmt dr prec =
     (let prec = (if prec < 0 \<or> 7 < prec then 3 else prec);
          t = \<lparr> c_sec = second dr, c_min = minute dr, c_hour = hour dr, c_mday = day dr, c_mon = month dr,
                c_year = year dr - 1900, c_wday = weekday dr, c_yday = dayofyear dr \<rparr>;
          our_format = rewrite_format dr [] False (nat prec) (c_str fmt);
          text = strftime_text (strftime_ext env) t (c_str our_format)
      in if mem_ok env \<and> length text < maxsize then Some text else None)"

subsection \<open>From dates\<close>

text \<open>\<open>whole_date_string\<close>; the callers do not look at the result of \<open>tds_strftime\<close>.\<close>

definition whole_date_string :: "conv_env \<Rightarrow> string \<Rightarrow> date_info \<Rightarrow> nat \<Rightarrow> string" where
  "whole_date_string env fmt di prec =
     (case tds_datecrack di of
        None \<Rightarrow> stack_text env
      | Some when \<Rightarrow>
          (case tds_strftime env 64 fmt when (int prec) of None \<Rightarrow> stack_text env | Some s \<Rightarrow> c_str s))"

definition dta_info :: "server_type \<Rightarrow> tds_datetimeall \<Rightarrow> date_info" where
  "dta_info srctype dta =
     (if srctype = SYBMSDATE then Di_msdate dta
      else if srctype = SYBMSTIME then Di_mstime dta
      else if srctype = SYBMSDATETIME2 then Di_msdatetime2 dta
      else Di_msdatetimeoffset dta)"

definition date_types :: "server_type set" where
  "date_types = {SYBMSDATETIMEOFFSET, SYBMSDATE, SYBMSTIME, SYBMSDATETIME2}"

definition tds_convert_datetimeall :: "conv_env \<Rightarrow> server_type \<Rightarrow> tds_datetimeall \<Rightarrow> server_type \<Rightarrow> conv_in \<Rightarrow> conv_res" where
  "tds_convert_datetimeall env srctype dta desttype inp =
     (if desttype = TDS_CONVERT_CHAR \<or> desttype \<in> all_char
      then let fmt = (case (if srctype = SYBMSDATE then date_fmt env else if srctype = SYBMSTIME then time_fmt env else None) of
                        None \<Rightarrow> datetime_fmt env
                      | Some f \<Rightarrow> f)
           in string_to_result env desttype (whole_date_string env fmt (dta_info srctype dta) (time_prec dta)) inp
      else if desttype = SYBDATETIME then Inr (8, CR_dt (dta_date dta) (ucast ((dta_time dta * 3 + 50000) div 100000)))
      else if desttype = SYBDATETIME4
      then if \<not> IS_USMALLINT (sint (dta_date dta)) then Inl TDS_CONVERT_OVERFLOW
           else Inr (4, CR_dt4 (ucast (dta_date dta)) (ucast ((dta_time dta + 30 * 10000000) div (60 * 10000000))))
      else if desttype \<in> date_types then Inr (16, CR_dta dta)
      else if desttype = SYBDATE then Inr (4, CR_date (dta_date dta))
      else if desttype = SYBTIME then Inr (4, CR_time (ucast ((dta_time dta * 3 + 50000) div 100000)))
      else if desttype = SYB5BIGTIME then Inr (8, CR_bigtime (dta_time dta div 10))
      else if desttype = SYB5BIGDATETIME
      then Inr (8, CR_bigtime (dta_time dta div 10 + scast (dta_date dta + word_of_int BIGDATETIME_BIAS) * big_day))
      else Inl TDS_CONVERT_NOAVAIL)"

definition tds_convert_datetime :: "conv_env \<Rightarrow> 32 word \<Rightarrow> 32 word \<Rightarrow> server_type \<Rightarrow> nat \<Rightarrow> conv_in \<Rightarrow> conv_res" where
  "tds_convert_datetime env dtdays dttime desttype prec inp =
     (if desttype = TDS_CONVERT_CHAR \<or> desttype \<in> all_char
      then string_to_result env desttype (whole_date_string env (datetime_fmt env) (Di_datetime dtdays dttime) 3) inp
      else if desttype = SYBDATETIME then Inr (8, CR_dt dtdays dttime)
      else if desttype = SYBDATETIME4
      then if \<not> IS_USMALLINT (sint dtdays) then Inl TDS_CONVERT_OVERFLOW
           else Inr (4, CR_dt4 (ucast dtdays) (word_of_int (quot (quot (sint dttime) 300) 60)))
      else if desttype = SYBDATE then Inr (4, CR_date dtdays)
      else if desttype = SYBTIME then Inr (4, CR_time dttime)
      else if desttype \<in> date_types
      then Inr (16, CR_dta \<lparr> dta_time = (if desttype \<noteq> SYBMSDATE then (scast dttime * 20 + 3) div 6 * 10000 else 0),
                             dta_date = (if desttype \<noteq> SYBMSTIME then dtdays else 0), offset = 0,
                             time_prec = (if desttype \<noteq> SYBMSDATE then 3 else prec),
                             has_time = (desttype \<noteq> SYBMSDATE), has_date = (desttype \<noteq> SYBMSTIME),
                             has_offset = (desttype = SYBMSDATETIMEOFFSET) \<rparr>)
      else if desttype = SYB5BIGTIME then Inr (8, CR_bigtime ((scast dttime * 20 + 3) div 6 * 1000))
      else if desttype = SYB5BIGDATETIME
      then Inr (8, CR_bigdatetime ((scast dttime * 20 + 3) div 6 * 1000 + scast (dtdays + word_of_int BIGDATETIME_BIAS) * big_day))
      else Inl TDS_CONVERT_NOAVAIL)"

definition tds_convert_datetime4 :: "conv_env \<Rightarrow> 16 word \<Rightarrow> 16 word \<Rightarrow> server_type \<Rightarrow> conv_in \<Rightarrow> conv_res" where
  "tds_convert_datetime4 env days mins desttype inp =
     (if desttype = SYBDATETIME4 then Inr (4, CR_dt4 days mins)
      else tds_convert_datetime env (ucast days) (ucast mins * (60 * 300)) desttype 0 inp)"

definition dta_zero :: tds_datetimeall where
  "dta_zero =
     \<lparr> dta_time = 0, dta_date = 0, offset = 0, time_prec = 0, has_time = False, has_date = False, has_offset = False \<rparr>"

definition tds_convert_time :: "conv_env \<Rightarrow> 32 word \<Rightarrow> server_type \<Rightarrow> conv_in \<Rightarrow> conv_res" where
  "tds_convert_time env time desttype inp =
     (if desttype = SYBTIME then Inr (4, CR_time time)
      else tds_convert_datetimeall env SYBMSTIME
             (dta_zero \<lparr> has_time := True, time_prec := 3, dta_time := (scast time * 20 + 3) div 6 * 10000 \<rparr>) desttype inp)"

definition tds_convert_date :: "conv_env \<Rightarrow> 32 word \<Rightarrow> server_type \<Rightarrow> conv_in \<Rightarrow> conv_res" where
  "tds_convert_date env date desttype inp =
     (if desttype = SYBDATE then Inr (4, CR_date date)
      else tds_convert_datetimeall env SYBMSDATE (dta_zero \<lparr> has_date := True, dta_date := date \<rparr>) desttype inp)"

definition tds_convert_bigtime :: "conv_env \<Rightarrow> 64 word \<Rightarrow> server_type \<Rightarrow> conv_in \<Rightarrow> conv_res" where
  "tds_convert_bigtime env bigtime desttype inp =
     (if desttype = SYB5BIGTIME then Inr (8, CR_bigtime bigtime)
      else tds_convert_datetimeall env SYBMSTIME
             (dta_zero \<lparr> time_prec := 6, has_time := True, dta_time := bigtime mod big_day * 10 \<rparr>) desttype inp)"

definition tds_convert_bigdatetime :: "conv_env \<Rightarrow> 64 word \<Rightarrow> server_type \<Rightarrow> conv_in \<Rightarrow> conv_res" where
  "tds_convert_bigdatetime env bigdatetime desttype inp =
     (if desttype = SYB5BIGDATETIME then Inr (8, CR_bigdatetime bigdatetime)
      else tds_convert_datetimeall env SYBMSDATETIME2
             (dta_zero \<lparr> time_prec := 6, has_time := True, dta_time := bigdatetime mod big_day * 10, has_date := True,
                         dta_date := ucast (bigdatetime div big_day) - word_of_int BIGDATETIME_BIAS \<rparr>) desttype inp)"

text \<open>The part of the dispatch of \<open>tds_convert\<close> for the date types.\<close>

definition tds_convert_dates :: "conv_env \<Rightarrow> date_info \<Rightarrow> server_type \<Rightarrow> conv_in \<Rightarrow> conv_res" where
  "tds_convert_dates env di desttype inp =
     (case di of
        Di_msdate dta \<Rightarrow> tds_convert_datetimeall env SYBMSDATE dta desttype inp
      | Di_mstime dta \<Rightarrow> tds_convert_datetimeall env SYBMSTIME dta desttype inp
      | Di_msdatetime2 dta \<Rightarrow> tds_convert_datetimeall env SYBMSDATETIME2 dta desttype inp
      | Di_msdatetimeoffset dta \<Rightarrow> tds_convert_datetimeall env SYBMSDATETIMEOFFSET dta desttype inp
      | Di_datetime days time \<Rightarrow> tds_convert_datetime env days time desttype 3 inp
      | Di_datetime4 days mins \<Rightarrow> tds_convert_datetime4 env days mins desttype inp
      | Di_date date \<Rightarrow> tds_convert_date env date desttype inp
      | Di_time time \<Rightarrow> tds_convert_time env time desttype inp
      | Di_bigtime t \<Rightarrow> tds_convert_bigtime env t desttype inp
      | Di_bigdatetime t \<Rightarrow> tds_convert_bigdatetime env t desttype inp
      | Di_other \<Rightarrow> Inl TDS_CONVERT_NOAVAIL)"

subsection \<open>Nullable types\<close>

definition tds_get_null_type :: "server_type \<Rightarrow> server_type" where
  "tds_get_null_type srctype =
     (case srctype of
        SYBCHAR \<Rightarrow> SYBVARCHAR
      | SYBINT1 \<Rightarrow> SYBINTN | SYBSINT1 \<Rightarrow> SYBINTN | SYBUINT1 \<Rightarrow> SYBINTN | SYBINT2 \<Rightarrow> SYBINTN | SYBINT4 \<Rightarrow> SYBINTN
      | SYBINT8 \<Rightarrow> SYBINTN | SYBUINT2 \<Rightarrow> SYBINTN | SYBUINT4 \<Rightarrow> SYBINTN | SYBUINT8 \<Rightarrow> SYBINTN
      | SYBREAL \<Rightarrow> SYBFLTN | SYBFLT8 \<Rightarrow> SYBFLTN
      | SYBDATETIME \<Rightarrow> SYBDATETIMN | SYBDATETIME4 \<Rightarrow> SYBDATETIMN
      | SYBBIT \<Rightarrow> SYBBITN
      | SYBMONEY \<Rightarrow> SYBMONEYN | SYBMONEY4 \<Rightarrow> SYBMONEYN
      | SYBTIME \<Rightarrow> SYBTIMEN
      | SYBDATE \<Rightarrow> SYBDATEN
      | _ \<Rightarrow> srctype)"

end
