(* ===== verification/Convert_Text.thy ===== *)
theory Convert_Text
  imports Convert_Dates
begin

text \<open>
  The conversions of \<open>src/tds/convert.c\<close> that deal with text, binary data and unique identifiers, and the
  dispatch of \<open>tds_convert\<close>. Conversions from floating point are not modelled (\<open>S_other\<close>).
\<close>

subsection \<open>Hexadecimal digits\<close>

definition tds_hex_digits :: string where
  "tds_hex_digits = ''0123456789abcdef''"

text \<open>The digit values \<open>tds_char2hex\<close> and the identifier parser accept: \<open>0x20\<close> is masked off for letters.\<close>

definition hex_value :: "char \<Rightarrow> byte option" where
  "hex_value ch =
     (let c = word_of_nat (of_char ch) :: byte
      in if 0x30 \<le> c \<and> c \<le> 0x39 then Some (c AND 0x0f)
         else let c = c AND (0x20 XOR 0xff)
              in if 0x41 \<le> c \<and> c \<le> 0x46 then Some (c - (0x41 - 10)) else None)"

definition hex_byte :: "byte \<Rightarrow> string" where
  "hex_byte b = [tds_hex_digits ! unat (drop_bit 4 b), tds_hex_digits ! unat (b AND 0xF)]"

text \<open>The loop of \<open>tds_char2hex\<close> at position \<open>i\<close>; the source is read with \<open>src - 1\<close> as its start when its length is odd.
  The result is the destination, \<open>None\<close> for a syntax error.\<close>

fun char2hex_loop :: "nat \<Rightarrow> byte \<Rightarrow> string \<Rightarrow> nat \<Rightarrow> byte list \<Rightarrow> byte list option" where
  "char2hex_loop i c [] destlen dest = Some dest"
| "char2hex_loop i c (ch # src) destlen dest =
     (case hex_value ch of
        None \<Rightarrow> None
      | Some hex1 \<Rightarrow>
          if destlen \<le> i div 2 then char2hex_loop (i + 1) c src destlen dest
          else if odd i then char2hex_loop (i + 1) c src destlen (dest @ [c OR hex1])
          else char2hex_loop (i + 1) (push_bit 4 hex1) src destlen dest)"

text \<open>\<open>dest\<close> is filled from its start; the number of bytes of the full result is returned with it.\<close>

definition tds_char2hex :: "nat \<Rightarrow> string \<Rightarrow> conv_error + nat \<times> byte list" where
  "tds_char2hex destlen src =
     (let srclen = (if odd (length src) then length src + 1 else length src);
          i = (if odd (length src) then 1 else 0)
      in case char2hex_loop i 0 src destlen [] of
           None \<Rightarrow> Inl TDS_CONVERT_SYNTAX
         | Some dest \<Rightarrow> Inr (srclen div 2, dest))"

subsection \<open>From binary data\<close>

definition tds_convert_binary :: "conv_env \<Rightarrow> byte list \<Rightarrow> server_type \<Rightarrow> conv_in \<Rightarrow> conv_res" where
  "tds_convert_binary env src desttype inp =
     (if desttype = TDS_CONVERT_CHAR
      then Inr (length src * 2, CR_cc (take (cc_len inp) (concat (map hex_byte src))))
      else if desttype \<in> all_char
      then if mem_ok env then Inr (length src * 2, CR_c (concat (map hex_byte src))) else Inl TDS_CONVERT_NOMEM
      else if desttype \<in> {SYBINT1, SYBSINT1, SYBUINT1, SYBINT2, SYBUINT2, SYBINT4, SYBUINT4, SYBINT8, SYBUINT8, SYBMONEY4, SYBMONEY,
                          SYBREAL, SYBFLT8}
      then let cplen = size_by_type env desttype;
               d = take cplen src
           in Inr (cplen, CR_raw (d @ replicate (cplen - length d) 0))
      else Inl TDS_CONVERT_NOAVAIL)"

subsection \<open>Unique identifiers\<close>

definition hex_upper :: "nat \<Rightarrow> nat \<Rightarrow> string" where
  "hex_upper w v = map (\<lambda>k. ''0123456789ABCDEF'' ! (v div 16 ^ k mod 16)) (rev [0..<w])"

text \<open>The format \<open>"%08X-%04X-%04X-%02X%02X-%02X%02X%02X%02X%02X%02X"\<close>.\<close>

definition show_unique :: "tds_unique \<Rightarrow> string" where
  "show_unique u =
     hex_upper 8 (unat (Data1 u)) @ ''-'' @ hex_upper 4 (unat (Data2 u)) @ ''-'' @ hex_upper 4 (unat (Data3 u)) @ ''-'' @
     concat (map (\<lambda>b. hex_upper 2 (unat b)) (take 2 (Data4 u))) @ ''-'' @
     concat (map (\<lambda>b. hex_upper 2 (unat b)) (drop 2 (Data4 u)))"

definition tds_convert_unique :: "conv_env \<Rightarrow> tds_unique \<Rightarrow> server_type \<Rightarrow> conv_in \<Rightarrow> conv_res" where
  "tds_convert_unique env u desttype inp =
     (if desttype = TDS_CONVERT_CHAR \<or> desttype \<in> all_char then string_to_result env desttype (show_unique u) inp
      else if desttype = SYBUNIQUE then Inr (16, CR_u u)
      else Inl TDS_CONVERT_NOAVAIL)"

text \<open>One digit of the identifier at position \<open>i\<close>.\<close>

definition unique_digit :: "nat \<Rightarrow> char \<Rightarrow> 32 word \<Rightarrow> tds_unique \<Rightarrow> (32 word \<times> tds_unique) option" where
  "unique_digit i ch n u =
     (case hex_value ch of
        None \<Rightarrow> None
      | Some d \<Rightarrow>
          let n = push_bit 4 n + ucast d
          in if 16 + 2 < i \<and> even i then Some (0, u \<lparr> Data4 := Data4 u @ [ucast n] \<rparr>) else Some (n, u))"

text \<open>The loop from \<open>i\<close> to 34; \<open>src\<close> is the text and \<open>srclen\<close> its length as the code counts it. The bytes of \<open>Data4\<close> are stored
  in order from index 0, so they are appended.\<close>

function unique_loop :: "nat \<Rightarrow> string \<Rightarrow> nat \<Rightarrow> 32 word \<Rightarrow> tds_unique \<Rightarrow> tds_unique option" where
  "unique_loop i src srclen n u =
     (if 32 + 3 \<le> i then Some u
      else if i = 8
      then if src ! i \<noteq> CHR ''-'' then None else unique_loop (i + 1) src srclen 0 (u \<lparr> Data1 := n \<rparr>)
      else if i = 13
      then if src ! i \<noteq> CHR ''-'' then None else unique_loop (i + 1) src srclen 0 (u \<lparr> Data2 := ucast n \<rparr>)
      else if i = 18
      then if src ! i \<noteq> CHR ''-'' then None else unique_loop (i + 1) src srclen 0 (u \<lparr> Data3 := ucast n \<rparr>)
      else if i = 23 \<and> src ! i = CHR ''-''
      then if srclen - 1 < 32 + 3 then None
           else case unique_digit i (tl src ! i) n u of
                  None \<Rightarrow> None
                | Some (n, u) \<Rightarrow> unique_loop (i + 1) (tl src) (srclen - 1) n u
      else case unique_digit i (src ! i) n u of
             None \<Rightarrow> None
           | Some (n, u) \<Rightarrow> unique_loop (i + 1) src srclen n u)"
  by pat_completeness auto
termination
  by (relation "measure (\<lambda>(i, _). 35 - i)") auto

declare unique_loop.simps [simp del]

definition unique_start :: tds_unique where
  "unique_start = \<lparr> Data1 = 0, Data2 = 0, Data3 = 0, Data4 = [] \<rparr>"

definition string_to_unique :: "string \<Rightarrow> conv_res" where
  "string_to_unique src =
     (if length src < 32 + 3 then Inl TDS_CONVERT_SYNTAX
      else
        let close = (if src ! 24 = CHR ''-'' then 32 + 4 + 1 else 32 + 3 + 1)
        in if src ! 0 = CHR ''{'' \<and> (length src \<le> close \<or> src ! close \<noteq> CHR ''}'') then Inl TDS_CONVERT_SYNTAX
           else case unique_loop 0 (if src ! 0 = CHR ''{'' then tl src else src) (length src) 0 unique_start of
                  None \<Rightarrow> Inl TDS_CONVERT_SYNTAX
                | Some u \<Rightarrow> Inr (16, CR_u u))"

subsection \<open>From text\<close>

text \<open>\<open>mynumber\<close> of the conversion to money: the sign, the digits and exactly four decimals.\<close>

definition money_digits :: "string \<Rightarrow> bool \<Rightarrow> nat \<Rightarrow> nat \<Rightarrow> string" where
  "money_digits start negative digits decimals =
     (if negative then ''-'' else []) @ take digits start @ take (min 4 decimals) (drop (digits + 1) start) @
     replicate (4 - min 4 decimals) (CHR ''0'')"

definition string_to_money :: "string \<Rightarrow> server_type \<Rightarrow> conv_res" where
  "string_to_money src desttype =
     (case parse_numeric src of
        None \<Rightarrow> Inl TDS_CONVERT_SYNTAX
      | Some (start, negative, digits, decimals) \<Rightarrow>
          if 18 < digits then Inl TDS_CONVERT_OVERFLOW
          else case string_to_int8 (money_digits start negative digits decimals) of
                 Inl e \<Rightarrow> Inl e
               | Inr mymoney \<Rightarrow>
                   if desttype = SYBMONEY then Inr (8, CR_m (word_of_int mymoney))
                   else if \<not> INT_IS_INT mymoney then Inl TDS_CONVERT_OVERFLOW
                   else Inr (4, CR_m4 (word_of_int mymoney)))"

definition strip_trailing :: "string \<Rightarrow> string" where
  "strip_trailing src = rev (dropWhile (\<lambda>c. c = CHR '' '' \<or> c = NUL) (rev src))"

text \<open>\<open>strtod\<close> of the environment tells whether the value is out of range and how many characters it has read.\<close>

definition string_to_float :: "conv_env \<Rightarrow> string \<Rightarrow> server_type \<Rightarrow> conv_res" where
  "string_to_float env src desttype =
     (let tmpstr = strip_trailing (dropWhile (\<lambda>c. c = CHR '' '') src);
          (erange, stop) = strtod env (takeWhile (\<lambda>c. c \<noteq> NUL) tmpstr)
      in if 128 \<le> length tmpstr then Inl TDS_CONVERT_OVERFLOW
         else if erange then Inl TDS_CONVERT_OVERFLOW
         else if stop \<noteq> length tmpstr then Inl TDS_CONVERT_SYNTAX
         else if desttype = SYBREAL then Inr (4, CR_r (Fp_text tmpstr))
         else Inr (8, CR_f (Fp_text tmpstr)))"

definition tds_convert_char :: "conv_env \<Rightarrow> string \<Rightarrow> server_type \<Rightarrow> conv_in \<Rightarrow> conv_res" where
  "tds_convert_char env src desttype inp =
     (let from = (\<lambda>r f. case r of Inl e \<Rightarrow> Inl e | Inr i \<Rightarrow> f i)
      in if desttype = TDS_CONVERT_CHAR then Inr (length src, CR_cc (take (cc_len inp) src))
         else if desttype \<in> all_char then if mem_ok env then Inr (length src, CR_c src) else Inl TDS_CONVERT_NOMEM
         else if desttype = SYBSINT1
         then from (string_to_int src) (\<lambda>i. if \<not> IS_SINT1 i then Inl TDS_CONVERT_OVERFLOW else Inr (1, CR_ti (word_of_int i)))
         else if desttype \<in> {SYBINT1, SYBUINT1}
         then from (string_to_int src) (\<lambda>i. if \<not> IS_TINYINT i then Inl TDS_CONVERT_OVERFLOW else Inr (1, CR_ti (word_of_int i)))
         else if desttype = SYBINT2
         then from (string_to_int src) (\<lambda>i. if \<not> IS_SMALLINT i then Inl TDS_CONVERT_OVERFLOW else Inr (2, CR_si (word_of_int i)))
         else if desttype = SYBUINT2
         then from (string_to_int src) (\<lambda>i. if \<not> IS_USMALLINT i then Inl TDS_CONVERT_OVERFLOW else Inr (2, CR_usi (word_of_int i)))
         else if desttype = SYBINT4 then from (string_to_int src) (\<lambda>i. Inr (4, CR_i (word_of_int i)))
         else if desttype = SYBUINT4
         then from (string_to_int8 src) (\<lambda>i. if \<not> INT_IS_UINT i then Inl TDS_CONVERT_OVERFLOW else Inr (4, CR_ui (word_of_int i)))
         else if desttype = SYBINT8 then from (string_to_int8 src) (\<lambda>i. Inr (8, CR_bi (word_of_int i)))
         else if desttype = SYBUINT8
         then (case string_to_uint8 src of Inl e \<Rightarrow> Inl e | Inr n \<Rightarrow> Inr (8, CR_ubi (word_of_nat n)))
         else if desttype \<in> {SYBFLT8, SYBREAL} then string_to_float env src desttype
         else if desttype \<in> {SYBBIT, SYBBITN} then from (string_to_int src) (\<lambda>i. Inr (1, CR_ti (if i \<noteq> 0 then 1 else 0)))
         else if desttype \<in> {SYBMONEY, SYBMONEY4} then string_to_money src desttype
         else if desttype \<in> {SYBDATETIME, SYBDATETIME4, SYBMSTIME, SYBMSDATE, SYBMSDATETIME2, SYBMSDATETIMEOFFSET, SYBTIME, SYBDATE,
                             SYB5BIGTIME, SYB5BIGDATETIME}
         then string_to_datetime env src desttype
         else if desttype \<in> {SYBNUMERIC, SYBDECIMAL}
         then rescale_result (string_to_numeric src (n_in inp))
         else if desttype = SYBUNIQUE then string_to_unique src
         else Inl TDS_CONVERT_NOAVAIL)"

subsection \<open>To binary data\<close>

definition skip_0x :: "string \<Rightarrow> string" where
  "skip_0x src =
     (if 2 \<le> length src \<and> src ! 0 = CHR ''0'' \<and> (src ! 1 = CHR ''x'' \<or> src ! 1 = CHR ''X'') then drop 2 src else src)"

definition text_to_binary :: "conv_env \<Rightarrow> string \<Rightarrow> server_type \<Rightarrow> conv_in \<Rightarrow> conv_res" where
  "text_to_binary env src desttype inp =
     (let src = strip_trailing (skip_0x src)
      in if desttype \<noteq> TDS_CONVERT_BINARY
         then if mem_ok env
              then (case tds_char2hex 0xffffffff src of Inl e \<Rightarrow> Inl e | Inr (len, ib) \<Rightarrow> Inr (len, CR_ib ib))
              else Inl TDS_CONVERT_NOMEM
         else (case tds_char2hex (cb_len inp) src of Inl e \<Rightarrow> Inl e | Inr (len, ib) \<Rightarrow> Inr (len, CR_cb ib)))"

text \<open>The sources. A fixed-size source of the conversion to binary is its representation in memory, \<open>S_other\<close> is a source
  whose conversion is not modelled, with its representation and the result.\<close>

datatype source =
    S_char string | S_money4 "32 word" | S_money "32 word" "32 word" | S_numeric tds_numeric | S_bit "8 word" | S_int1 "8 word"
  | S_uint1 "8 word" | S_int2 "16 word" | S_uint2 "16 word" | S_int4 "32 word" | S_uint4 "32 word" | S_int8 "64 word"
  | S_uint8 "64 word" | S_binary "byte list" | S_unique tds_unique
  | S_date date_info | S_other conv_res

definition tds_convert_to_binary :: "conv_env \<Rightarrow> source \<Rightarrow> byte list \<Rightarrow> server_type \<Rightarrow> conv_in \<Rightarrow> conv_res" where
  "tds_convert_to_binary env src raw desttype inp =
     (case src of
        S_char s \<Rightarrow> text_to_binary env s desttype inp
      | S_binary b \<Rightarrow> binary_to_result env desttype b inp
      | _ \<Rightarrow> binary_to_result env desttype raw inp)"

text \<open>A positive result of type \<open>SYBMONEY\<close> has its halves exchanged at the end, for the layout of \<open>TDS_OLD_MONEY\<close>.\<close>

definition swap_halves :: "64 word \<Rightarrow> 64 word" where
  "swap_halves n = drop_bit 32 n OR push_bit 32 n"

definition fix_money :: "server_type \<Rightarrow> conv_res \<Rightarrow> conv_res" where
  "fix_money desttype r =
     (case r of
        Inr (len, CR_m m) \<Rightarrow> if 0 < len \<and> desttype = SYBMONEY then Inr (len, CR_m (swap_halves m)) else r
      | Inr (len, CR_raw b) \<Rightarrow> if 0 < len \<and> desttype = SYBMONEY then Inr (len, CR_raw (drop 4 b @ take 4 b)) else r
      | _ \<Rightarrow> r)"

definition tds_convert :: "conv_env \<Rightarrow> source \<Rightarrow> byte list \<Rightarrow> server_type \<Rightarrow> conv_in \<Rightarrow> conv_res" where
  "tds_convert env src raw desttype inp =
     (if desttype \<in> all_binary then tds_convert_to_binary env src raw desttype inp
      else fix_money desttype
        (case src of
           S_char s \<Rightarrow> tds_convert_char env s desttype inp
         | S_money4 m \<Rightarrow> tds_convert_money4 env m desttype inp
         | S_money h l \<Rightarrow> tds_convert_money env h l desttype inp
         | S_numeric n \<Rightarrow> tds_convert_numeric env n desttype inp
         | S_bit b \<Rightarrow> tds_convert_bit env b desttype inp
         | S_int1 i \<Rightarrow> tds_convert_int1 env i desttype inp
         | S_uint1 i \<Rightarrow> tds_convert_uint1 env i desttype inp
         | S_int2 i \<Rightarrow> tds_convert_int2 env i desttype inp
         | S_uint2 i \<Rightarrow> tds_convert_uint2 env i desttype inp
         | S_int4 i \<Rightarrow> tds_convert_int4 env i desttype inp
         | S_uint4 i \<Rightarrow> tds_convert_uint4 env i desttype inp
         | S_int8 i \<Rightarrow> tds_convert_int8 env i desttype inp
         | S_uint8 i \<Rightarrow> tds_convert_uint8 env i desttype inp
         | S_binary b \<Rightarrow> tds_convert_binary env b desttype inp
         | S_unique u \<Rightarrow> tds_convert_unique env u desttype inp
         | S_date di \<Rightarrow> tds_convert_dates env di desttype inp
         | S_other r \<Rightarrow> r))"

end
