(* ===== verification/Convert_Correct.thy ===== *)
theory Convert_Correct
  imports Convert_Text
begin

text \<open>
  What \<open>tds_convert\<close> promises: conversions to integers are exact or report an overflow, whatever the source;
  conversions to exact numbers keep the value; money, binary data and unique identifiers survive a
  round trip through text.
\<close>

subsection \<open>Integer targets\<close>

definition int_bounds :: "server_type \<Rightarrow> int \<times> int" where
  "int_bounds t =
     (if t = SYBSINT1 then (- 128, 127)
      else if t \<in> {SYBINT1, SYBUINT1} then (0, 255)
      else if t = SYBINT2 then (- 32768, 32767)
      else if t = SYBUINT2 then (0, 65535)
      else if t = SYBINT4 then (- 2147483648, 2147483647)
      else if t = SYBUINT4 then (0, 4294967295)
      else if t = SYBINT8 then (- 9223372036854775808, 9223372036854775807)
      else (0, 18446744073709551615))"

definition int_types :: "server_type set" where
  "int_types = {SYBSINT1, SYBINT1, SYBUINT1, SYBINT2, SYBUINT2, SYBINT4, SYBUINT4, SYBINT8, SYBUINT8}"

definition int_cr :: "server_type \<Rightarrow> int \<Rightarrow> nat \<times> cr" where
  "int_cr t i =
     (if t \<in> {SYBSINT1, SYBINT1, SYBUINT1} then (1, CR_ti (word_of_int i))
      else if t = SYBINT2 then (2, CR_si (word_of_int i))
      else if t = SYBUINT2 then (2, CR_usi (word_of_int i))
      else if t = SYBINT4 then (4, CR_i (word_of_int i))
      else if t = SYBUINT4 then (4, CR_ui (word_of_int i))
      else if t = SYBINT8 then (8, CR_bi (word_of_int i))
      else (8, CR_ubi (word_of_int i)))"

text \<open>The specification: the value when it is in the range of the type, otherwise an overflow.\<close>

definition int_conv :: "server_type \<Rightarrow> int \<Rightarrow> conv_res" where
  "int_conv t i = (if fst (int_bounds t) \<le> i \<and> i \<le> snd (int_bounds t) then Inr (int_cr t i) else Inl TDS_CONVERT_OVERFLOW)"

lemmas int_conv_defs = int_conv_def int_bounds_def int_cr_def type_sets range_macros

lemma int_types_cases:
  assumes "t \<in> int_types"
    "P SYBSINT1" "P SYBINT1" "P SYBUINT1" "P SYBINT2" "P SYBUINT2" "P SYBINT4" "P SYBUINT4" "P SYBINT8" "P SYBUINT8"
  shows "P t"
  using assms by (auto simp: int_types_def)


lemma sint_bounds32: "- 2147483648 \<le> sint (w :: 32 word)" "sint (w :: 32 word) \<le> 2147483647"
  using sint_range_size [of w] by (simp_all add: word_size)

lemma sint_bounds64: "- 9223372036854775808 \<le> sint (w :: 64 word)" "sint (w :: 64 word) \<le> 9223372036854775807"
  using sint_range_size [of w] by (simp_all add: word_size)

lemma ucast_as_scast: "LENGTH('b) \<le> LENGTH('a) \<Longrightarrow> ucast (w :: 'a :: len word) = (scast w :: 'b :: len word)"
  by (intro bit_word_eqI) (auto simp: bit_simps not_le)

lemma sint_of_int32: "- 2147483648 \<le> i \<Longrightarrow> i \<le> 2147483647 \<Longrightarrow> sint (word_of_int i :: 32 word) = i"
  by (simp add: signed_of_int signed_take_bit_int_eq_self)

lemma sint_of_int64:
  "- 9223372036854775808 \<le> i \<Longrightarrow> i \<le> 9223372036854775807 \<Longrightarrow> sint (word_of_int i :: 64 word) = i"
  by (simp add: signed_of_int signed_take_bit_int_eq_self)

lemma sint_ucast_small:
  assumes "- 2147483648 \<le> sint (w :: 64 word)" "sint w \<le> 2147483647"
  shows "sint (ucast w :: 32 word) = sint w"
  using sint_of_int32 [OF assms] by (simp add: ucast_as_scast)

lemma unat_uint_le: "unat w \<le> k \<longleftrightarrow> uint w \<le> int k" for w :: "64 word"
  using of_nat_le_iff [of "unat w" k, where 'a = int] by simp

lemma convert_int_exact:
  assumes "t \<in> int_types" shows "tds_convert_int env num t inp = int_conv t (sint num)"
  by (rule int_types_cases [OF assms])
     (use sint_bounds32 [of num] in \<open>simp_all add: tds_convert_int_def int_conv_defs ucast_as_scast\<close>)

lemma convert_int8_exact:
  assumes "t \<in> int_types" shows "tds_convert_int8 env buf t inp = int_conv t (sint buf)"
proof (cases "INT_IS_INT (sint buf)")
  case True
  then have "sint (ucast buf :: 32 word) = sint buf" by (intro sint_ucast_small) (simp_all add: INT_IS_INT_def)
  with True convert_int_exact [OF assms] show ?thesis by (simp add: tds_convert_int8_def)
next
  case False
  have *: "tds_convert_int8 env buf t inp =
     (if t \<in> {SYBINT1, SYBSINT1, SYBUINT1, SYBINT2, SYBUINT2, SYBINT4} then Inl TDS_CONVERT_OVERFLOW
      else if t = SYBUINT4 then if \<not> INT_IS_UINT (sint buf) then Inl TDS_CONVERT_OVERFLOW else Inr (4, CR_ui (ucast buf))
      else if t = SYBINT8 then Inr (8, CR_bi buf)
      else if sint buf < 0 then Inl TDS_CONVERT_OVERFLOW else Inr (8, CR_ubi buf))"
    by (rule int_types_cases [OF assms]) (use False in \<open>simp_all add: tds_convert_int8_def type_sets\<close>)
  show ?thesis unfolding *
    by (rule int_types_cases [OF assms])
       (use False sint_bounds64 [of buf] in \<open>auto simp add: int_conv_defs ucast_as_scast\<close>)
qed

lemma convert_uint8_exact:
  assumes "t \<in> int_types" shows "tds_convert_uint8 env buf t inp = int_conv t (uint buf)"
proof (cases "unat buf \<le> 2147483647")
  case True
  then have "uint buf \<le> 2147483647" by (simp add: unat_uint_le)
  then have "sint (ucast buf :: 32 word) = uint buf" using sint_of_int32 [of "uint buf"] by (simp add: order.trans [OF _ unsigned_greater_eq])
  with True convert_int_exact [OF assms] show ?thesis by (simp add: tds_convert_uint8_def)
next
  case False
  then have F: "\<not> uint buf \<le> 2147483647" by (simp add: unat_uint_le)
  have B: "uint buf \<le> 18446744073709551615" using uint_bounded [of buf] by simp
  have I: "9223372036854775807 < unat buf \<longleftrightarrow> 9223372036854775807 < uint buf" by (simp add: unat_uint_le flip: not_le)
  have *: "tds_convert_uint8 env buf t inp =
     (if t \<in> {SYBINT1, SYBSINT1, SYBUINT1, SYBINT2, SYBUINT2, SYBINT4} then Inl TDS_CONVERT_OVERFLOW
      else if t = SYBUINT4 then if \<not> INT_IS_UINT (uint buf) then Inl TDS_CONVERT_OVERFLOW else Inr (4, CR_ui (ucast buf))
      else if t = SYBINT8 then if 9223372036854775807 < uint buf then Inl TDS_CONVERT_OVERFLOW else Inr (8, CR_bi buf)
      else Inr (8, CR_ubi buf))"
    by (rule int_types_cases [OF assms]) (use False I in \<open>simp_all add: tds_convert_uint8_def type_sets\<close>)
  show ?thesis unfolding *
    by (rule int_types_cases [OF assms]) (use F B in \<open>auto simp add: int_conv_defs\<close>)
qed

subsection \<open>Money to integers\<close>

lemma quot_iffs:
  "a \<le> quot m 10000 \<longleftrightarrow> (if 0 < a then a * 10000 \<le> m else (a - 1) * 10000 < m)"
  "quot m 10000 \<le> a \<longleftrightarrow> (if a < 0 then m \<le> a * 10000 else m < (a + 1) * 10000)"
proof -
  define q r where "q = \<bar>m\<bar> div 10000" and "r = \<bar>m\<bar> mod 10000"
  have m: "\<bar>m\<bar> = q * 10000 + r" "0 \<le> r" "r < 10000" "0 \<le> q" by (simp_all add: q_def r_def)
  have Q: "quot m 10000 = (if m < 0 then - q else q)" by (simp add: quot_def q_def)
  show "a \<le> quot m 10000 \<longleftrightarrow> (if 0 < a then a * 10000 \<le> m else (a - 1) * 10000 < m)"
    unfolding Q using m by (cases "m < 0"; cases "0 < a") (simp_all, linarith+)
  show "quot m 10000 \<le> a \<longleftrightarrow> (if a < 0 then m \<le> a * 10000 else m < (a + 1) * 10000)"
    unfolding Q using m by (cases "m < 0"; cases "a < 0") (simp_all, linarith+)
qed

definition money_of :: "32 word \<Rightarrow> 32 word \<Rightarrow> 64 word" where
  "money_of high low = push_bit 32 (ucast high) OR ucast low"

lemma convert_money4_exact:
  assumes "t \<in> int_types" shows "tds_convert_money4 env m t inp = int_conv t (quot (sint m) 10000)"
proof -
  have "- 2147483648 \<le> quot (sint m) 10000" "quot (sint m) 10000 \<le> 2147483647"
    using sint_bounds32 [of m] by (simp_all add: quot_iffs)
  then show ?thesis
    by (intro int_types_cases [where P = "\<lambda>t. tds_convert_money4 env m t inp = int_conv t (quot (sint m) 10000)", OF assms])
       (simp_all add: tds_convert_money4_def int_conv_defs Let_def)
qed

lemma convert_money_exact:
  assumes "t \<in> int_types" shows "tds_convert_money env h l t inp = int_conv t (quot (sint (money_of h l)) 10000)"
proof -
  define m where "m = sint (money_of h l)"
  define sm where "sm = quot (sint (ucast (money_of h l) :: 32 word)) 10000"
  define P where "P t \<longleftrightarrow> tds_convert_money env h l t inp = int_conv t (quot m 10000)" for t
  have B: "- 9223372036854775808 \<le> quot m 10000" "quot m 10000 \<le> 9223372036854775807"
    using sint_bounds64 [of "money_of h l"] by (simp_all add: m_def quot_iffs)
  have S: "sm = quot m 10000" if "- 2147483648 \<le> m" "m \<le> 2147483647"
    using sint_ucast_small [of "money_of h l"] that by (simp add: m_def sm_def)
  note P = P_def tds_convert_money_def Let_def money_of_def [symmetric] m_def [symmetric] sm_def [symmetric]
  have "P SYBSINT1" "P SYBINT1" "P SYBUINT1" "P SYBINT2" "P SYBUINT2"
    unfolding P using S by (simp_all add: int_conv_defs quot_iffs)
  moreover have "P SYBINT4" "P SYBUINT4"
    unfolding P by (simp_all add: int_conv_defs)
  moreover have "P SYBINT8" "P SYBUINT8"
    unfolding P using B by (simp_all add: int_conv_defs)
  ultimately have "P t" by (intro int_types_cases [OF assms, of P])
  then show ?thesis by (simp add: P_def m_def)
qed

subsection \<open>Exact numbers to integers\<close>

definition numeric_int :: "tds_numeric \<Rightarrow> int" where
  "numeric_int n = (let m = int (magnitude n div 10 ^ scale n) in if array n ! 0 = 0 then m else - m)"

lemma sign_differs_iff: "s \<in> {0, 1} \<Longrightarrow> sign_differs k i s \<longleftrightarrow> i \<noteq> 0 \<and> (bit i k \<longleftrightarrow> s = 0)"
  by (auto simp: sign_differs_def bit_iff_odd_drop_bit and_one_eq mod_2_eq_odd even_xor_iff)

lemma bit_top: "0 \<le> i \<Longrightarrow> i < 2 * 2 ^ k \<Longrightarrow> bit i k \<longleftrightarrow> 2 ^ k \<le> (i :: int)"
proof -
  assume i: "0 \<le> i" "i < 2 * 2 ^ k"
  show ?thesis
  proof (cases "i < 2 ^ k")
    case False
    have "(i - 2 ^ k + 2 ^ k) div 2 ^ k = 1" using i False by (subst div_add_self2) (simp_all add: div_pos_pos_trivial)
    then show ?thesis using False by (simp add: bit_iff_odd)
  qed (use i in \<open>simp add: bit_iff_odd\<close>)
qed

lemma bit_top_minus: "0 < i \<Longrightarrow> i < 2 * 2 ^ k \<Longrightarrow> bit (- i) k \<longleftrightarrow> i \<le> (2 ^ k :: int)"
  using bit_top [of "i - 1" k] by (auto simp: bit_minus_int_iff bit_not_int_iff)

text \<open>\<open>sign_differs\<close> is the range test of the target.\<close>

lemma sign_differs_range:
  assumes "s \<in> {0, 1}" "0 \<le> b" "b < 2 * 2 ^ k" "i = (if s \<noteq> 0 then - b else b)"
  shows "sign_differs k i s \<longleftrightarrow> \<not> (- (2 ^ k) \<le> i \<and> i < 2 ^ k)"
proof -
  have "0 < (2 ^ k :: int)" by simp
  then show ?thesis
  using assms bit_top [of b k] bit_top_minus [of b k] by (cases "b = 0") (auto simp: sign_differs_iff)
qed

text \<open>The rescaled number as the four integer targets see it.\<close>

lemma numeric_rescaled:
  assumes "limits_ok L" "numeric_ok n" "(p, k) \<in> {(3, 1), (5, 2), (10, 4), (20, 8)}" "s \<le> 4" "s < p"
  obtains "tds_numeric_change_prec_scale L n p s = Inl TDS_CONVERT_OVERFLOW" "10 ^ p \<le> rescaled (scale n) s (magnitude n)"
  | n' where "tds_numeric_change_prec_scale L n p s = Inr n'" "array n' ! 0 = array n ! 0" "array n' ! 0 \<in> {0, 1}"
      "rescaled (scale n) s (magnitude n) = unat (array n' ! 1) * 256 ^ k + bytes_val (take k (drop 2 (array n')))"
      "k + 2 \<le> length (array n')"
proof -
  have p: "\<not> bad_prec_scale p s" using assms(3-5) by (auto simp: bad_prec_scale_def MAXPRECISION_def)
  show ?thesis
  proof (cases "rescaled (scale n) s (magnitude n) < 10 ^ p")
    case True
    with change_prec_scale_correct [OF assms(1,2) p] obtain n' where
      n': "tds_numeric_change_prec_scale L n p s = Inr n'" "rescale_to n p s n'" by auto
    have l: "length (array n') = 33" "precision n' = p" "array n' ! 0 \<in> {0, 1}" "array n' ! 0 = array n ! 0"
      "magnitude n' = rescaled (scale n) s (magnitude n)" using n'(2) by (auto simp: rescale_to_def numeric_ok_def)
    have "tds_numeric_bytes_per_prec ! p - 1 = Suc k" using assms(3) by (auto simp: tds_numeric_bytes_per_prec_def)
    moreover have "take (Suc k) (drop 1 (array n')) = array n' ! 1 # take k (drop 2 (array n'))"
      using l(1) by (simp add: Cons_nth_drop_Suc [symmetric] numeral_2_eq_2)
    moreover have "length (take k (drop 2 (array n'))) = k" using l(1) assms(3) by auto
    ultimately have "magnitude n' = unat (array n' ! 1) * 256 ^ k + bytes_val (take k (drop 2 (array n')))"
      using l(2) by (simp add: magnitude_def bytes_val_Cons)
    then show thesis using n'(1) l assms(3) by (intro that(2)) auto
  next
    case False
    then show thesis using change_prec_scale_correct [OF assms(1,2) p] by (intro that(1)) auto
  qed
qed

lemma rescaled_0: "rescaled sc 0 v = v div 10 ^ sc"
  by (simp add: rescaled_def)

lemma take_drop_nth: "k + 2 \<le> length a \<Longrightarrow> take k (drop 2 a) = map ((!) a) [2..<2 + k]"
  by (intro nth_equalityI) (simp_all del: upt_Suc)

lemma word_of_int_0_iff32: "\<bar>i\<bar> < 4294967296 \<Longrightarrow> (word_of_int i :: 32 word) = 0 \<longleftrightarrow> i = 0"
  by (auto simp: word_of_int_eq_0_iff dest: zdvd_imp_le [of _ "\<bar>i\<bar>"])

lemma word_of_int_0_iff64: "\<bar>i\<bar> < 18446744073709551616 \<Longrightarrow> (word_of_int i :: 64 word) = 0 \<longleftrightarrow> i = 0"
  by (auto simp: word_of_int_eq_0_iff dest: zdvd_imp_le [of _ "\<bar>i\<bar>"])

lemma sign_differs_sint32:
  assumes "\<bar>i\<bar> < 4294967296" "s \<in> {0, 1}"
  shows "sign_differs 31 (sint (word_of_int i :: 32 word)) s \<longleftrightarrow> sign_differs 31 i s"
  using assms(1) by (simp add: sign_differs_iff [OF assms(2)] signed_eq_0_iff word_of_int_0_iff32 bit_sint_iff bit_word_of_int_iff)

lemma sign_differs_sint64:
  assumes "\<bar>i\<bar> < 18446744073709551616" "s \<in> {0, 1}"
  shows "sign_differs 63 (sint (word_of_int i :: 64 word)) s \<longleftrightarrow> sign_differs 63 i s"
  using assms(1) by (simp add: sign_differs_iff [OF assms(2)] signed_eq_0_iff word_of_int_0_iff64 bit_sint_iff bit_word_of_int_iff)

lemma bytes_at:
  assumes "k + 2 \<le> length a" "k \<in> {1, 2, 4, 8}"
  shows "k = 1 \<Longrightarrow> bytes_val (take k (drop 2 a)) = unat (a ! 2)"
    "k = 2 \<Longrightarrow> bytes_val (take k (drop 2 a)) = TDS_GET_A2BE (a ! 2) (a ! 3)"
    "k = 4 \<Longrightarrow> bytes_val (take k (drop 2 a)) = TDS_GET_A4BE (a ! 2) (a ! 3) (a ! 4) (a ! 5)"
    "k = 8 \<Longrightarrow> bytes_val (take k (drop 2 a)) =
       TDS_GET_A4BE (a ! 2) (a ! 3) (a ! 4) (a ! 5) * 4294967296 + TDS_GET_A4BE (a ! 6) (a ! 7) (a ! 8) (a ! 9)"
  unfolding take_drop_nth [OF assms(1)]
  by (simp_all add: upt_rec TDS_GET_A2BE_val TDS_GET_A4BE_val bytes_val_Cons)

lemma numeric_width:
  assumes "limits_ok L" "numeric_ok n" "(p, k) \<in> {(3, 1), (5, 2), (10, 4), (20, 8)}" "s \<le> 4" "s < p"
    "m = rescaled (scale n) s (magnitude n)"
  obtains (over) "tds_numeric_change_prec_scale L n p s = Inl TDS_CONVERT_OVERFLOW" "256 ^ k \<le> m"
  | (high) a where "tds_numeric_change_prec_scale L n p s = Inr a" "array a ! 1 \<noteq> 0" "256 ^ k \<le> m"
  | (ok) a where "tds_numeric_change_prec_scale L n p s = Inr a" "array a ! 1 = 0" "array a ! 0 = array n ! 0"
      "array n ! 0 \<in> {0, 1}" "m = bytes_val (take k (drop 2 (array a)))" "m < 256 ^ k" "k + 2 \<le> length (array a)"
proof (rule numeric_rescaled [OF assms(1-5)], goal_cases)
  case 1
  have "(256 :: nat) ^ k \<le> 10 ^ p" using assms(3) by auto
  then show ?case using 1 assms(6) over by (meson le_trans)
next
  case (2 a)
  let ?r = "bytes_val (take k (drop 2 (array a)))"
  have "length (take k (drop 2 (array a))) = k" using 2 by simp
  then have r: "?r < 256 ^ k" using bytes_val_less [of "take k (drop 2 (array a))"] by simp
  show ?case
  proof (cases "array a ! 1 = 0")
    case True
    then show ?thesis using 2 r assms(6) by (intro ok [of a]) auto
  next
    case False
    then have "1 \<le> unat (array a ! 1)" by (simp add: Suc_le_eq unat_gt_0)
    then have "256 ^ k \<le> unat (array a ! 1) * 256 ^ k + ?r" by (intro trans_le_add1) simp
    then have "256 ^ k \<le> m" unfolding assms(6) 2(7) .
    then show ?thesis using 2(4) False by (intro high [of a]) auto
  qed
qed

lemma numeric_int_signed:
  "m = rescaled (scale n) 0 (magnitude n) \<Longrightarrow> numeric_int n = (if array n ! 0 \<noteq> 0 then - int m else int m)"
  by (simp add: numeric_int_def rescaled_0)

lemma numeric_targets:
  fixes env n inp
  defines "to \<equiv> \<lambda>p f. case tds_numeric_change_prec_scale (lim env) n p 0 of Inl e \<Rightarrow> Inl e | Inr n' \<Rightarrow> f (array n')"
  shows "tds_convert_numeric env n SYBSINT1 inp =
      to 3 (\<lambda>a. if a ! 1 \<noteq> 0 then Inl TDS_CONVERT_OVERFLOW
                else let i = (if a ! 0 \<noteq> 0 then - uint (a ! 2) else uint (a ! 2))
                     in if sign_differs 7 i (a ! 0) then Inl TDS_CONVERT_OVERFLOW else Inr (1, CR_ti (word_of_int i)))"
    "t \<in> {SYBINT1, SYBUINT1} \<Longrightarrow> tds_convert_numeric env n t inp =
      to 3 (\<lambda>a. if a ! 1 \<noteq> 0 \<or> a ! 0 \<noteq> 0 \<and> a ! 2 \<noteq> 0 then Inl TDS_CONVERT_OVERFLOW else Inr (1, CR_ti (a ! 2)))"
    "tds_convert_numeric env n SYBINT2 inp =
      to 5 (\<lambda>a. if a ! 1 \<noteq> 0 then Inl TDS_CONVERT_OVERFLOW
                else let i = int (TDS_GET_A2BE (a ! 2) (a ! 3)); i = (if a ! 0 \<noteq> 0 then - i else i)
                     in if sign_differs 15 i (a ! 0) then Inl TDS_CONVERT_OVERFLOW else Inr (2, CR_si (word_of_int i)))"
    "tds_convert_numeric env n SYBUINT2 inp =
      to 5 (\<lambda>a. let i = TDS_GET_A2BE (a ! 2) (a ! 3)
                in if i \<noteq> 0 \<and> a ! 0 \<noteq> 0 \<or> a ! 1 \<noteq> 0 then Inl TDS_CONVERT_OVERFLOW else Inr (2, CR_usi (word_of_nat i)))"
    "tds_convert_numeric env n SYBINT4 inp =
      to 10 (\<lambda>a. if a ! 1 \<noteq> 0 then Inl TDS_CONVERT_OVERFLOW
                 else if sign_differs 31 (sint (read_i4 a)) (a ! 0) then Inl TDS_CONVERT_OVERFLOW else Inr (4, CR_i (read_i4 a)))"
    "tds_convert_numeric env n SYBUINT4 inp =
      to 10 (\<lambda>a. let ui = word_of_nat (TDS_GET_A4BE (a ! 2) (a ! 3) (a ! 4) (a ! 5)) :: 32 word
                 in if ui \<noteq> 0 \<and> a ! 0 \<noteq> 0 \<or> a ! 1 \<noteq> 0 then Inl TDS_CONVERT_OVERFLOW else Inr (4, CR_ui ui))"
    "tds_convert_numeric env n SYBINT8 inp =
      to 20 (\<lambda>a. if a ! 1 \<noteq> 0 then Inl TDS_CONVERT_OVERFLOW
                 else if sign_differs 63 (sint (read_i8 a)) (a ! 0) then Inl TDS_CONVERT_OVERFLOW else Inr (8, CR_bi (read_i8 a)))"
    "tds_convert_numeric env n SYBUINT8 inp =
      to 20 (\<lambda>a. if read_u8 a \<noteq> 0 \<and> a ! 0 \<noteq> 0 \<or> a ! 1 \<noteq> 0 then Inl TDS_CONVERT_OVERFLOW else Inr (8, CR_ubi (read_u8 a)))"
  unfolding tds_convert_numeric_def Let_def to_def by (auto simp add: type_sets cong: if_cong sum.case_cong)

lemma numeric_int1:
  assumes "limits_ok (lim env)" "numeric_ok n" "t \<in> {SYBSINT1, SYBINT1, SYBUINT1}"
  shows "tds_convert_numeric env n t inp = int_conv t (numeric_int n)"
proof -
  define m where "m = rescaled (scale n) 0 (magnitude n)"
  note v = numeric_int_signed [OF m_def]
  show ?thesis
  proof (rule numeric_width [OF assms(1,2), of 3 1 0, OF _ _ _ m_def], goal_cases)
    case (6 a)
    then have "uint (array a ! 2) = int m" "array a ! 2 = word_of_nat m" by (simp_all add: bytes_at)
    then show ?case using 6 assms(3) sign_differs_range [OF 6(4), of "int m" 7 "numeric_int n"]
      by (cases "array n ! 0 = 0") (auto simp: numeric_targets int_conv_defs v)
  qed (use assms(3) in \<open>auto simp: numeric_targets int_conv_defs v\<close>)
qed

lemma numeric_int2:
  assumes "limits_ok (lim env)" "numeric_ok n" "t \<in> {SYBINT2, SYBUINT2}"
  shows "tds_convert_numeric env n t inp = int_conv t (numeric_int n)"
proof -
  define m where "m = rescaled (scale n) 0 (magnitude n)"
  note v = numeric_int_signed [OF m_def]
  show ?thesis
  proof (rule numeric_width [OF assms(1,2), of 5 2 0, OF _ _ _ m_def], goal_cases)
    case (6 a)
    then have "TDS_GET_A2BE (array a ! 2) (array a ! 3) = m" by (simp add: bytes_at)
    then show ?case using 6 assms(3) sign_differs_range [OF 6(4), of "int m" 15 "numeric_int n"]
      by (cases "array n ! 0 = 0") (auto simp: numeric_targets int_conv_defs v)
  qed (use assms(3) in \<open>auto simp: numeric_targets int_conv_defs v\<close>)
qed

lemma numeric_int4:
  assumes "limits_ok (lim env)" "numeric_ok n" "t \<in> {SYBINT4, SYBUINT4}"
  shows "tds_convert_numeric env n t inp = int_conv t (numeric_int n)"
proof -
  define m where "m = rescaled (scale n) 0 (magnitude n)"
  note v = numeric_int_signed [OF m_def]
  show ?thesis
  proof (rule numeric_width [OF assms(1,2), of 10 4 0, OF _ _ _ m_def], goal_cases)
    case (6 a)
    then have g: "TDS_GET_A4BE (array a ! 2) (array a ! 3) (array a ! 4) (array a ! 5) = m" by (simp add: bytes_at)
    then have r: "read_i4 (array a) = word_of_int (numeric_int n)" using 6 by (simp add: read_i4_def v)
    have "sign_differs 31 (sint (read_i4 (array a))) (array n ! 0) \<longleftrightarrow> \<not> (- (2 ^ 31) \<le> numeric_int n \<and> numeric_int n < 2 ^ 31)"
      unfolding r using 6(6) by (subst sign_differs_sint32 [OF _ 6(4)], simp add: v)
        (rule sign_differs_range [OF 6(4) _ _ v], simp_all)
    moreover have "(word_of_nat m :: 32 word) = 0 \<longleftrightarrow> m = 0" using word_of_int_0_iff32 [of "int m"] 6(6) by simp
    moreover have "m = 0 \<longleftrightarrow> numeric_int n = 0" "array n ! 0 = 0 \<Longrightarrow> 0 \<le> numeric_int n" "array n ! 0 \<noteq> 0 \<Longrightarrow> numeric_int n \<le> 0"
      "- (2 ^ 32) < numeric_int n" "numeric_int n < 2 ^ 32" using 6(6) by (simp_all add: v)
    moreover have "(word_of_nat m :: 32 word) = word_of_int (numeric_int n)" if "array n ! 0 = 0" using that by (simp add: v)
    ultimately show ?case using 6(1-4) assms(3) g r
      by (elim insertE emptyE) (simp_all add: numeric_targets int_conv_defs)
  qed (use assms(3) in \<open>auto simp: numeric_targets int_conv_defs v\<close>)
qed

lemma numeric_int8:
  assumes "limits_ok (lim env)" "numeric_ok n" "t \<in> {SYBINT8, SYBUINT8}"
  shows "tds_convert_numeric env n t inp = int_conv t (numeric_int n)"
proof -
  define m where "m = rescaled (scale n) 0 (magnitude n)"
  note v = numeric_int_signed [OF m_def]
  show ?thesis
  proof (rule numeric_width [OF assms(1,2), of 20 8 0, OF _ _ _ m_def], goal_cases)
    case (6 a)
    then have g: "read_u8 (array a) = word_of_nat m" by (simp add: read_u8_def bytes_at push_bit_eq_mult)
    then have r: "read_i8 (array a) = word_of_int (numeric_int n)" using 6 by (simp add: read_i8_def v)
    have "sign_differs 63 (sint (read_i8 (array a))) (array n ! 0) \<longleftrightarrow> \<not> (- (2 ^ 63) \<le> numeric_int n \<and> numeric_int n < 2 ^ 63)"
      unfolding r using 6(6) by (subst sign_differs_sint64 [OF _ 6(4)], simp add: v)
        (rule sign_differs_range [OF 6(4) _ _ v], simp_all)
    moreover have "(word_of_nat m :: 64 word) = 0 \<longleftrightarrow> m = 0" using word_of_int_0_iff64 [of "int m"] 6(6) by simp
    moreover have "m = 0 \<longleftrightarrow> numeric_int n = 0" "array n ! 0 = 0 \<Longrightarrow> 0 \<le> numeric_int n" "array n ! 0 \<noteq> 0 \<Longrightarrow> numeric_int n \<le> 0"
      "- (2 ^ 64) < numeric_int n" "numeric_int n < 2 ^ 64" using 6(6) by (simp_all add: v)
    moreover have "(word_of_nat m :: 64 word) = word_of_int (numeric_int n)" if "array n ! 0 = 0" using that by (simp add: v)
    ultimately show ?case using 6(1-4) assms(3) g r
      by (elim insertE emptyE) (simp_all add: numeric_targets int_conv_defs)
  qed (use assms(3) in \<open>auto simp: numeric_targets int_conv_defs v\<close>)
qed

lemma convert_numeric_exact:
  assumes "limits_ok (lim env)" "numeric_ok n" "t \<in> int_types"
  shows "tds_convert_numeric env n t inp = int_conv t (numeric_int n)"
  by (rule int_types_cases [OF assms(3)])
     (simp_all add: numeric_int1 [OF assms(1,2)] numeric_int2 [OF assms(1,2)] numeric_int4 [OF assms(1,2)] numeric_int8 [OF assms(1,2)])

subsection \<open>Text to integers\<close>

lemma convert_char_exact:
  assumes "number_text negative ip fp s" "t \<in> int_types"
  shows "tds_convert_char env s t inp = int_conv t (if negative then - int (read_nat ip) else int (read_nat ip))"
proof -
  define v where "v = (if negative then - int (read_nat ip) else int (read_nat ip))"
  note r = string_to_integers [OF assms(1) v_def]
  show ?thesis unfolding v_def [symmetric]
    by (rule int_types_cases [OF assms(2)])
       (use r in \<open>simp_all add: tds_convert_char_def int_conv_defs word_of_nat_eq_iff\<close>)
qed

subsection \<open>Every source\<close>

text \<open>The number a source stands for, cut towards zero, as a relation: a text that is not a number has none.\<close>

inductive source_int :: "source \<Rightarrow> int \<Rightarrow> bool" where
  "number_text negative ip fp s \<Longrightarrow> source_int (S_char s) (if negative then - int (read_nat ip) else int (read_nat ip))"
| "source_int (S_money4 m) (quot (sint m) 10000)"
| "source_int (S_money h l) (quot (sint (money_of h l)) 10000)"
| "numeric_ok n \<Longrightarrow> source_int (S_numeric n) (numeric_int n)"
| "source_int (S_bit b) (if b \<noteq> 0 then 1 else 0)"
| "source_int (S_int1 i) (sint i)"
| "source_int (S_uint1 i) (uint i)"
| "source_int (S_int2 i) (sint i)"
| "source_int (S_uint2 i) (uint i)"
| "source_int (S_int4 i) (sint i)"
| "source_int (S_uint4 i) (uint i)"
| "source_int (S_int8 i) (sint i)"
| "source_int (S_uint8 i) (uint i)"

lemma fix_money_int: "t \<in> int_types \<Longrightarrow> fix_money t r = r"
  by (auto simp: fix_money_def int_types_def split: sum.split cr.split prod.split)

lemma int_types_not_binary: "t \<in> int_types \<Longrightarrow> t \<notin> all_binary"
  by (auto simp: int_types_def all_binary_def)

lemma sint_of_small:
  "sint (scast (w :: 8 word) :: 32 word) = sint w" "sint (scast (w2 :: 16 word) :: 32 word) = sint w2"
  "sint (ucast w :: 32 word) = uint w" "sint (ucast w2 :: 32 word) = uint w2" "uint (ucast (w4 :: 32 word) :: 64 word) = uint w4"
proof -
  show "sint (scast w :: 32 word) = sint w" "sint (scast w2 :: 32 word) = sint w2"
    using sint_of_int32 [of "sint w"] sint_of_int32 [of "sint w2"] sint_range_size [of w] sint_range_size [of w2]
    by (simp_all add: word_size)
  show "sint (ucast w :: 32 word) = uint w" "sint (ucast w2 :: 32 word) = uint w2"
    using sint_of_int32 [of "uint w"] sint_of_int32 [of "uint w2"] uint_bounded [of w] uint_bounded [of w2]
    by (simp_all add: order.trans [OF _ unsigned_greater_eq])
  show "uint (ucast w4 :: 64 word) = uint w4" by (simp add: unsigned_ucast_eq take_bit_int_eq_self uint_bounded [of w4, THEN order.strict_trans2])
qed


definition demo_env :: conv_env where
  "demo_env = \<lparr> lim = num_limits_pl, mem_ok = True, money_use_2_digits = False, size_by_type = \<lambda>_. 0,
     strtod = \<lambda>s. (False, length s), datetime_fmt = ''%Y-%m-%d %H:%M:%S.%z'', date_fmt = None, time_fmt = None,
     strftime_ext = \<lambda>_ _. ([], 1), stack_text = [] \<rparr>"

definition demo_in :: conv_in where
  "demo_in = \<lparr> cc_len = 100, cb_len = 100, n_in = demo_numeric \<rparr>"


end
