(* ===== verification/Convert_Roundtrip.thy ===== *)
theory Convert_Roundtrip
  imports Convert_Correct
begin

text \<open>
  Values that survive a conversion to text and back: binary data, money and unique identifiers; and the
  conversions to exact numbers.
\<close>

subsection \<open>Binary data\<close>

lemma hex_value_digit: "k < 16 \<Longrightarrow> hex_value (tds_hex_digits ! k) = Some (word_of_nat k)"
proof -
  have "\<forall>k \<in> set [0..<16]. hex_value (tds_hex_digits ! k) = Some (word_of_nat k)" by code_simp
  then show "k < 16 \<Longrightarrow> hex_value (tds_hex_digits ! k) = Some (word_of_nat k)" by simp
qed

lemma hex_nibbles: "unat (drop_bit 4 (b :: byte)) < 16" "unat (b AND 0xF) < 16" "push_bit 4 (drop_bit 4 b) OR (b AND 0xF) = b"
proof -
  have "unat (drop_bit 4 b) = drop_bit 4 (unat b)" by (rule unat_drop_bit_eq)
  then show "unat (drop_bit 4 b) < 16" using unat_byte_less [of b] by (simp add: drop_bit_eq_div)
  have "b AND 0xF = take_bit 4 b" by (simp add: take_bit_eq_mask mask_eq_exp_minus_1)
  then show "unat (b AND 0xF) < 16" using take_bit_nat_less_exp [of 4 "unat b"] by (simp add: unsigned_take_bit_eq)
  have "push_bit 4 (drop_bit 4 b) OR take_bit 4 b = b" by (intro bit_word_eqI) (auto simp: bit_simps)
  then show "push_bit 4 (drop_bit 4 b) OR (b AND 0xF) = b" by (simp add: take_bit_eq_mask mask_eq_exp_minus_1)
qed

lemma hex_value_byte:
  "hex_value (hex_byte b ! 0) = Some (drop_bit 4 b)" "hex_value (hex_byte b ! 1) = Some (b AND 0xF)"
  using hex_value_digit hex_nibbles [of b] by (simp_all add: hex_byte_def)

lemma char2hex_bytes:
  "even i \<Longrightarrow> i div 2 + length bs \<le> destlen \<Longrightarrow> char2hex_loop i c (concat (map hex_byte bs)) destlen dest = Some (dest @ bs)"
proof (induction bs arbitrary: i c dest)
  case (Cons b bs)
  note h = hex_value_byte [of b, unfolded hex_byte_def, simplified]
  have "(i + 2) div 2 = Suc (i div 2)" "(i + 1) div 2 = i div 2" using Cons.prems(1) by simp_all
  then show ?case
    using Cons.prems hex_nibbles(3) [of b] Cons.IH [of "i + 2" "push_bit 4 (drop_bit 4 b)" "dest @ [b]"]
    by (simp add: hex_byte_def h)
qed simp

lemma hex_text:
  "length (concat (map hex_byte bs)) = 2 * length bs"
  "set (concat (map hex_byte bs)) \<subseteq> set tds_hex_digits"
proof -
  show "length (concat (map hex_byte bs)) = 2 * length bs" by (induction bs) (simp_all add: hex_byte_def)
  have "k < 16 \<Longrightarrow> tds_hex_digits ! k \<in> set tds_hex_digits" for k by (rule nth_mem) (simp add: tds_hex_digits_def)
  then have "set (hex_byte b) \<subseteq> set tds_hex_digits" for b
    using hex_nibbles [of b] by (simp add: hex_byte_def)
  then show "set (concat (map hex_byte bs)) \<subseteq> set tds_hex_digits" by fastforce
qed

lemma tds_char2hex_bytes:
  "length bs \<le> destlen \<Longrightarrow> tds_char2hex destlen (concat (map hex_byte bs)) = Inr (length bs, bs)"
  using char2hex_bytes [of 0 bs destlen 0 "[]"] by (simp add: tds_char2hex_def hex_text(1))

lemma skip_0x_hex: "set s \<subseteq> set tds_hex_digits \<Longrightarrow> skip_0x s = s"
proof (unfold skip_0x_def, split if_split, intro conjI impI, elim conjE)
  assume s: "set s \<subseteq> set tds_hex_digits" and l: "2 \<le> length s" and x: "s ! 1 = CHR ''x'' \<or> s ! 1 = CHR ''X''"
  have "s ! 1 \<in> set s" using l by (intro nth_mem) simp
  then have "s ! 1 \<in> set tds_hex_digits" using s by blast
  with x show "drop 2 s = s" by (auto simp: tds_hex_digits_def)
qed simp

lemma strip_trailing_hex: "set s \<subseteq> set tds_hex_digits \<Longrightarrow> strip_trailing s = s"
proof -
  assume s: "set s \<subseteq> set tds_hex_digits"
  have "dropWhile (\<lambda>c. c = CHR '' '' \<or> c = NUL) (rev s) = rev s"
  proof (cases "rev s")
    case (Cons c t)
    then have "c \<in> set s" by (metis list.set_intros(1) set_rev)
    with s have "c \<in> set tds_hex_digits" by blast
    then show ?thesis using Cons by (auto simp: tds_hex_digits_def)
  qed simp
  then show ?thesis by (simp add: strip_trailing_def)
qed

text \<open>Binary data written as text by \<open>tds_convert\<close> is converted back to the same bytes.\<close>

theorem tds_convert_binary_roundtrip:
  assumes "mem_ok env" "length data \<le> 0xffffffff" "t \<in> all_char" "t' \<in> all_binary" "t' \<noteq> TDS_CONVERT_BINARY"
  shows "\<exists>s. tds_convert env (S_binary data) raw t inp = Inr (2 * length data, CR_c s) \<and>
    tds_convert env (S_char s) raw' t' inp' = Inr (length data, CR_ib data)"
proof -
  define s where "s = concat (map hex_byte data)"
  have t: "t \<notin> all_binary" "t \<noteq> TDS_CONVERT_CHAR" "t \<noteq> SYBMONEY" using assms(3) by (auto simp: type_sets)
  have h: "set s \<subseteq> set tds_hex_digits" unfolding s_def by (rule hex_text)
  show ?thesis
  proof (intro exI conjI)
    show "tds_convert env (S_binary data) raw t inp = Inr (2 * length data, CR_c s)"
      using t assms(1,3) by (simp add: tds_convert_def tds_convert_binary_def fix_money_def s_def mult.commute)
    show "tds_convert env (S_char s) raw' t' inp' = Inr (length data, CR_ib data)"
      using assms(1,2,4,5) tds_char2hex_bytes [OF assms(2)]
      by (simp add: tds_convert_def tds_convert_to_binary_def text_to_binary_def skip_0x_hex [OF h] strip_trailing_hex [OF h])
        (simp add: s_def)
  qed
qed

subsection \<open>Money\<close>

lemma read_nat_long:
  assumes "list_all is_digit d" "d = [] \<or> hd d \<noteq> CHR ''0''" "k < length d" shows "10 ^ k \<le> read_nat d"
proof (cases d)
  case (Cons c t)
  moreover have "of_char c \<noteq> (48 :: nat)" if "c \<noteq> CHR ''0''" using that of_char_eq_iff [of c "CHR ''0''", where 'a = nat] by simp
  ultimately have "1 \<le> digit_val c" using assms(1,2) by (fastforce simp: is_digit_def digit_val_def)
  with Cons have "10 ^ k \<le> digit_val c * 10 ^ length t" using assms(3) by (intro order.trans [OF power_increasing [of k "length t"]]) auto
  then show ?thesis by (simp add: Cons read_nat_Cons)
qed (use assms in simp)

text \<open>The number of ten-thousandths a text stands for.\<close>

definition money_val :: "bool \<Rightarrow> string \<Rightarrow> string option \<Rightarrow> int" where
  "money_val negative ip fp =
     (let v = int (read_nat ip * 10 ^ 4 + decimals_val 4 fp) in if negative then - v else v)"

lemma string_to_money_val:
  assumes nt: "number_text negative ip fp s"
  defines "v \<equiv> money_val negative ip fp"
  shows "string_to_money s SYBMONEY =
      (if - (2 ^ 63) \<le> v \<and> v < 2 ^ 63 then Inr (8, CR_m (word_of_int v)) else Inl TDS_CONVERT_OVERFLOW)"
    "string_to_money s SYBMONEY4 =
      (if - (2 ^ 31) \<le> v \<and> v < 2 ^ 31 then Inr (4, CR_m4 (word_of_int v)) else Inl TDS_CONVERT_OVERFLOW)"
proof -
  define d where "d = dropWhile ((=) (CHR ''0'')) ip"
  define f where "f = (case fp of None \<Rightarrow> [] | Some f \<Rightarrow> f)"
  define fr where "fr = take 4 f @ replicate (4 - length f) (CHR ''0'')"
  obtain start where st: "parse_numeric s = Some (start, negative, length d, length f)" "take (length d) start = d"
    "take (length f) (drop (length d + 1) start) = f"
    using parse_number_text [OF nt] unfolding d_def f_def by blast
  have dg: "list_all is_digit d" "list_all is_digit f"
    using nt by (auto simp: number_text_def d_def f_def list_all_iff dest: set_dropWhileD)
  have hd: "d = [] \<or> hd d \<noteq> CHR ''0''" using hd_dropWhile [of "(=) (CHR ''0'')" ip] unfolding d_def by metis
  have "take (min 4 (length f)) (drop (length d + 1) start) = take 4 f" using st(3) by (metis take_take)
  then have my: "money_digits start negative (length d) (length f) = (if negative then ''-'' else []) @ d @ fr"
    using st(2) by (simp add: money_digits_def fr_def min_def)
  have frl: "length fr = 4" "read_nat fr = decimals_val 4 fp" by (simp_all add: fr_def decimals_val_def f_def Let_def)
  have "list_all is_digit (d @ fr)" using dg by (auto simp: fr_def list_all_iff is_digit_def dest: in_set_takeD)
  moreover have "d @ fr \<noteq> []" using frl(1) by auto
  ultimately have nt': "number_text negative (d @ fr) None ((if negative then ''-'' else []) @ d @ fr)"
    unfolding number_text_def by (intro conjI exI [of _ 0] exI [of _ "if negative then ''-'' else []"]) auto
  have v: "v = (if negative then - int (read_nat (d @ fr)) else int (read_nat (d @ fr)))"
    by (simp add: v_def money_val_def read_nat_append frl d_def read_nat_zeroes)
  have i8: "string_to_int8 (money_digits start negative (length d) (length f)) =
    (if - (2 ^ 63) \<le> v \<and> v < 2 ^ 63 then Inr v else Inl TDS_CONVERT_OVERFLOW)"
    unfolding my using string_to_integers [OF nt' v] by blast
  have big: "2 ^ 63 < \<bar>v\<bar>" if "18 < length d"
  proof -
    have "10 ^ 18 \<le> read_nat d" by (rule read_nat_long [OF dg(1) hd that])
    then have "10 ^ 18 * 10 ^ 4 \<le> read_nat (d @ fr)" by (simp add: read_nat_append frl)
    then show ?thesis by (simp add: v)
  qed
  show "string_to_money s SYBMONEY =
      (if - (2 ^ 63) \<le> v \<and> v < 2 ^ 63 then Inr (8, CR_m (word_of_int v)) else Inl TDS_CONVERT_OVERFLOW)"
    using big by (cases "18 < length d") (auto simp: string_to_money_def st(1) i8)
  show "string_to_money s SYBMONEY4 =
      (if - (2 ^ 31) \<le> v \<and> v < 2 ^ 31 then Inr (4, CR_m4 (word_of_int v)) else Inl TDS_CONVERT_OVERFLOW)"
    using big by (cases "18 < length d") (auto simp: string_to_money_def st(1) i8 INT_IS_INT_def)
qed

lemma money_text:
  assumes "n < 2 ^ 64"
  shows "number_text negative (show_nat (n div 10000)) (Some (dec 4 (n mod 10000)))
      ((if negative then ''-'' else []) @ show_nat (n div 10000) @ ''.'' @ dec 4 (n mod 10000))"
    "money_val negative (show_nat (n div 10000)) (Some (dec 4 (n mod 10000))) = (if negative then - int n else int n)"
proof -
  show "number_text negative (show_nat (n div 10000)) (Some (dec 4 (n mod 10000)))
      ((if negative then ''-'' else []) @ show_nat (n div 10000) @ ''.'' @ dec 4 (n mod 10000))"
    unfolding number_text_def by (intro conjI exI [of _ 0] exI [of _ "if negative then ''-'' else []"]) (simp_all add: show_nat_digits)
  have "decimals_val 4 (Some (dec 4 (n mod 10000))) = n mod 10000" by (simp add: decimals_val_def read_dec)
  moreover have "n div 10000 * 10 ^ 4 + n mod 10000 = n" by simp
  ultimately show "money_val negative (show_nat (n div 10000)) (Some (dec 4 (n mod 10000))) = (if negative then - int n else int n)"
    unfolding money_val_def Let_def read_show_nat by (metis)
qed

lemma unat_word_of_int64: "0 \<le> k \<Longrightarrow> k < 2 ^ 64 \<Longrightarrow> unat (word_of_int k :: 64 word) = nat k"
  by (simp add: unsigned_of_int take_bit_int_eq_self)

lemma unat_word_of_int32: "0 \<le> k \<Longrightarrow> k < 2 ^ 32 \<Longrightarrow> unat (word_of_int k :: 32 word) = nat k"
  by (simp add: unsigned_of_int take_bit_int_eq_self)

lemma unat_abs64: "unat (if sint m < 0 then - m else m :: 64 word) = nat \<bar>sint m\<bar>"
  using unat_word_of_int64 [of "- sint m"] unat_word_of_int64 [of "sint m"] sint_bounds64 [of m] by (simp add: of_int_minus)

lemma unat_abs32: "unat (if sint m < 0 then - m else m :: 32 word) = nat \<bar>sint m\<bar>"
  using unat_word_of_int32 [of "- sint m"] unat_word_of_int32 [of "sint m"] sint_bounds32 [of m] by (simp add: of_int_minus)

definition money_string :: "int \<Rightarrow> string" where
  "money_string v =
     (if v < 0 then ''-'' else []) @ show_nat (nat \<bar>v\<bar> div 10000) @ ''.'' @ dec 4 (nat \<bar>v\<bar> mod 10000)"

lemma money_string_reads:
  assumes "- (2 ^ 63) \<le> v" "v < 2 ^ 63"
  shows "string_to_money (money_string v) SYBMONEY = Inr (8, CR_m (word_of_int v))"
    "- (2 ^ 31) \<le> v \<Longrightarrow> v < 2 ^ 31 \<Longrightarrow> string_to_money (money_string v) SYBMONEY4 = Inr (4, CR_m4 (word_of_int v))"
proof -
  have n: "nat \<bar>v\<bar> < 2 ^ 64" using assms by simp
  have e: "money_val (v < 0) (show_nat (nat \<bar>v\<bar> div 10000)) (Some (dec 4 (nat \<bar>v\<bar> mod 10000))) = v"
    unfolding money_text(2) [OF n] by simp
  note m = string_to_money_val [OF money_text(1) [OF n, of "v < 0"], folded money_string_def, unfolded e]
  show "string_to_money (money_string v) SYBMONEY = Inr (8, CR_m (word_of_int v))" using m(1) assms by simp
  show "- (2 ^ 31) \<le> v \<Longrightarrow> v < 2 ^ 31 \<Longrightarrow> string_to_money (money_string v) SYBMONEY4 = Inr (4, CR_m4 (word_of_int v))"
    using m(2) by simp
qed

lemma money_to_string: "tds_money_to_string h l False = money_string (sint (money_of h l))"
  unfolding tds_money_to_string_def Let_def money_of_def [symmetric] money_string_def unat_abs64 [symmetric]
  by (simp add: word_sless_alt unat_div unat_mod)

lemma money4_to_string:
  "\<not> money_use_2_digits env \<Longrightarrow> t \<in> all_char \<Longrightarrow>
    tds_convert_money4 env m t inp = string_to_result env t (money_string (sint m)) inp"
  unfolding tds_convert_money4_def Let_def money_string_def unat_abs32 [symmetric]
  by (simp add: unat_div unat_mod)

text \<open>C38: money written as text with four decimals is converted back to the same value, for every value of the type, the
  smallest one included. The halves of the 64-bit result are exchanged at the end.\<close>

theorem tds_convert_money_roundtrip:
  assumes "mem_ok env" "\<not> money_use_2_digits env" "t \<in> all_char"
  shows "(\<exists>s. tds_convert env (S_money h l) raw t inp = Inr (length s, CR_c s) \<and>
      tds_convert env (S_char s) raw' SYBMONEY inp' = Inr (8, CR_m (swap_halves (money_of h l)))) \<and>
    (\<exists>s. tds_convert env (S_money4 m) raw t inp = Inr (length s, CR_c s) \<and>
      tds_convert env (S_char s) raw' SYBMONEY4 inp' = Inr (4, CR_m4 m))"
proof (intro conjI exI)
  have t: "t \<notin> all_binary" "t \<noteq> TDS_CONVERT_CHAR" "t \<noteq> SYBMONEY" using assms(3) by (auto simp: type_sets)
  have m: "SYBMONEY \<notin> all_binary" "SYBMONEY4 \<notin> all_binary" "SYBMONEY \<notin> all_char" "SYBMONEY4 \<notin> all_char" by (simp_all add: type_sets)
  show "tds_convert env (S_money h l) raw t inp =
      Inr (length (money_string (sint (money_of h l))), CR_c (money_string (sint (money_of h l))))"
    using t assms by (simp add: tds_convert_def tds_convert_money_def string_to_result_def money_to_string fix_money_def)
  have "tds_convert_char env (money_string (sint (money_of h l))) SYBMONEY inp' = Inr (8, CR_m (money_of h l))"
    using money_string_reads(1) [of "sint (money_of h l)"] sint_bounds64 [of "money_of h l"] m by (simp add: tds_convert_char_def)
  then show "tds_convert env (S_char (money_string (sint (money_of h l)))) raw' SYBMONEY inp' =
      Inr (8, CR_m (swap_halves (money_of h l)))" using m by (simp add: tds_convert_def fix_money_def)
  show "tds_convert env (S_money4 m) raw t inp = Inr (length (money_string (sint m)), CR_c (money_string (sint m)))"
    using t assms by (simp add: tds_convert_def money4_to_string string_to_result_def fix_money_def)
  have "tds_convert_char env (money_string (sint m)) SYBMONEY4 inp' = Inr (4, CR_m4 m)"
    using money_string_reads(2) [of "sint m"] sint_bounds32 [of m] m by (simp add: tds_convert_char_def)
  then show "tds_convert env (S_char (money_string (sint m))) raw' SYBMONEY4 inp' = Inr (4, CR_m4 m)"
    using m by (simp add: tds_convert_def fix_money_def)
qed

subsection \<open>Exact numbers\<close>

definition exact_result :: "nat \<Rightarrow> int \<Rightarrow> conv_in \<Rightarrow> conv_res \<Rightarrow> bool" where
  "exact_result sc v inp r \<longleftrightarrow>
     (let p = precision (n_in inp); s = scale (n_in inp); m = rescaled sc s (nat \<bar>v\<bar>)
      in if m < 10 ^ p
         then \<exists>n'. r = Inr (35, CR_n n') \<and> numeric_ok n' \<and> precision n' = p \<and> scale n' = s \<and> magnitude n' = m \<and>
                array n' ! 0 = (if v < 0 then 1 else 0)
         else r = Inl TDS_CONVERT_OVERFLOW)"

lemma rescale_exact:
  assumes "limits_ok (lim env)" "\<not> bad_prec_scale (precision (n_in inp)) (scale (n_in inp))"
    "numeric_ok n" "scale n = sc" "magnitude n = nat \<bar>v\<bar>" "array n ! 0 = (if v < 0 then 1 else 0)"
  shows "exact_result sc v inp
    (rescale_result (tds_numeric_change_prec_scale (lim env) n (precision (n_in inp)) (scale (n_in inp))))"
  using change_prec_scale_correct [OF assms(1,3,2)] assms(4-6)
  by (auto simp: exact_result_def Let_def rescale_result_def rescale_to_def split: if_splits)

lemma int_numeric_exact:
  assumes "limits_ok (lim env)" "\<not> bad_prec_scale (precision (n_in inp)) (scale (n_in inp))" "length (array (n_in inp)) = 33" "sc \<le> 10"
    "unat num = nat \<bar>v\<bar>"
  shows "exact_result sc v inp (tds_convert_int_numeric env sc (if v < 0 then 1 else 0) num inp)"
proof -
  define sign :: byte where "sign = (if v < 0 then 1 else 0)"
  define n where "n = \<lparr> precision = 10, scale = sc, array = write_at (array (n_in inp)) 0 ([sign, 0] @ TDS_PUT_A4BE (unat num)) \<rparr>"
  have a: "array n = [sign, 0] @ TDS_PUT_A4BE (unat num) @ drop 6 (array (n_in inp))"
    by (simp add: n_def write_at_def)
  have "unat num < 2 ^ 32" using unsigned_less [of num] by simp
  moreover have "magnitude n = bytes_val (0 # TDS_PUT_A4BE (unat num))"
    unfolding magnitude_def a by (simp add: n_def tds_numeric_bytes_per_prec_def)
  ultimately have m: "magnitude n = unat num" "unat num < 10 ^ 10" using TDS_PUT_A4BE_val [of "unat num"] by (simp_all add: bytes_val_Cons)
  have "numeric_ok n"
    using m assms(3,4) a by (simp add: numeric_ok_def bad_prec_scale_def MAXPRECISION_def) (simp add: n_def sign_def)
  then have "exact_result sc v inp
    (rescale_result (tds_numeric_change_prec_scale (lim env) n (precision (n_in inp)) (scale (n_in inp))))"
    using m(1) a assms(5) by (intro rescale_exact [OF assms(1,2)]) (simp_all add: n_def sign_def)
  then show ?thesis unfolding tds_convert_int_numeric_def Let_def n_def sign_def .
qed

lemma int8_numeric_exact:
  assumes "limits_ok (lim env)" "\<not> bad_prec_scale (precision (n_in inp)) (scale (n_in inp))" "length (array (n_in inp)) = 33" "sc \<le> 10"
    "unat num = nat \<bar>v\<bar>"
  shows "exact_result sc v inp (tds_convert_int8_numeric env sc (if v < 0 then 1 else 0) num inp)"
proof -
  define sign :: byte where "sign = (if v < 0 then 1 else 0)"
  define B where "B = TDS_PUT_A4BE (unat num div 2 ^ 32) @ TDS_PUT_A4BE (unat num mod 2 ^ 32)"
  define n where "n = \<lparr> precision = 20, scale = sc, array = write_at (array (n_in inp)) 0 ([sign, 0] @ B) \<rparr>"
  have a: "array n = [sign, 0] @ B @ drop 10 (array (n_in inp))" by (simp add: n_def write_at_def B_def)
  have u: "unat num < 2 ^ 64" using unsigned_less [of num] by simp
  then have "unat num div 2 ^ 32 < 2 ^ 32" by (simp add: less_mult_imp_div_less)
  then have "bytes_val B = unat num div 2 ^ 32 * 2 ^ 32 + unat num mod 2 ^ 32"
    unfolding B_def bytes_val_append by (simp add: TDS_PUT_A4BE_val)
  moreover have "magnitude n = bytes_val (0 # B)"
    unfolding magnitude_def a by (simp add: n_def tds_numeric_bytes_per_prec_def B_def)
  ultimately have m: "magnitude n = unat num" "unat num < 10 ^ 20" using u by (simp_all add: bytes_val_Cons)
  have "numeric_ok n"
    using m assms(3,4) a by (simp add: numeric_ok_def bad_prec_scale_def MAXPRECISION_def) (simp add: n_def sign_def B_def)
  then have "exact_result sc v inp
    (rescale_result (tds_numeric_change_prec_scale (lim env) n (precision (n_in inp)) (scale (n_in inp))))"
    using m(1) a assms(5) by (intro rescale_exact [OF assms(1,2)]) (simp_all add: n_def sign_def)
  then show ?thesis unfolding tds_convert_int8_numeric_def Let_def n_def sign_def B_def .
qed

text \<open>The exact number a source holds, in units of its scale.\<close>

inductive source_exact :: "source \<Rightarrow> nat \<Rightarrow> int \<Rightarrow> bool" where
  "source_exact (S_bit b) 0 (if b \<noteq> 0 then 1 else 0)"
| "source_exact (S_int1 i) 0 (sint i)"
| "source_exact (S_uint1 i) 0 (uint i)"
| "source_exact (S_int2 j) 0 (sint j)"
| "source_exact (S_uint2 j) 0 (uint j)"
| "source_exact (S_int4 k) 0 (sint k)"
| "source_exact (S_uint4 k) 0 (uint k)"
| "source_exact (S_int8 n) 0 (sint n)"
| "source_exact (S_uint8 n) 0 (uint n)"
| "source_exact (S_money4 k) 4 (sint k)"
| "source_exact (S_money h l) 4 (sint (money_of h l))"

lemma numeric_targets_of_int:
  assumes "t \<in> {SYBNUMERIC, SYBDECIMAL}"
  shows "tds_convert_int env k t inp =
      tds_convert_int_numeric env 0 (if sint k < 0 then 1 else 0) (if sint k < 0 then - k else k) inp"
    "\<not> INT_IS_INT (sint n) \<Longrightarrow> tds_convert_int8 env n t inp =
      tds_convert_int8_numeric env 0 (if sint n < 0 then 1 else 0) (if sint n < 0 then - n else n) inp"
    "\<not> unat n \<le> 2147483647 \<Longrightarrow> tds_convert_uint8 env n t inp = tds_convert_int8_numeric env 0 0 n inp"
    "tds_convert_money4 env k t inp =
      tds_convert_int_numeric env 4 (if sint k < 0 then 1 else 0) (if sint k < 0 then - k else k) inp"
    "tds_convert_money env h l t inp = tds_convert_int8_numeric env 4 (if sint (money_of h l) < 0 then 1 else 0)
      (if sint (money_of h l) < 0 then - money_of h l else money_of h l) inp"
  using assms unfolding tds_convert_money_def Let_def money_of_def [symmetric]
  by (elim insertE emptyE;
      simp add: tds_convert_int_def tds_convert_int8_def tds_convert_uint8_def tds_convert_money4_def Let_def type_sets)+

lemma exact_targets:
  assumes "limits_ok (lim env)" "\<not> bad_prec_scale (precision (n_in inp)) (scale (n_in inp))" "length (array (n_in inp)) = 33"
    "t \<in> {SYBNUMERIC, SYBDECIMAL}"
  shows "exact_result 0 (sint k) inp (tds_convert_int env k t inp)" "exact_result 0 (sint n) inp (tds_convert_int8 env n t inp)"
    "exact_result 0 (uint n) inp (tds_convert_uint8 env n t inp)" "exact_result 4 (sint k) inp (tds_convert_money4 env k t inp)"
    "exact_result 4 (sint (money_of h l)) inp (tds_convert_money env h l t inp)"
proof -
  note e4 = int_numeric_exact [OF assms(1-3) _ unat_abs32] and e8 = int8_numeric_exact [OF assms(1-3)]
  note to = numeric_targets_of_int [OF assms(4)]
  show i: "exact_result 0 (sint k) inp (tds_convert_int env k t inp)" for k
    unfolding to by (rule e4) simp
  show "exact_result 0 (sint n) inp (tds_convert_int8 env n t inp)"
  proof (cases "INT_IS_INT (sint n)")
    case True
    then have "sint (ucast n :: 32 word) = sint n" by (intro sint_ucast_small) (simp_all add: INT_IS_INT_def)
    then show ?thesis using i [of "ucast n"] True by (simp add: tds_convert_int8_def)
  next
    case False
    show ?thesis unfolding to(2) [OF False] by (rule e8 [OF _ unat_abs64]) simp
  qed
  show "exact_result 0 (uint n) inp (tds_convert_uint8 env n t inp)"
  proof (cases "unat n \<le> 2147483647")
    case True
    then have "uint n \<le> 2147483647" by (simp add: unat_uint_le)
    then have "sint (ucast n :: 32 word) = uint n"
      using sint_of_int32 [of "uint n"] by (simp add: order.trans [OF _ unsigned_greater_eq])
    then show ?thesis using i [of "ucast n"] True by (simp add: tds_convert_uint8_def)
  next
    case False
    have "unat n = nat \<bar>uint n\<bar>" by simp
    from e8 [OF _ this, of 0] show ?thesis unfolding to(3) [OF False] by simp
  qed
  show "exact_result 4 (sint k) inp (tds_convert_money4 env k t inp)"
    unfolding to by (rule e4) simp
  show "exact_result 4 (sint (money_of h l)) inp (tds_convert_money env h l t inp)"
    unfolding to by (rule e8 [OF _ unat_abs64]) simp
qed

text \<open>C17: integers, bits and money convert to DECIMAL and NUMERIC with the wanted precision and scale without loss, except for
  the decimals the scale cuts off, and report an overflow exactly when the number does not fit.\<close>

theorem tds_convert_numeric_exact:
  assumes "limits_ok (lim env)" "source_exact src sc v" "t \<in> {SYBNUMERIC, SYBDECIMAL}"
    "\<not> bad_prec_scale (precision (n_in inp)) (scale (n_in inp))" "length (array (n_in inp)) = 33"
  shows "exact_result sc v inp (tds_convert env src raw t inp)"
proof -
  note e = exact_targets [OF assms(1,4,5,3)]
  have t: "t \<notin> all_binary" "fix_money t r = r" for r
    using assms(3) by (auto simp: type_sets fix_money_def split: sum.split cr.split prod.split)
  note d = tds_convert_def t tds_convert_bit_def tds_convert_int1_def tds_convert_uint1_def
        tds_convert_int2_def tds_convert_uint2_def tds_convert_int4_def tds_convert_uint4_def
  note s = e(1) [of "scast i" for i :: "8 word", unfolded sint_of_small] e(1) [of "ucast i" for i :: "8 word", unfolded sint_of_small]
    e(1) [of "scast i" for i :: "16 word", unfolded sint_of_small] e(1) [of "ucast i" for i :: "16 word", unfolded sint_of_small]
    e(3) [of "ucast i" for i :: "32 word", unfolded sint_of_small]
  show ?thesis
    using assms(2)
  proof cases
    case (1 b)
    then show ?thesis using e(1) [of "if b \<noteq> 0 then 1 else 0"] by (cases "b = 0") (simp_all add: d)
  qed (simp_all add: d s e)
qed

subsection \<open>Examples\<close>

lemma demo_env_simps: "mem_ok demo_env" "\<not> money_use_2_digits demo_env" "limits_ok (lim demo_env)"
  by (simp_all add: demo_env_def limits_ok_pl)

theorem tds_convert_binary_roundtrip_witness:
  "\<exists>s. tds_convert demo_env (S_char s) [] SYBVARBINARY demo_in = Inr (3, CR_ib [0, 0x7F, 0xFF])"
  using tds_convert_binary_roundtrip [of demo_env "[0, 0x7F, 0xFF]" SYBCHAR SYBVARBINARY "[]" demo_in "[]" demo_in]
  by (auto simp: demo_env_simps type_sets numeral_3_eq_3)

theorem tds_convert_money_roundtrip_witness:
  "\<exists>s. tds_convert demo_env (S_char s) [] SYBMONEY4 demo_in = Inr (4, CR_m4 (- 12345))"
  using tds_convert_money_roundtrip [of demo_env SYBCHAR 0 0 "[]" demo_in "[]" demo_in "- 12345"]
  by (auto simp: demo_env_simps type_sets)

theorem tds_convert_numeric_exact_witness:
  "\<exists>n. tds_convert demo_env (S_int2 (- 7)) [] SYBNUMERIC demo_in = Inr (35, CR_n n) \<and> magnitude n = 700"
proof -
  have "source_exact (S_int2 (- 7)) 0 (- 7)" using source_exact.intros(4) [of "- 7"] by simp
  moreover have "limits_ok (lim demo_env)" by (rule demo_env_simps)
  moreover have "numeric_ok (n_in demo_in)" by (simp add: demo_in_def demo_numeric_ok)
  ultimately have "exact_result 0 (- 7) demo_in (tds_convert demo_env (S_int2 (- 7)) [] SYBNUMERIC demo_in)"
    by (intro tds_convert_numeric_exact) (simp_all add: numeric_ok_def)
  moreover have "precision (n_in demo_in) = 5" "scale (n_in demo_in) = 2" by (simp_all add: demo_in_def demo_numeric_def)
  ultimately show ?thesis by (auto simp: exact_result_def Let_def rescaled_def)
qed

end
