(* ===== verification/Unique_Roundtrip.thy ===== *)
theory Unique_Roundtrip
  imports Convert_Roundtrip
begin

text \<open>
  Unique identifiers: what \<open>tds_convert_unique\<close> prints, \<open>tds_convert_char\<close> reads back.
\<close>

definition hex_digit :: "nat \<Rightarrow> char" where
  "hex_digit k = ''0123456789ABCDEF'' ! k"

primrec nibbles :: "nat \<Rightarrow> nat \<Rightarrow> nat list" where
  "nibbles 0 v = []"
| "nibbles (Suc w) v = v div 16 ^ w mod 16 # nibbles w v"

lemma nibbles_properties: "length (nibbles w v) = w" "list_all (\<lambda>k. k < 16) (nibbles w v)" "hex_upper w v = map hex_digit (nibbles w v)"
  by (induction w) (simp_all add: hex_upper_def hex_digit_def)

lemma foldl_nibbles: "foldl (\<lambda>n k. 16 * n + word_of_nat k) n (nibbles w v) = n * 16 ^ w + (word_of_nat (v mod 16 ^ w) :: 'a :: len word)"
proof (induction w arbitrary: n)
  case (Suc w)
  have "v mod 16 ^ Suc w = v div 16 ^ w mod 16 * 16 ^ w + v mod 16 ^ w"
    using mod_mult2_eq [of v "16 ^ w" 16] by (simp add: mult.commute)
  then have "(word_of_nat (v mod 16 ^ Suc w) :: 'a word) = word_of_nat (v div 16 ^ w mod 16) * 16 ^ w + word_of_nat (v mod 16 ^ w)"
    by (simp only: of_nat_add of_nat_mult of_nat_power of_nat_numeral)
  with Suc show ?case by (simp add: algebra_simps)
qed simp

lemma hex_digit_value: "k < 16 \<Longrightarrow> hex_value (hex_digit k) = Some (word_of_nat k)" "k < 16 \<Longrightarrow> hex_digit k \<noteq> CHR ''-''"
proof -
  have "\<forall>k \<in> set [0..<16]. hex_value (hex_digit k) = Some (word_of_nat k) \<and> hex_digit k \<noteq> CHR ''-''" by code_simp
  then show "k < 16 \<Longrightarrow> hex_value (hex_digit k) = Some (word_of_nat k)" "k < 16 \<Longrightarrow> hex_digit k \<noteq> CHR ''-''" by simp_all
qed

lemma ucast_small_nat: "k < 16 \<Longrightarrow> ucast (word_of_nat k :: byte) = (word_of_nat k :: 32 word)"
  by (simp add: unsigned_of_nat take_bit_nat_eq_self)

lemma unique_run:
  "\<lbrakk>list_all (\<lambda>k. k < 16) ds; take (length ds) (drop i src) = map hex_digit ds; i + length ds \<le> 18;
    \<And>j. i \<le> j \<Longrightarrow> j < i + length ds \<Longrightarrow> j \<noteq> 8 \<and> j \<noteq> 13\<rbrakk>
   \<Longrightarrow> unique_loop i src srclen n u = unique_loop (i + length ds) src srclen (foldl (\<lambda>n k. 16 * n + word_of_nat k) n ds) u"
proof (induction ds arbitrary: i n)
  case (Cons d ds)
  have "i < length src" using Cons.prems(2) by (cases "i < length src") auto
  then have src: "src ! i = hex_digit d" "take (length ds) (drop (Suc i) src) = map hex_digit ds"
    using Cons.prems(2) by (simp_all add: Cons_nth_drop_Suc [symmetric])
  have i: "i \<noteq> 8" "i \<noteq> 13" "i \<noteq> 18" "i \<noteq> 23" "\<not> 35 \<le> i" "\<not> 18 < i" using Cons.prems(3) Cons.prems(4) [of i] by simp_all
  have d: "unique_digit i (src ! i) n u = Some (16 * n + word_of_nat d, u)"
    using Cons.prems(1) i by (simp add: unique_digit_def src hex_digit_value ucast_small_nat push_bit_eq_mult mult.commute)
  have "unique_loop i src srclen n u = unique_loop (Suc i) src srclen (16 * n + word_of_nat d) u"
    by (subst unique_loop.simps) (simp add: i d)
  also have "\<dots> = unique_loop (Suc i + length ds) src srclen (foldl (\<lambda>n k. 16 * n + word_of_nat k) (16 * n + word_of_nat d) ds) u"
    using Cons.prems src(2) by (intro Cons.IH) auto
  finally show ?case by simp
qed simp

text \<open>A group of \<open>w\<close> digits.\<close>

lemma unique_group:
  assumes "take w (drop i src) = hex_upper w v" "v < 16 ^ w" "i + w \<le> 18" "\<And>j. i \<le> j \<Longrightarrow> j < i + w \<Longrightarrow> j \<noteq> 8 \<and> j \<noteq> 13"
  shows "unique_loop i src srclen 0 u = unique_loop (i + w) src srclen (word_of_nat v) u"
  using unique_run [of "nibbles w v" i src srclen 0 u] assms nibbles_properties [where w = w and v = v]
  by (simp add: foldl_nibbles)

lemma unique_dash:
  "src ! 8 = CHR ''-'' \<Longrightarrow> unique_loop 8 src srclen n u = unique_loop 9 src srclen 0 (u \<lparr> Data1 := n \<rparr>)"
  "src ! 13 = CHR ''-'' \<Longrightarrow> unique_loop 13 src srclen n u = unique_loop 14 src srclen 0 (u \<lparr> Data2 := ucast n \<rparr>)"
  "src ! 18 = CHR ''-'' \<Longrightarrow> unique_loop 18 src srclen n u = unique_loop 19 src srclen 0 (u \<lparr> Data3 := ucast n \<rparr>)"
  by (subst unique_loop.simps, simp)+

lemma unique_byte:
  assumes "take 2 (drop i src) = hex_upper 2 (unat b)" "odd i" "19 \<le> i" "i \<le> 33"
  shows "unique_loop i src srclen 0 u = unique_loop (i + 2) src srclen 0 (u \<lparr> Data4 := Data4 u @ [b] \<rparr>)"
proof -
  define d1 d0 where "d1 = unat b div 16 mod 16" and "d0 = unat b mod 16"
  have d: "d1 < 16" "d0 < 16" by (simp_all add: d1_def d0_def)
  have "unat b div 16 < 16" using unat_byte_less [of b] by simp
  then have "d1 * 16 + d0 = unat b" by (simp add: d1_def d0_def)
  then have "(16 * word_of_nat d1 + word_of_nat d0 :: 32 word) = word_of_nat (unat b)"
    by (metis of_nat_add of_nat_mult of_nat_numeral mult.commute)
  moreover have "take_bit 32 (unat b) = unat b" using unat_byte_less [of b] by (simp add: take_bit_nat_eq_self)
  moreover have "ucast (ucast b :: 32 word) = b" by (intro bit_word_eqI) (simp add: bit_simps)
  ultimately have b: "ucast (16 * word_of_nat d1 + word_of_nat d0 :: 32 word) = b" by simp
  have s: "take 2 (drop i src) = [hex_digit d1, hex_digit d0]"
    using assms(1) nibbles_properties(3) [of 2 "unat b"] by (simp add: numeral_2_eq_2 d1_def d0_def)
  then have "i < length src" "Suc i < length src" by (auto dest!: arg_cong [where f = length])
  then have src: "src ! i = hex_digit d1" "src ! Suc i = hex_digit d0"
    using s by (simp_all add: Cons_nth_drop_Suc [symmetric] numeral_2_eq_2)
  have i: "i \<noteq> 8" "i \<noteq> 13" "i \<noteq> 18" "\<not> 35 \<le> i" "Suc i \<noteq> 8" "Suc i \<noteq> 13" "Suc i \<noteq> 18" "Suc i \<noteq> 23" "\<not> 35 \<le> Suc i" "18 < i"
    "i \<noteq> 7" "i \<noteq> 12" "i \<noteq> 17" "i \<noteq> 22" "\<not> 34 \<le> i"
    using assms(2-4) by presburger+
  have e1: "unique_digit i (src ! i) 0 u = Some (word_of_nat d1, u)"
    using d assms(2) i by (simp add: unique_digit_def src hex_digit_value ucast_small_nat)
  from b have e2: "unique_digit (Suc i) (src ! Suc i) (word_of_nat d1) u = Some (0, u \<lparr> Data4 := Data4 u @ [b] \<rparr>)"
    using d assms(2) i by (simp add: unique_digit_def src hex_digit_value ucast_small_nat push_bit_eq_mult mult.commute)
  have "src ! i \<noteq> CHR ''-''" using d src hex_digit_value(2) by simp
  then have "unique_loop i src srclen 0 u = unique_loop (Suc i) src srclen (word_of_nat d1) u"
    by (subst unique_loop.simps) (simp add: i e1)
  also have "\<dots> = unique_loop (Suc (Suc i)) src srclen 0 (u \<lparr> Data4 := Data4 u @ [b] \<rparr>)"
    by (subst unique_loop.simps) (simp add: i e2)
  finally show ?thesis by simp
qed

lemma unique_tail:
  assumes "src ! 23 = CHR ''-''" "hd (drop 24 src) \<noteq> CHR ''-''" "36 \<le> length src"
  shows "unique_loop 23 src 36 0 u = unique_loop 23 (tl src) 35 0 u"
proof -
  have c: "tl src ! 23 \<noteq> CHR ''-''" using assms(2,3) by (simp add: nth_tl hd_drop_conv_nth)
  show ?thesis
    using assms(1) c by (cases "unique_digit 23 (tl src ! 23) 0 u") (auto simp add: unique_loop.simps [of 23])
qed

lemma length_hex_upper [simp]: "length (hex_upper w v) = w"
  by (simp add: hex_upper_def)

lemma hex_upper_chars: "c \<in> set (hex_upper w v) \<Longrightarrow> c \<noteq> CHR ''-'' \<and> c \<noteq> CHR ''{''"
proof -
  assume "c \<in> set (hex_upper w v)"
  then obtain k where k: "k < 16" "c = hex_digit k"
    using nibbles_properties(2,3) [where w = w and v = v] by (auto simp: list_all_iff)
  have "\<forall>k \<in> set [0..<16]. hex_digit k \<noteq> CHR ''-'' \<and> hex_digit k \<noteq> CHR ''{''" by code_simp
  with k show ?thesis by simp
qed

lemma unique_bytes:
  assumes "length bs \<le> 6" "take (2 * length bs) (drop i src) = concat (map (\<lambda>b. hex_upper 2 (unat b)) bs)" "odd i" "19 \<le> i"
    "i + 2 * length bs \<le> 35"
  shows "unique_loop i src srclen 0 u = unique_loop (i + 2 * length bs) src srclen 0 (u \<lparr> Data4 := Data4 u @ bs \<rparr>)"
  using assms
proof (induction bs arbitrary: i u)
  case (Cons b bs)
  have "take 2 (take (2 * length (b # bs)) (drop i src)) = hex_upper 2 (unat b)"
    unfolding Cons.prems(2) by simp
  then have b: "take 2 (drop i src) = hex_upper 2 (unat b)" by (simp add: min_def)
  have "drop 2 (take (2 * length (b # bs)) (drop i src)) = concat (map (\<lambda>b. hex_upper 2 (unat b)) bs)"
    unfolding Cons.prems(2) by simp
  then have r: "take (2 * length bs) (drop (i + 2) src) = concat (map (\<lambda>b. hex_upper 2 (unat b)) bs)"
    by (simp add: drop_take add.commute)
  have "unique_loop i src srclen 0 u = unique_loop (i + 2) src srclen 0 (u \<lparr> Data4 := Data4 u @ [b] \<rparr>)"
    using Cons.prems by (intro unique_byte [OF b]) auto
  also have "\<dots> = unique_loop (i + 2 + 2 * length bs) src srclen 0 (u \<lparr> Data4 := (Data4 u @ [b]) @ bs \<rparr>)"
    using Cons.IH [of "i + 2" "u \<lparr> Data4 := Data4 u @ [b] \<rparr>"] Cons.prems r by simp
  finally show ?case by simp
qed simp

lemma ucast_up_down [simp]: "ucast (ucast (w :: 16 word) :: 32 word) = w"
  by (intro bit_word_eqI) (simp add: bit_simps)

lemma string_to_unique_show:
  assumes "length (Data4 u) = 8"
  shows "string_to_unique (show_unique u) = Inr (16, CR_u u)"
proof -
  define A B C where "A = hex_upper 8 (unat (Data1 u))" and "B = hex_upper 4 (unat (Data2 u))" and "C = hex_upper 4 (unat (Data3 u))"
  define b1 b2 where "b1 = take 2 (Data4 u)" and "b2 = drop 2 (Data4 u)"
  define D E where "D = concat (map (\<lambda>b. hex_upper 2 (unat b)) b1)" and "E = concat (map (\<lambda>b. hex_upper 2 (unat b)) b2)"
  have len: "length A = 8" "length B = 4" "length C = 4" "length b1 = 2" "length b2 = 6" using assms by (simp_all add: A_def B_def C_def b1_def b2_def)
  have cl: "length (concat (map (\<lambda>b. hex_upper 2 (unat b)) bs)) = 2 * length bs" for bs :: "byte list" by (induction bs) simp_all
  have len': "length D = 4" "length E = 12" by (simp_all add: D_def E_def cl len)
  note len = len len'
  define src where "src = show_unique u"
  have src: "src = A @ ''-'' @ B @ ''-'' @ C @ ''-'' @ D @ ''-'' @ E"
    by (simp add: src_def show_unique_def A_def B_def C_def D_def E_def b1_def b2_def)
  have l: "length src = 36" by (simp add: src len)
  have "hd A \<in> set A" "hd E \<in> set E" using len by (metis hd_in_set length_0_conv zero_neq_numeral)+
  then have "hd A \<noteq> CHR ''{''" "hd E \<noteq> CHR ''-''" using hex_upper_chars by (auto simp: A_def E_def)
  moreover have "src ! 0 = hd A" "hd (drop 24 src) = hd E" using len by (auto simp: src nth_append hd_conv_nth simp flip: length_0_conv)
  ultimately have first: "src ! 0 \<noteq> CHR ''{''" "hd (drop 24 src) \<noteq> CHR ''-''" by simp_all
  have v: "unat (Data1 u) < 16 ^ 8" "unat (Data2 u) < 16 ^ 4" "unat (Data3 u) < 16 ^ 4"
    using unsigned_less [of "Data1 u"] unsigned_less [of "Data2 u"] unsigned_less [of "Data3 u"] by simp_all
  let ?u = unique_start
  have "unique_loop 0 src 36 0 ?u = unique_loop (0 + 8) src 36 (word_of_nat (unat (Data1 u))) ?u"
    using v by (intro unique_group) (auto simp: src len A_def [symmetric])
  also have "\<dots> = unique_loop 9 src 36 0 (?u \<lparr> Data1 := Data1 u \<rparr>)"
    by (simp add: unique_dash src nth_append len)
  also have "\<dots> = unique_loop (9 + 4) src 36 (word_of_nat (unat (Data2 u))) (?u \<lparr> Data1 := Data1 u \<rparr>)"
    using v by (intro unique_group) (auto simp: src len B_def [symmetric])
  also have "\<dots> = unique_loop 14 src 36 0 (?u \<lparr> Data1 := Data1 u, Data2 := Data2 u \<rparr>)"
    by (simp add: unique_dash src nth_append len)
  also have "\<dots> = unique_loop (14 + 4) src 36 (word_of_nat (unat (Data3 u))) (?u \<lparr> Data1 := Data1 u, Data2 := Data2 u \<rparr>)"
    using v by (intro unique_group) (auto simp: src len C_def [symmetric])
  also have "\<dots> = unique_loop 19 src 36 0 (?u \<lparr> Data1 := Data1 u, Data2 := Data2 u, Data3 := Data3 u \<rparr>)"
    by (simp add: unique_dash src nth_append len)
  also have "\<dots> = unique_loop (19 + 2 * length b1) src 36 0 (?u \<lparr> Data1 := Data1 u, Data2 := Data2 u, Data3 := Data3 u, Data4 := b1 \<rparr>)"
    by (subst unique_bytes [of b1]) (auto simp: src len D_def [symmetric] unique_start_def)
  also have "\<dots> = unique_loop 23 (tl src) 35 0 (?u \<lparr> Data1 := Data1 u, Data2 := Data2 u, Data3 := Data3 u, Data4 := b1 \<rparr>)"
    using unique_tail [OF _ first(2)] by (simp add: len l) (simp add: src nth_append len)
  also have "\<dots> = unique_loop (23 + 2 * length b2) (tl src) 35 0 (?u \<lparr> Data1 := Data1 u, Data2 := Data2 u, Data3 := Data3 u, Data4 := b1 @ b2 \<rparr>)"
  proof -
    have "take 12 (drop 23 (tl src)) = E" by (simp add: drop_Suc [symmetric] src len)
    then show ?thesis by (subst unique_bytes [of b2]) (auto simp: len E_def [symmetric])
  qed
  also have "\<dots> = Some u"
  proof -
    have "b1 @ b2 = Data4 u" by (simp add: b1_def b2_def)
    then show ?thesis by (simp add: len unique_loop.simps [of 35] unique_start_def)
  qed
  finally show ?thesis using l first(1) by (simp add: string_to_unique_def src_def [symmetric])
qed

text \<open>C39: a unique identifier written as text by \<open>tds_convert\<close> is converted back to the same identifier.\<close>

theorem tds_convert_unique_roundtrip:
  assumes "mem_ok env" "length (Data4 u) = 8" "t \<in> all_char"
  shows "\<exists>s. tds_convert env (S_unique u) raw t inp = Inr (length s, CR_c s) \<and>
    tds_convert env (S_char s) raw' SYBUNIQUE inp' = Inr (16, CR_u u)"
proof (intro exI conjI)
  have t: "t \<notin> all_binary" "t \<noteq> TDS_CONVERT_CHAR" "t \<noteq> SYBMONEY" using assms(3) by (auto simp: type_sets)
  show "tds_convert env (S_unique u) raw t inp = Inr (length (show_unique u), CR_c (show_unique u))"
    using t assms by (simp add: tds_convert_def tds_convert_unique_def string_to_result_def fix_money_def)
  show "tds_convert env (S_char (show_unique u)) raw' SYBUNIQUE inp' = Inr (16, CR_u u)"
    using string_to_unique_show [OF assms(2)] by (simp add: tds_convert_def tds_convert_char_def type_sets fix_money_def)
qed

theorem tds_convert_unique_roundtrip_witness:
  "\<exists>s. tds_convert demo_env (S_char s) [] SYBUNIQUE demo_in =
    Inr (16, CR_u \<lparr> Data1 = 0xDEADBEEF, Data2 = 1, Data3 = 2, Data4 = replicate 8 7 \<rparr>)"
  using tds_convert_unique_roundtrip
    [of demo_env "\<lparr> Data1 = 0xDEADBEEF, Data2 = 1, Data3 = 2, Data4 = replicate 8 7 \<rparr>" SYBCHAR "[]" demo_in "[]" demo_in]
  by (auto simp: demo_env_simps all_char_def)

end
