(* ===== verification/Calendar_Correct.thy ===== *)
theory Calendar_Correct
  imports Calendar
begin

text \<open>
  \<open>tds_datecrack\<close> against the Gregorian calendar. The code counts years from March, so the proof does, too.
\<close>

subsection \<open>Years from March\<close>

text \<open>The first days of the months from March on.\<close>

definition march_days :: "int list" where
  "march_days = [0, 31, 61, 92, 122, 153, 184, 214, 245, 275, 306, 337]"

definition march_lengths :: "int list" where
  "march_lengths = [31, 30, 31, 30, 31, 31, 30, 31, 30, 31, 31, 29]"

definition month_ok :: "nat \<Rightarrow> int \<Rightarrow> bool" where
  "month_ok k d \<longleftrightarrow>
     80 * (march_days ! k + (d - 1) + 31) div 2447 = int k + 1 \<and>
     march_days ! k + (d - 1) + 31 - 2447 * (int k + 1) div 80 = d \<and> march_days ! k + (d - 1) \<le> 365 \<and> 0 \<le> march_days ! k \<and>
     (306 \<le> march_days ! k + (d - 1) \<longleftrightarrow> 10 \<le> k) \<and> (march_days ! k + (d - 1) = 365 \<longleftrightarrow> k = 11 \<and> d = 29)"

lemma month_of_day:
  assumes "k < 12" "1 \<le> d" "d \<le> march_lengths ! k"
  shows "80 * (march_days ! k + (d - 1) + 31) div 2447 = int k + 1"
    "march_days ! k + (d - 1) + 31 - 2447 * (int k + 1) div 80 = d" "march_days ! k + (d - 1) \<le> 365" "0 \<le> march_days ! k"
    "306 \<le> march_days ! k + (d - 1) \<longleftrightarrow> 10 \<le> k" "march_days ! k + (d - 1) = 365 \<longleftrightarrow> k = 11 \<and> d = 29"
proof -
  have "list_all (\<lambda>k. list_all (\<lambda>d. month_ok k d) [1..march_lengths ! k]) [0..<12]" by code_simp
  then have "month_ok k d" using assms by (auto simp: list_all_iff)
  then show "80 * (march_days ! k + (d - 1) + 31) div 2447 = int k + 1"
    "march_days ! k + (d - 1) + 31 - 2447 * (int k + 1) div 80 = d" "march_days ! k + (d - 1) \<le> 365" "0 \<le> march_days ! k"
    "306 \<le> march_days ! k + (d - 1) \<longleftrightarrow> 10 \<le> k" "march_days ! k + (d - 1) = 365 \<longleftrightarrow> k = 11 \<and> d = 29"
    by (auto simp: month_ok_def)
qed

lemma div_between: "b * q \<le> a \<Longrightarrow> a < b * (q + 1) \<Longrightarrow> a div b = q" for a b q :: int
  by (rule int_div_pos_eq [of _ _ _ "a - b * q"]) (simp_all add: algebra_simps)

text \<open>Year \<open>i\<close> of a century and day \<open>x\<close> of the year from March.\<close>

lemma year_of_day:
  fixes i x :: int
  assumes "0 \<le> i" "i \<le> 99" "0 \<le> x" "x \<le> 365" "x = 365 \<longrightarrow> i mod 4 = 3"
  shows "4000 * (1461 * i div 4 + x + 1) div 1461001 = i"
proof -
  define q s where "q = 1461 * i div 4" and "s = 1461 * i mod 4"
  have qs: "4 * q = 1461 * i - s" "0 \<le> s" "s \<le> 3" using minus_mod_eq_mult_div [of "1461 * i" 4] by (simp_all add: q_def s_def)
  have "1461 * i = i + 4 * (365 * i)" by simp
  then have "s = i mod 4" unfolding s_def by (simp only: mod_mult_self2)
  then have "x = 365 \<longrightarrow> s = 3" using assms(5) by simp
  then have "4 * x \<le> 1457 + s" using qs assms(4) by (cases "x = 365") simp_all
  with qs assms(1-3) have "1461001 * i \<le> 4000 * (q + x + 1)" "4000 * (q + x + 1) < 1461001 * (i + 1)" by (simp_all add: algebra_simps)
  then show ?thesis unfolding q_def [symmetric] by (intro div_between) simp_all
qed

lemma century_of_day:
  assumes "0 \<le> l" "l \<le> 36524" "l = 36524 \<longrightarrow> n mod 4 = 0"
  shows "4 * ((146097 * n + 3) div 4 + l) div 146097 = (n :: int)"
proof -
  define q r where "q = (146097 * n + 3) div 4" and "r = (146097 * n + 3) mod 4"
  have qr: "4 * q = 146097 * n + 3 - r" "0 \<le> r" "r \<le> 3" using minus_mod_eq_mult_div [of "146097 * n + 3" 4] by (simp_all add: q_def r_def)
  have "146097 * n + 3 = n + 3 + 4 * (36524 * n)" by simp
  then have "r = (n + 3) mod 4" unfolding r_def by (simp only: mod_mult_self2)
  then have "n mod 4 = 0 \<longrightarrow> r = 3" by presburger
  then have "4 * l \<le> 146093 + r" using qr assms by (cases "l = 36524") simp_all
  with qr assms(1) have "146097 * n \<le> 4 * (q + l)" "4 * (q + l) < 146097 * (n + 1)" by (simp_all add: algebra_simps)
  then show ?thesis unfolding q_def [symmetric] by (intro div_between) simp_all
qed

text \<open>The day number of a date in years from March: \<open>k\<close> months after the March of the year \<open>100 * (n - 1) + i\<close>.\<close>

definition march_number :: "int \<Rightarrow> int \<Rightarrow> nat \<Rightarrow> int \<Rightarrow> int" where
  "march_number n i k d = (146097 * n + 3) div 4 + (1461 * i div 4 + (march_days ! k + (d - 1)))"

lemma crack_march:
  assumes "0 \<le> n" "0 \<le> i" "i \<le> 99" "k < 12" "1 \<le> d" "d \<le> march_lengths ! k"
    "k = 11 \<and> d = 29 \<longrightarrow> i mod 4 = 3 \<and> (i = 99 \<longrightarrow> n mod 4 = 0)"
  defines "y \<equiv> 100 * (n - 1) + i + (if 10 \<le> k then 1 else 0)"
  shows "crack_days (march_number n i k d - 730426) =
    (y, int k + 2 - (if 10 \<le> k then 12 else 0), d,
     (if 10 \<le> k then march_days ! k + (d - 1) - 305
      else march_days ! k + (d - 1) + 60 + (if y AND 3 = 0 \<and> (crem y 100 \<noteq> 0 \<or> crem y 400 = 0) then 1 else 0)),
     (march_number n i k d + 4) mod 7)"
proof -
  define x where "x = march_days ! k + (d - 1)"
  note m = month_of_day [OF assms(4-6), folded x_def]
  have x: "0 \<le> x" "x \<le> 365" "x = 365 \<longrightarrow> i mod 4 = 3 \<and> (i = 99 \<longrightarrow> n mod 4 = 0)" using m assms(5,7) by (simp_all add: x_def)
  define l where "l = 1461 * i div 4 + x"
  have "1461 * i div 4 \<le> 36159" "i \<noteq> 99 \<Longrightarrow> 1461 * i div 4 \<le> 35794" "0 \<le> 1461 * i div 4"
    using assms(2,3) zdiv_mono1 [of "1461 * i" "1461 * 99" 4] zdiv_mono1 [of "1461 * i" "1461 * 98" 4] by simp_all
  then have l: "0 \<le> l" "l \<le> 36524" "l = 36524 \<longrightarrow> n mod 4 = 0" using x by (auto simp: l_def)
  define C where "C = (146097 * n + 3) div 4"
  have C: "0 \<le> C" using assms(1) by (simp add: C_def)
  have N: "march_number n i k d = C + l" by (simp add: march_number_def C_def l_def x_def)
  have c: "4 * (C + l) div 146097 = n" "4000 * (l + 1) div 1461001 = i"
    using century_of_day [OF l] year_of_day [OF assms(2,3) x(1,2)] x(3) by (simp_all add: C_def l_def)
  have j: "80 * (x + 31) div 2447 = int k + 1" "x + 31 - 2447 * (int k + 1) div 80 = d" "306 \<le> x \<longleftrightarrow> 10 \<le> k" using m by simp_all
  have k: "(int k + 1) div 11 = (if 10 \<le> k then 1 else 0)" using assms(4) by (cases "k = 10 \<or> k = 11") auto
  have "C + l - 730426 + (146038 + 146097 * 4) = C + l" by simp
  moreover have "quot (4 * (C + l)) 146097 = n" using c(1) C l(1) by simp
  moreover have "C + l - quot (146097 * n + 3) 4 = l" using assms(1) by (simp add: C_def)
  moreover have "quot (4000 * (l + 1)) 1461001 = i" using c(2) l(1) by simp
  moreover have "l - quot (1461 * i) 4 = x" using assms(2) by (simp add: l_def)
  moreover have "quot (80 * (x + 31)) 2447 = int k + 1" using j(1) x(1) by simp
  moreover have "x + 31 - quot (2447 * (int k + 1)) 80 = d" using j(2) by simp
  moreover have "quot (int k + 1) 11 = (if 10 \<le> k then 1 else 0)" using k by simp
  moreover have "crem (C + l + 4) 7 = (C + l + 4) mod 7" using C l(1) by simp
  ultimately show ?thesis
    unfolding crack_days_def Let_def N x_def [symmetric] y_def
    using j(3) by (simp only:) (simp; presburger?)
qed

subsection \<open>Years from January\<close>

lemma div_step: "y div c = (y - 1) div c + (if c dvd y then 1 else 0)" if "1 < c" for c y :: int
proof -
  define q r where "q = y div c" and "r = y mod c"
  have y: "y = c * q + r" and r: "0 \<le> r" "r < c" using that by (simp_all add: q_def r_def)
  show ?thesis
  proof (cases "r = 0")
    case True
    have "(y - 1) div c = q - 1" using that y True by (intro int_div_pos_eq [of _ _ _ "c - 1"]) (simp_all add: algebra_simps)
    moreover have "c dvd y" using True by (simp add: r_def dvd_eq_mod_eq_0)
    ultimately show ?thesis by (simp add: q_def)
  next
    case False
    have "(y - 1) div c = q" using that y r False by (intro int_div_pos_eq [of _ _ _ "r - 1"]) simp_all
    moreover have "\<not> c dvd y" using False by (simp add: r_def dvd_eq_mod_eq_0)
    ultimately show ?thesis by (simp add: q_def)
  qed
qed

lemma leap_years_step: "leap_years y = leap_years (y - 1) + (if leap_year y then 1 else 0)"
proof -
  have gen: "(if p4 then 1 else 0) - (if p100 then 1 else 0) + (if p400 then 1 else 0) = (if p4 \<and> (\<not> p100 \<or> p400) then 1 else (0 :: int))"
    if "p400 \<Longrightarrow> p100" "p100 \<Longrightarrow> p4" for p4 p100 p400 using that by (cases p4; cases p100; cases p400; simp)
  have s': "y div 4 = (y - 1) div 4 + (if 4 dvd y then 1 else 0)" "y div 100 = (y - 1) div 100 + (if 100 dvd y then 1 else 0)"
    "y div 400 = (y - 1) div 400 + (if 400 dvd y then 1 else 0)" by (rule div_step, simp)+
  have d: "400 dvd y \<Longrightarrow> 100 dvd y" "100 dvd y \<Longrightarrow> 4 dvd y" by (erule dvd_trans [rotated], simp)+
  have "(a + a') - (b + b') + (c + c') = a - b + c + (a' - b' + c')" for a b c a' b' c' :: int by simp
  then have "leap_years y = leap_years (y - 1) + ((if 4 dvd y then 1 else 0) - (if 100 dvd y then 1 else 0) + (if 400 dvd y then 1 else 0))"
    unfolding leap_years_def s' .
  also have "\<dots> = leap_years (y - 1) + (if leap_year y then 1 else 0)"
    unfolding leap_year_def by (simp only: gen [OF d])
  finally show ?thesis .
qed

lemma march_leap_years:
  assumes "0 \<le> i" "i \<le> 99"
  shows "(146097 * n + 3) div 4 + 1461 * i div 4 = 365 * (100 * (n - 1) + i) + leap_years (100 * (n - 1) + i) + 36525"
proof -
  define y where "y = 100 * (n - 1) + i"
  have "y div 100 = n - 1" using assms unfolding y_def by (intro div_between) simp_all
  moreover have "y div 400 = (n - 1) div 4" using calculation zdiv_zmult2_eq [of 4 y 100] by simp
  moreover have "y div 4 = 25 * (n - 1) + i div 4" unfolding y_def by simp
  moreover have "(146097 * n + 3) div 4 = 36524 * n + ((n - 1) div 4 + 1)"
  proof -
    have "146097 * n + 3 = (n - 1) + 4 * (36524 * n + 1)" by simp
    then show ?thesis by (simp only: div_mult_self2)
  qed
  moreover have "1461 * i div 4 = 365 * i + i div 4"
  proof -
    have "1461 * i = i + 4 * (365 * i)" by simp
    then show ?thesis by (simp only: div_mult_self2)
  qed
  moreover have "365 * y = 36500 * (n - 1) + 365 * i" by (simp add: y_def)
  ultimately have e: "(146097 * n + 3) div 4 + 1461 * i div 4 = 36524 * n + ((n - 1) div 4 + 1) + (365 * i + i div 4)"
    "365 * y + (y div 4 - y div 100 + y div 400) + 36525 =
      36500 * (n - 1) + 365 * i + (25 * (n - 1) + i div 4 - (n - 1) + (n - 1) div 4) + 36525"
    by (simp_all only:)
  show ?thesis unfolding y_def [symmetric] leap_years_def e by simp
qed

text \<open>A date counted from January and from March.\<close>

lemma day_number_march:
  assumes "valid_date y m d"
  defines "Y \<equiv> (if 2 \<le> m then y else y - 1)" and "k \<equiv> (if 2 \<le> m then m - 2 else m + 10)"
  defines "n \<equiv> Y div 100 + 1" and "i \<equiv> Y mod 100"
  shows "day_number y m d = march_number n i k d - 730426"
    "day_of_year y m d = (if 2 \<le> m then 59 + march_days ! k + d + (if leap_year y then 1 else 0) else march_days ! k + d - 306)"
    "k < 12" "d \<le> march_lengths ! k" "k = 11 \<and> d = 29 \<longrightarrow> leap_year y" "2 \<le> m \<longleftrightarrow> k < 10"
proof -
  have Y: "100 * (n - 1) + i = Y" by (simp add: n_def i_def)
  have "m \<in> {0, 1, 2, 3, 4, 5, 6, 7, 8, 9, 10, 11}" using assms(1) unfolding valid_date_def by (simp, presburger)
  then show D: "day_of_year y m d = (if 2 \<le> m then 59 + march_days ! k + d + (if leap_year y then 1 else 0) else march_days ! k + d - 306)"
    and "k < 12" "d \<le> march_lengths ! k" "k = 11 \<and> d = 29 \<longrightarrow> leap_year y" "2 \<le> m \<longleftrightarrow> k < 10"
    using assms(1) unfolding k_def
    by (elim insertE emptyE;
        simp add: day_of_year_def month_lengths_def march_days_def march_lengths_def valid_date_def eval_nat_numeral split: if_splits)+
  have M: "march_number n i k d = 365 * Y + leap_years Y + 36525 + (march_days ! k + (d - 1))"
    unfolding march_number_def using march_leap_years [of i n] Y by (simp add: i_def)
  have "leap_years 1899 = 460" by (simp add: leap_years_def)
  then show "day_number y m d = march_number n i k d - 730426"
    unfolding M day_number_def D using leap_years_step [of y] by (simp add: Y_def)
qed

lemma and_3: "y AND 3 = y mod 4" for y :: int
  using take_bit_eq_mask [of 2 y] by (simp add: mask_eq_exp_minus_1 take_bit_eq_mod)

lemma leap_test: "0 \<le> y \<Longrightarrow> y AND 3 = 0 \<and> (crem y 100 \<noteq> 0 \<or> crem y 400 = 0) \<longleftrightarrow> leap_year y"
  by (simp add: and_3 leap_year_def dvd_eq_mod_eq_0)

lemma crack_day_number:
  assumes "valid_date y m d" "0 \<le> y"
  shows "crack_days (day_number y m d) = (y, int m, d, day_of_year y m d, (day_number y m d + 1) mod 7)"
proof -
  define Y where "Y = (if 2 \<le> m then y else y - 1)"
  define k where "k = (if 2 \<le> m then m - 2 else m + 10)"
  define n i where "n = Y div 100 + 1" and "i = Y mod 100"
  note D = day_number_march [OF assms(1), folded Y_def k_def, folded n_def i_def]
  have Y: "Y = 100 * (n - 1) + i" by (simp add: n_def i_def)
  have "- 1 \<le> Y" using assms(2) by (simp add: Y_def)
  then have n: "0 \<le> n" using zdiv_mono1 [of "- 1" Y 100] by (simp add: n_def)
  have i: "0 \<le> i" "i \<le> 99" by (simp_all add: i_def)
  have y: "100 * (n - 1) + i + (if 10 \<le> k then 1 else 0) = y" using D(6) Y by (auto simp: Y_def split: if_splits)
  have leap: "i mod 4 = 3 \<and> (i = 99 \<longrightarrow> n mod 4 = 0)" if "k = 11 \<and> d = 29"
  proof -
    have l: "leap_year (100 * (n - 1) + i + 1)" using D(5) that y by simp
    have "4 dvd i + 1"
    proof -
      have "100 * (n - 1) + i + 1 = (i + 1) + 4 * (25 * (n - 1))" by simp
      then show ?thesis using l unfolding leap_year_def by (metis dvd_add_times_triv_right_iff mult.commute)
    qed
    moreover have "4 dvd n" if "i = 99"
    proof -
      have "100 * (n - 1) + i + 1 = 100 * n" using that by simp
      then have "400 dvd 100 * n" using l unfolding leap_year_def by simp
      then show ?thesis by presburger
    qed
    ultimately show ?thesis by presburger
  qed
  have "(march_number n i k d + 4) mod 7 = (day_number y m d + 1) mod 7"
  proof -
    have "march_number n i k d + 4 = (day_number y m d + 1) + 7 * 104347" using D(1) by simp
    then show ?thesis by (simp only: mod_mult_self2)
  qed
  moreover have "(if 10 \<le> k then march_days ! k + (d - 1) - 305
      else march_days ! k + (d - 1) + 60 + (if y AND 3 = 0 \<and> (crem y 100 \<noteq> 0 \<or> crem y 400 = 0) then 1 else 0)) = day_of_year y m d"
    unfolding leap_test [OF assms(2)] D(2) using D(6) by auto
  moreover have "int k + 2 - (if 10 \<le> k then 12 else 0) = int m" using D(6) by (auto simp: k_def)
  moreover have "1 \<le> d" using assms(1) by (simp add: valid_date_def)
  note c = crack_march [OF n i D(3) this D(4) impI [OF leap], unfolded y D(1) [symmetric]]
  ultimately show ?thesis unfolding c by (simp only:)
qed

end
