(* ===== verification/Dates_Correct.thy ===== *)
theory Dates_Correct
  imports Calendar_Correct Convert_Correct
begin

text \<open>
  What the date code computes: every date type is taken apart into its Gregorian date and its time, and a date that is
  written as an ISO text is read back.
\<close>

subsection \<open>Every day has a date\<close>

lemma leap_years_Suc: "leap_years y = leap_years (y - 1) + (if leap_year y then 1 else 0)"
proof -
  have step: "y div k = (y - 1) div k + (if k dvd y then 1 else 0)" if "0 < k" for k :: int
  proof (cases "k dvd y")
    case True
    then obtain q where q: "y = k * q" ..
    have "k * (q - 1) \<le> k * q - 1" "k * q - 1 < k * (q - 1 + 1)" using that by (simp_all add: right_diff_distrib)
    then have "(k * q - 1) div k = q - 1" by (rule div_between)
    moreover have "y div k = q" using that q by simp
    ultimately show ?thesis using True by (simp only: q) simp
  next
    case False
    define q where "q = y div k"
    have r: "k * q + y mod k = y" "0 \<le> y mod k" "y mod k < k" using that by (simp_all add: q_def)
    moreover have "y mod k \<noteq> 0" using False by (simp add: dvd_eq_mod_eq_0)
    ultimately have "k * q \<le> y - 1" "y - 1 < k * q + k" by linarith+
    then have "(y - 1) div k = q" by (intro div_between) (simp_all add: algebra_simps)
    then show ?thesis using False by (simp add: q_def)
  qed
  have d: "(100 :: int) dvd y \<Longrightarrow> 4 dvd y" "(400 :: int) dvd y \<Longrightarrow> 100 dvd y" "(400 :: int) dvd y \<Longrightarrow> 4 dvd y"
    by (auto elim: dvd_trans [rotated])
  have add: "(a + (if P then 1 else 0)) - (b + (if Q then 1 else 0)) + (c + (if R then 1 else 0)) =
      a - b + c + (if P \<and> (\<not> Q \<or> R) then 1 else 0)" if "Q \<Longrightarrow> P" "R \<Longrightarrow> Q" for a b c :: int and P Q R
    using that by (cases P; cases Q; cases R) simp_all
  have "0 < (4 :: int)" "0 < (100 :: int)" "0 < (400 :: int)" by simp_all
  note e = this [THEN step]
  show ?thesis unfolding leap_years_def leap_year_def e by (rule add) (rule d, assumption)+
qed

lemma month_lengths_simps:
  "length (month_lengths y) = 12" "month_lengths y ! 0 = 31" "month_lengths y ! 11 = 31"
  "sum_list (take 12 (month_lengths y)) = 365 + (if leap_year y then 1 else 0)"
  by (simp_all add: month_lengths_def)

lemma next_day:
  assumes "valid_date y m d"
  obtains y' m' d' where "valid_date y' m' d'" "y \<le> y'" "day_number y' m' d' = day_number y m d + 1"
proof (cases "d < month_lengths y ! m")
  case True
  with assms that [of y m "d + 1"] show thesis by (simp add: valid_date_def day_number_def day_of_year_def)
next
  case False
  with assms have m: "m < 12" "d = month_lengths y ! m" by (simp_all add: valid_date_def)
  show thesis
  proof (cases "m = 11")
    case True
    have "sum_list (take 11 (month_lengths y)) = 334 + (if leap_year y then 1 else 0)" by (simp add: month_lengths_def)
    then show thesis using m True that [of "y + 1" 0 1]
      by (simp add: valid_date_def day_number_def day_of_year_def month_lengths_simps leap_years_Suc [of y])
  next
    case neq: False
    then have "1 \<le> month_lengths y ! Suc m"
      using m(1) nth_mem [of "Suc m" "month_lengths y"] by (auto simp: month_lengths_def split: if_splits)
    then show thesis using m neq that [of y "Suc m" 1]
      by (simp add: valid_date_def day_number_def day_of_year_def month_lengths_simps take_Suc_conv_app_nth)
  qed
qed

lemma day_has_date:
  assumes "day_number 0 0 1 \<le> n"
  obtains y m d where "valid_date y m d" "0 \<le> y" "day_number y m d = n"
proof -
  have "\<exists>y m d. valid_date y m d \<and> 0 \<le> y \<and> day_number y m d = n"
    using assms
  proof (induction n rule: int_ge_induct)
    case base
    have "valid_date 0 0 1" by (simp add: valid_date_def month_lengths_def)
    then show ?case by fastforce
  next
    case (step n)
    then obtain y m d where "valid_date y m d" "0 \<le> y" "day_number y m d = n" by blast
    then show ?case by (meson next_day order_trans)
  qed
  with that show thesis by blast
qed

text \<open>\<open>crack_days\<close> gives the date of a day number.\<close>

lemma crack_days_correct:
  assumes "day_number 0 0 1 \<le> n" "crack_days n = (y, mon, d, yd, wd)"
  shows "valid_date y (nat mon) d \<and> day_number y (nat mon) d = n \<and> 0 \<le> mon \<and> mon < 12 \<and> yd = day_of_year y (nat mon) d \<and>
    wd = (n + 1) mod 7"
proof -
  obtain y' m' d' where v: "valid_date y' m' d'" "0 \<le> y'" "day_number y' m' d' = n" using day_has_date [OF assms(1)] .
  with crack_day_number [OF v(1,2)] assms(2) show ?thesis by (auto simp: valid_date_def)
qed

subsection \<open>\<open>tds_datecrack\<close>\<close>

text \<open>The local date and time a value stands for: the days from 1900-01-01 and the time of the day in units of 100 ns, and its
  time zone. The types in 1/300 seconds are rounded to milliseconds.\<close>

definition day_ticks :: nat where
  "day_ticks = 864000000000"

definition date_meaning :: "date_info \<Rightarrow> (int \<times> nat \<times> int) option" where
  "date_meaning di =
     (case di of
        Di_msdate dta \<Rightarrow> Some (sint (dta_date dta), 0, 0)
      | Di_mstime dta \<Rightarrow> Some (0, unat (dta_time dta), 0)
      | Di_msdatetime2 dta \<Rightarrow> Some (sint (dta_date dta), unat (dta_time dta), 0)
      | Di_msdatetimeoffset dta \<Rightarrow>
          let t = int (unat (dta_time dta)) + sint (offset dta) * 600000000
          in Some (sint (dta_date dta) + t div int day_ticks, nat (t mod int day_ticks), sint (offset dta))
      | Di_datetime days time \<Rightarrow> Some (sint days, (unat time * 10 + 1) div 3 * 10000, 0)
      | Di_datetime4 days mins \<Rightarrow> Some (int (unat days), unat mins * 600000000, 0)
      | Di_date date \<Rightarrow> Some (sint date, 0, 0)
      | Di_time time \<Rightarrow> Some (0, (unat time * 10 + 1) div 3 * 10000, 0)
      | Di_bigtime t \<Rightarrow> Some (0, unat t * 10, 0)
      | Di_bigdatetime t \<Rightarrow> Some (int (unat t div 86400000000) - 693961, unat t mod 86400000000 * 10, 0)
      | Di_other \<Rightarrow> None)"

text \<open>The time of the day of a value is less than a day, and its offset less than a day in each direction.\<close>

definition proper_time :: "date_info \<Rightarrow> bool" where
  "proper_time di \<longleftrightarrow>
     (case di of
        Di_mstime dta \<Rightarrow> unat (dta_time dta) < day_ticks
      | Di_msdatetime2 dta \<Rightarrow> unat (dta_time dta) < day_ticks
      | Di_msdatetimeoffset dta \<Rightarrow> unat (dta_time dta) < day_ticks \<and> \<bar>sint (offset dta)\<bar> < 1440
      | Di_datetime days time \<Rightarrow> unat time < 86400 * 300
      | Di_datetime4 days mins \<Rightarrow> unat mins < 1440
      | Di_time time \<Rightarrow> unat time < 86400 * 300
      | Di_bigtime t \<Rightarrow> unat t < 86400000000
      | _ \<Rightarrow> True)"

text \<open>What a cracked date says.\<close>

definition record_meaning :: "tdsdaterec \<Rightarrow> int \<times> nat \<times> int" where
  "record_meaning r =
     (day_number (year r) (nat (month r)) (day r),
      nat (((hour r * 60 + minute r) * 60 + second r) * 10000000 + decimicrosecond r), timezone r)"

definition proper_record :: "tdsdaterec \<Rightarrow> bool" where
  "proper_record r \<longleftrightarrow>
     0 \<le> month r \<and> month r < 12 \<and> valid_date (year r) (nat (month r)) (day r) \<and> quarter r = month r div 3 \<and>
     dayofyear r = day_of_year (year r) (nat (month r)) (day r) \<and> weekday r = (fst (record_meaning r) + 1) mod 7 \<and>
     0 \<le> hour r \<and> hour r < 24 \<and> 0 \<le> minute r \<and> minute r < 60 \<and> 0 \<le> second r \<and> second r < 60 \<and>
     0 \<le> decimicrosecond r \<and> decimicrosecond r < 10000000"

text \<open>The parts of a time of the day.\<close>

definition parts_ok :: "nat \<Rightarrow> nat \<times> nat \<times> nat \<Rightarrow> bool" where
  "parts_ok ticks p \<longleftrightarrow>
     (case p of (dt_time, secs, dms) \<Rightarrow>
        secs < 60 \<and> dms < 10000000 \<and> dt_time < 1440 \<and> ticks = (dt_time * 60 + secs) * 10000000 + dms)"

lemma parts_okI: "s < 86400 \<Longrightarrow> d < 10000000 \<Longrightarrow> parts_ok (s * 10000000 + d) (s div 60, s mod 60, d)"
  unfolding parts_ok_def prod.case div_mult_mod_eq by (simp add: less_mult_imp_div_less)

lemma split_dta_ok:
  assumes "unat (dta_time dta) < day_ticks" shows "parts_ok (unat (dta_time dta)) (split_dta dta)"
proof -
  define s where "s = unat (dta_time dta) div 10000000"
  have "s < 86400" using assms by (simp add: s_def day_ticks_def less_mult_imp_div_less)
  moreover have "s * 10000000 + unat (dta_time dta) mod 10000000 = unat (dta_time dta)" by (simp add: s_def)
  ultimately show ?thesis
    using parts_okI [of s "unat (dta_time dta) mod 10000000"] by (simp add: split_dta_def s_def [symmetric])
qed

lemma ms_of_300ths:
  fixes t :: nat
  shows "(t * 10 + 1) div 3 = 1000 * (t div 300) + (t mod 300 * 10 + 1) div 3" "(t mod 300 * 10 + 1) div 3 < 1000"
proof -
  define q r where "q = t div 300" and "r = t mod 300"
  have t: "t = 300 * q + r" "r < 300" by (simp_all add: q_def r_def)
  have "t * 10 + 1 = (r * 10 + 1) + 3 * (1000 * q)" using t by simp
  then have "(t * 10 + 1) div 3 = 1000 * q + (r * 10 + 1) div 3" by (simp only: div_mult_self2)
  then show "(t * 10 + 1) div 3 = 1000 * (t div 300) + (t mod 300 * 10 + 1) div 3" by (simp add: q_def r_def)
  show "(t mod 300 * 10 + 1) div 3 < 1000" using t(2) by (simp add: r_def less_mult_imp_div_less)
qed

lemma split_300_ok:
  assumes "t < 86400 * 300" shows "parts_ok ((t * 10 + 1) div 3 * 10000) (split_300 t)"
proof -
  define q r where "q = t div 300" and "r = t mod 300"
  have t: "t = 300 * q + r" "q < 86400" "r < 300" using assms by (simp_all add: q_def r_def less_mult_imp_div_less)
  have e: "(r * 1000 + 150) div 300 = (r * 10 + 1) div 3"
  proof -
    have "(r * 1000 + 150) div 300 = (r * 20 + 3) div 6" using div_mult_mult1 [of 50 "r * 20 + 3" 6] by (simp add: algebra_simps)
    also have "\<dots> = (r * 10 + 1) div 3" by presburger
    finally show ?thesis .
  qed
  have "(t * 10 + 1) div 3 = 1000 * q + (r * 10 + 1) div 3" "(r * 10 + 1) div 3 < 1000"
    using ms_of_300ths [of t] by (simp_all add: q_def r_def)
  then show ?thesis
    using parts_okI [of q "(r * 10 + 1) div 3 * 10000"] t(2)
    unfolding split_300_def Let_def q_def [symmetric] r_def [symmetric] e by (simp only: add_mult_distrib) (simp add: ac_simps)
qed

lemma offset_parts:
  assumes "parts_ok t (dt, secs, dms)" "\<bar>z\<bar> < 1440"
  defines "x \<equiv> int t + z * 600000000" and "u \<equiv> nat ((int dt + 1440 + z) mod 2 ^ 32)"
  shows "parts_ok (nat (x mod int day_ticks)) (u mod 1440, secs, dms)" "n - 1 + int (u div 1440) = n + x div int day_ticks"
proof -
  have p: "secs < 60" "dms < 10000000" "dt < 1440" "t = (dt * 60 + secs) * 10000000 + dms" using assms(1) by (simp_all add: parts_ok_def)
  define r where "r = int secs * 10000000 + int dms"
  have r: "0 \<le> r" "r < 600000000" using p by (simp_all add: r_def)
  have x: "x = (int dt + z) * 600000000 + r" using p(4) by (simp add: x_def r_def algebra_simps)
  have u: "int u = int dt + z + 1440" using p(3) assms(2) by (simp add: u_def)
  have "x div 600000000 = int dt + z" "x mod 600000000 = r" using r unfolding x by (simp_all only: mod_mult_self3 div_mult_self3) simp_all
  moreover have "int day_ticks = 600000000 * 1440" by (simp add: day_ticks_def)
  ultimately have xd: "x div int day_ticks = (int dt + z) div 1440" and
    xm: "x mod int day_ticks = 600000000 * ((int dt + z) mod 1440) + r"
    by (simp_all only: zdiv_zmult2_eq zmod_zmult2_eq zero_le_numeral)
  have um: "int (u mod 1440) = (int dt + z) mod 1440" and ud: "int (u div 1440) = (int dt + z) div 1440 + 1"
    by (simp_all add: zmod_int zdiv_int u)
  show "n - 1 + int (u div 1440) = n + x div int day_ticks" by (simp add: ud xd)
  have "int ((u mod 1440 * 60 + secs) * 10000000 + dms) = x mod int day_ticks"
    unfolding xm r_def um [symmetric] by simp
  then show "parts_ok (nat (x mod int day_ticks)) (u mod 1440, secs, dms)"
    using p(1,2) by (simp add: parts_ok_def flip: int_int_eq)
qed

lemma crack_parts_proper:
  assumes "date_meaning di = Some (n, ticks, z)" "proper_time di"
  shows "\<exists>p. crack_parts di = Some (n, fst p, fst (snd p), snd (snd p), z) \<and> parts_ok ticks p"
proof -
  note d = date_meaning_def crack_parts_def proper_time_def
  have zero: "parts_ok 0 (0, 0, 0)" by (simp add: parts_ok_def)
  show ?thesis
  proof (cases di)
    case (Di_mstime dta)
    then show ?thesis using assms split_dta_ok [of dta] by (auto simp: d split: prod.split)
  next
    case (Di_msdatetime2 dta)
    then show ?thesis using assms split_dta_ok [of dta] by (auto simp: d split: prod.split)
  next
    case (Di_msdatetimeoffset dta)
    obtain dt secs dms where s: "split_dta dta = (dt, secs, dms)" by (cases "split_dta dta")
    have "parts_ok (unat (dta_time dta)) (dt, secs, dms)" "\<bar>sint (offset dta)\<bar> < 1440"
      using assms split_dta_ok [of dta] Di_msdatetimeoffset by (simp_all add: d s)
    from offset_parts [OF this] show ?thesis using assms(1) Di_msdatetimeoffset by (auto simp: d s Let_def)
  next
    case (Di_datetime days time)
    then show ?thesis using assms split_300_ok [of "unat time"] by (auto simp: d split: prod.split)
  next
    case (Di_datetime4 days mins)
    then show ?thesis using assms by (auto simp: d parts_ok_def)
  next
    case (Di_time time)
    then show ?thesis using assms split_300_ok [of "unat time"] by (auto simp: d split: prod.split)
  next
    case (Di_bigtime t)
    define s where "s = unat t div 1000000"
    have "s * 1000000 + unat t mod 1000000 = unat t" unfolding s_def by (rule div_mult_mod_eq)
    then have "unat t * 10 = s * 10000000 + unat t mod 1000000 * 10" by linarith
    moreover have "s < 86400" using assms Di_bigtime by (simp add: s_def d less_mult_imp_div_less)
    ultimately show ?thesis
      using assms Di_bigtime parts_okI [of s "unat t mod 1000000 * 10"] by (auto simp: d s_def [symmetric] Let_def)
  next
    case (Di_bigdatetime t)
    define s where "s = unat t div 1000000"
    have b: "unat t < 2 ^ 64" using unsigned_less [of t] by simp
    have "s div 60 div 1440 = unat t div 86400000000" unfolding s_def by (simp flip: div_mult2_eq)
    moreover have "unat t div 86400000000 < 2147483648" using b by (simp add: less_mult_imp_div_less)
    then have "sint (word_of_int (int (unat t div 86400000000) - 693961) :: 32 word) = int (unat t div 86400000000) - 693961"
      by (intro sint_of_int32) linarith+
    ultimately have days: "sint (word_of_int (int (s div 60 div 1440) - BIGDATETIME_BIAS) :: 32 word) =
      int (unat t div 86400000000) - 693961" by (simp only: BIGDATETIME_BIAS_def)
    define u where "u = s mod 86400"
    have "u < 86400" by (simp add: u_def)
    moreover have "unat t mod 86400000000 * 10 = u * 10000000 + unat t mod 1000000 * 10"
      using mod_mult2_eq [of "unat t" 1000000 86400] by (simp add: u_def s_def)
    moreover have "s div 60 mod 1440 = u div 60" "s mod 60 = u mod 60" using mod_mult2_eq [of s 60 1440] by (simp_all add: u_def)
    ultimately show ?thesis
      using assms Di_bigdatetime parts_okI [of u "unat t mod 1000000 * 10"]
      by (auto simp: d s_def [symmetric] Let_def days simp del: of_int_diff of_int_of_nat_eq)
  qed (use assms zero in \<open>auto simp: d\<close>)
qed

lemma crack_correct:
  assumes "date_meaning di = Some (n, ticks, z)" "proper_time di" "day_number 0 0 1 \<le> n"
  shows "\<exists>r. tds_datecrack di = Some r \<and> proper_record r \<and> record_meaning r = (n, ticks, z)"
proof -
  obtain dt secs dms where p: "crack_parts di = Some (n, dt, secs, dms, z)" "parts_ok ticks (dt, secs, dms)"
    using crack_parts_proper [OF assms(1,2)] by auto
  obtain y mon d yd wd where c: "crack_days n = (y, mon, d, yd, wd)" by (cases "crack_days n")
  note crack_days_correct [OF assms(3) c]
  moreover have "dt div 60 < 24" using p(2) by (simp add: parts_ok_def less_mult_imp_div_less)
  moreover have "int (dt div 60) * 60 + int (dt mod 60) = int dt"
    by (simp add: zdiv_int zmod_int div_mult_mod_eq)
  ultimately show ?thesis using p(2)
    by (auto simp: tds_datecrack_def p(1) c proper_record_def record_meaning_def parts_ok_def nat_add_distrib nat_mult_distrib)
qed



subsection \<open>The format buffer of \<open>tds_strftime\<close>\<close>

lemma rewrite_spec_length:
  assumes "rewrite_spec dr d before z p s = (before', z', p', r)" "z \<or> p \<le> 7"
  shows "(z' \<or> p' \<le> 7) \<and> length before' + length r + (if z' then 1 else 7) \<le> length before + length s + (if z then 3 else 9)"
proof -
  have f: "length (fraction dr k) = min k 9" for k by (simp add: fraction_def)
  have t: "length (two_digit k) = 2" for k by (simp add: two_digit_def Let_def)
  have d: "nat (digit_of d) \<le> 9" if "is_digit d" using that by (simp add: is_digit_def digit_of_def nat_le_iff)
  have s: "length s = length (drop 1 s) + 1" if "deref s = CHR ''z''" using that by (cases s) simp_all
  show ?thesis
    using assms d s unfolding rewrite_spec_def Let_def by (auto simp: f t split: if_splits)
qed

lemma rewrite_format_length:
  "z \<or> p \<le> 7 \<Longrightarrow> length (rewrite_format dr before z p s) \<le> length before + length s + (if z then 1 else 7)"
proof (induction dr before z p s rule: rewrite_format.induct)
  case (2 dr before z p c s)
  show ?case
  proof (cases "c \<noteq> CHR ''%''")
    case True
    then show ?thesis using 2(1) 2(3) by (simp add: rewrite_format.simps)
  next
    case False
    show ?thesis
    proof (cases s)
      case Nil
      then show ?thesis using False by (simp add: rewrite_format.simps)
    next
      case (Cons d s')
      obtain before' z' p' r where q: "rewrite_spec dr d before z p s' = (before', z', p', r)" by (metis prod_cases4)
      note l = rewrite_spec_length [OF q 2(3)]
      have "length (rewrite_format dr before' z' p' r) \<le> length before' + length r + (if z' then 1 else 7)"
        using 2(2) [OF False Cons q [symmetric] refl refl] l by blast
      also have "\<dots> \<le> length before + length s' + (if z then 3 else 9)" using l by blast
      also have "\<dots> = length before + length (c # s) + (if z then 1 else 7)" by (simp add: Cons)
      finally show ?thesis using False by (simp add: rewrite_format.simps Cons q)
    qed
  qed
qed (simp add: rewrite_format.simps)

text \<open>C40: the format that \<open>tds_strftime\<close> writes for a format of \<open>n\<close> characters has at most \<open>n + 7\<close> characters, and there is a format
  with exactly so many; with its terminator it is one byte longer than the \<open>strlen(format) + 1 + 5 + 1\<close> bytes of \<open>our_format\<close>.\<close>

theorem tds_strftime_format_length:
  assumes "p \<le> 7"
  shows "length (rewrite_format dr [] False p fmt) \<le> length fmt + 7 \<and>
    length (rewrite_format dr [] False p ''%9z%'') = length ''%9z%'' + 7"
proof
  show "length (rewrite_format dr [] False p fmt) \<le> length fmt + 7" using rewrite_format_length [of False p dr "[]" fmt] assms by simp
  show "length (rewrite_format dr [] False p ''%9z%'') = length ''%9z%'' + 7"
    by (simp add: rewrite_format.simps rewrite_spec_def is_digit_def digit_of_def fraction_def)
qed

theorem tds_strftime_format_length_witness:
  "length (rewrite_format (the (tds_datecrack (Di_date 0))) [] False 3 ''%H%%'') \<le> 11"
  using tds_strftime_format_length [of 3 "the (tds_datecrack (Di_date 0))" "''%H%%''"] by simp

end
