(* ===== verification/Dates_Roundtrip.thy ===== *)
theory Dates_Roundtrip
  imports Dates_Correct
begin

text \<open>
  A date that \<open>tds_convert\<close> writes in the ISO format of the ODBC driver is read back by \<open>tds_convert\<close>.
\<close>

subsection \<open>The number of days of a parsed date\<close>

lemma three_quarters: "3 * (c + 1) div 4 = c - c div 4" for c :: int
proof -
  define q r where "q = c div 4" and "r = c mod 4"
  have c: "c = r + 4 * q" "0 \<le> r" "r < 4" by (simp_all add: q_def r_def)
  have "3 * (c + 1) = (3 * r + 3) + 4 * (3 * q)" using c(1) by simp
  then have "3 * (c + 1) div 4 = 3 * q + (3 * r + 3) div 4" by (simp only: div_mult_self2)
  moreover have "(3 * r + 3) div 4 = r" using c(2,3) by (intro div_between) simp_all
  ultimately show ?thesis using c(1) unfolding q_def [symmetric] by linarith
qed

lemma dt_days_of_day_number:
  assumes "valid_date (tm_year t + 1900) (nat (tm_mon t)) (tm_mday t)" "0 \<le> tm_mon t" "1 \<le> tm_year t + 1900"
  shows "dt_days_of t = day_number (tm_year t + 1900) (nat (tm_mon t)) (tm_mday t)"
proof -
  define y m d where "y = tm_year t + 1900" and "m = nat (tm_mon t)" and "d = tm_mday t"
  have v: "m < 12" "1 \<le> y" "tm_mon t = int m" using assms by (simp_all add: y_def m_def valid_date_def)
  define y' k where "y' = (if m < 2 then y - 1 else y)" and "k = (if m < 2 then int m + 11 else int m - 1)"
  have i: "quot (int m - 13) 12 = (if m < 2 then - 1 else 0)"
  proof -
    have "(13 - int m) div 12 = (if m < 2 then 1 else 0)" using v(1) by (intro div_between) auto
    then show ?thesis using v(1) by (simp add: quot_def)
  qed
  have y': "0 \<le> y'" "y' = y + (if m < 2 then - 1 else 0)" "0 \<le> k" using v by (auto simp: y'_def k_def)
  have "1461 * y' = y' + 4 * (365 * y')" by simp
  then have "1461 * y' div 4 = 365 * y' + y' div 4" by (simp only: div_mult_self2)
  moreover have "(y' + 100) div 100 = y' div 100 + 1" by simp
  moreover have "y' div 100 div 4 = y' div 400" by (simp flip: zdiv_zmult2_eq)
  ultimately have c: "1461 * y' div 4 - 3 * ((y' + 100) div 100) div 4 = 365 * y' + leap_years y'"
    by (simp only: three_quarters leap_years_def)
  have e: "tm_year t + 1900 + i' = y + i'" "tm_year t + 2000 + i' = y + i' + 100" for i' by (simp_all add: y_def)
  have k: "int m - 1 - 12 * (if m < 2 then - 1 else 0) = k" by (simp add: k_def)
  have q: "quot (1461 * y') 4 = 1461 * y' div 4" "quot (367 * k) 12 = 367 * k div 12" "quot (y' + 100) 100 = (y' + 100) div 100"
    "quot (3 * ((y' + 100) div 100)) 4 = 3 * ((y' + 100) div 100) div 4"
    by (rule quot_nonneg; use y' in simp)+
  have "dt_days_of t = 1461 * y' div 4 + 367 * k div 12 - 3 * ((y' + 100) div 100) div 4 + d - 693932"
    unfolding dt_days_of_def Let_def v(3) i e k y'(2) [symmetric] d_def [symmetric] q ..
  also have "\<dots> = 365 * y' + leap_years y' + 367 * k div 12 + d - 693932" using c by linarith
  also have "\<dots> = day_number y m d"
  proof -
    have "m \<in> set [0..<12]" using v(1) by simp
    then show ?thesis
      by (simp add: upt_rec) (elim disjE; simp add: y'_def k_def day_number_def day_of_year_def month_lengths_def
        leap_years_Suc [of y] leap_years_def [of 1899])
  qed
  finally show ?thesis by (simp add: y_def m_def d_def)
qed

subsection \<open>Texts of digits\<close>

lemma digit_neq: "\<not> is_digit c \<Longrightarrow> a < 10 \<Longrightarrow> digit a \<noteq> c"
  by (metis is_digit_digit)

lemma digit_tests [simp]:
  assumes "a < 10"
  shows "\<not> is_alpha (digit a)" "\<not> is_sep (digit a)" "\<not> time_stop (digit a)" "digit_of (digit a) = int a"
    "to_lower (digit a) = digit a"
  using assms by (auto simp: is_alpha_def is_sep_def time_stop_def digit_of_def to_lower_def digit_neq is_digit_def)

lemma two_digits_of:
  assumes "v < 100"
  obtains a b where "dec 2 v = [digit a, digit b]" "a < 10" "b < 10" "v = a * 10 + b"
proof -
  show thesis
    by (rule that [of "v div 10" "v mod 10"]) (use assms in \<open>simp_all add: numeral_2_eq_2\<close>)
qed

lemma four_digits_of:
  assumes "v < 10000"
  obtains a b c e where "dec 4 v = [digit a, digit b, digit c, digit e]" "a < 10" "b < 10" "c < 10" "e < 10"
    "v = ((a * 10 + b) * 10 + c) * 10 + e"
proof -
  have "v div 100 < 100" "v mod 100 < 100" using assms by (simp_all add: less_mult_imp_div_less)
  then obtain a b c e where "dec 2 (v div 100) = [digit a, digit b]" "a < 10" "b < 10" "v div 100 = a * 10 + b"
    "dec 2 (v mod 100) = [digit c, digit e]" "c < 10" "e < 10" "v mod 100 = c * 10 + e"
    by (metis two_digits_of)
  moreover have "dec 4 v = dec 2 (v div 100) @ dec 2 (v mod 100)" using dec_append [of 2 2 v] dec_mod [of 2 v] by simp
  moreover have "v = v div 100 * 100 + v mod 100" by simp
  ultimately show thesis by (intro that [of a b c e]) simp_all
qed

subsection \<open>Reading the date and the time\<close>

lemma not_digits: "\<not> is_digit (CHR ''-'')" "\<not> is_digit (CHR '':'')" "\<not> is_digit (CHR ''.'')" "\<not> is_digit (CHR '' '')" "\<not> is_digit NUL"
  "\<not> is_digit (CHR ''/'')" "\<not> is_digit (CHR '','')"
  by (simp_all add: is_digit_def)

lemmas digit_neqs = not_digits [THEN digit_neq] not_digits [THEN digit_neq, THEN not_sym]

lemma blind_date:
  assumes "1753 \<le> y" "y < 10000" "1 \<le> m" "m \<le> 12" "1 \<le> d" "d < 32"
  shows "blind_step (dec 4 y @ ''-'' @ dec 2 m @ ''-'' @ dec 2 d) a =
    Some (a \<lparr> dt_t := (dt_t a) \<lparr> tm_mon := int m - 1, tm_mday := int d, tm_year := int y - 1900 \<rparr> \<rparr>)"
proof -
  obtain y1 y2 y3 y4 where y: "dec 4 y = [digit y1, digit y2, digit y3, digit y4]" "y1 < 10" "y2 < 10" "y3 < 10" "y4 < 10"
    "y = ((y1 * 10 + y2) * 10 + y3) * 10 + y4" using four_digits_of [OF assms(2)] .
  obtain m1 m2 where m: "dec 2 m = [digit m1, digit m2]" "m1 < 10" "m2 < 10" "m = m1 * 10 + m2"
    using two_digits_of [of m] assms by auto
  obtain d1 d2 where d: "dec 2 d = [digit d1, digit d2]" "d1 < 10" "d2 < 10" "d = d1 * 10 + d2"
    using two_digits_of [of d] assms by auto
  note t = y(1) m(1) d(1)
  note simps = y(2-5) m(2,3) d(2,3) digit_neqs not_digits
  let ?s = "dec 4 y @ ''-'' @ dec 2 m @ ''-'' @ dec 2 d"
  have "\<not> is_alphabetic ?s" "\<not> is_numeric ?s" by (simp_all add: t is_alphabetic_def is_numeric_def simps)
  moreover have "count_char (CHR ''/'') ?s = 0" "count_char (CHR ''-'') ?s = 2" "count_char (CHR ''.'') ?s = 0"
    by (simp_all add: t count_char_def simps)
  moreover have "list_all (\<lambda>c. is_digit c \<or> c = CHR ''/'' \<or> c = CHR ''-'' \<or> c = CHR ''.'') ?s" by (simp add: t simps)
  ultimately have tests: "\<not> is_alphabetic ?s" "\<not> is_numeric ?s" "is_numeric_dateformat ?s"
    by (simp_all add: is_numeric_dateformat_def Let_def)
  have len: "length ?s = 10" "?s ! 4 = CHR ''-''" "?s ! 7 = CHR ''-''" by (simp_all add: t)
  have "numeric_date_loop (1, 2, 0) 0 NUL (0, 0, 0) ?s = (int m, int d, int y)"
    unfolding t by (simp add: simps) (simp add: m(4) d(4) y(6))
  then have "store_numeric_date ?s (dt_t a) = store_mdy (int m) (int d) (int y) (dt_t a)"
    unfolding store_numeric_date_def by (simp only: len) simp
  also have "\<dots> = (True, (dt_t a) \<lparr> tm_mon := int m - 1, tm_mday := int d, tm_year := int y - 1900 \<rparr>)"
    using assms by (simp add: store_mdy_def store_year_def)
  finally show ?thesis unfolding blind_step_def using tests by (simp only: if_False if_True snd_conv)
qed

lemma add_digit_simp: "d < 10 \<Longrightarrow> n < 100000000 \<Longrightarrow> add_digit n (digit d) = n * 10 + d"
  by (simp add: add_digit_def nat_add_distrib nat_mult_distrib)

lemma add_digit_two: "d < 10 \<Longrightarrow> n < 10 \<Longrightarrow> add_digit n (digit d) = n * 10 + d" "d < 10 \<Longrightarrow> add_digit 0 (digit d) = d"
  by (simp_all add: add_digit_simp)

lemma scan_fraction:
  assumes "ts_state a = 3" "ns_div a = 10 ^ k" "nanosecs a < 10 ^ k" "k + p \<le> 9" "f < 10 ^ p"
  shows "fold scan_time_char (dec p f) a = a \<lparr> nanosecs := nanosecs a * 10 ^ p + f, ns_div := 10 ^ (k + p) \<rparr>"
  using assms(4,5)
proof (induction p arbitrary: f)
  case 0
  then show ?case using assms by simp
next
  case (Suc p)
  define b where "b = a \<lparr> nanosecs := nanosecs a * 10 ^ p + f div 10, ns_div := 10 ^ (k + p) \<rparr>"
  have f: "f div 10 < 10 ^ p" "f = f div 10 * 10 + f mod 10" using Suc.prems by (simp_all add: less_mult_imp_div_less)
  have "nanosecs a * 10 ^ p + f div 10 < (nanosecs a + 1) * 10 ^ p" using f(1) by simp
  also have "\<dots> \<le> 10 ^ k * 10 ^ p" using assms(3) by (intro mult_le_mono1) simp
  also have "\<dots> = 10 ^ (k + p)" by (simp add: power_add)
  also have "\<dots> \<le> (10 :: nat) ^ 8" using Suc.prems by (intro power_increasing) simp_all
  finally have n: "nanosecs b < 100000000" by (simp add: b_def)
  have "(10 :: nat) ^ (k + p) \<le> 10 ^ 8" using Suc.prems by (intro power_increasing) simp_all
  then have d: "ns_div b < 1000000000" by (simp add: b_def)
  have c: "digit (f mod 10) \<noteq> CHR '':''" "digit (f mod 10) \<noteq> CHR ''.''" by (rule digit_neqs; simp)+
  have "fold scan_time_char (dec p (f div 10)) a = b" unfolding b_def using Suc.prems by (intro Suc.IH f(1)) simp
  then have "fold scan_time_char (dec (Suc p) f) a = scan_time_char (digit (f mod 10)) b" by simp
  also have "\<dots> = b \<lparr> nanosecs := nanosecs b * 10 + f mod 10, ns_div := ns_div b * 10 \<rparr>"
    unfolding scan_time_char_def using c d n assms(1)
    by (simp add: b_def add_digit_simp)
  also have "\<dots> = a \<lparr> nanosecs := nanosecs a * 10 ^ Suc p + f, ns_div := 10 ^ (k + Suc p) \<rparr>"
    using f(2) by (simp add: b_def algebra_simps)
  finally show ?case .
qed

definition time_text :: "nat \<Rightarrow> nat \<Rightarrow> nat \<Rightarrow> nat \<Rightarrow> nat \<Rightarrow> string" where
  "time_text h mi s p f = dec 2 h @ '':'' @ dec 2 mi @ '':'' @ dec 2 s @ (if p = 0 then [] else ''.'' @ dec p f)"

lemma scan_time:
  assumes "h < 100" "mi < 100" "s < 100" "p \<le> 7" "f < 10 ^ p"
  shows "fold scan_time_char (time_text h mi s p f)
      \<lparr> ts_state = 0, last_sep = NUL, hours = 0, minutes = 0, seconds = 0, nanosecs = 0, ns_div = 1, ts_ok = True \<rparr> =
    \<lparr> ts_state = (if p = 0 then 2 else 3), last_sep = (if p = 0 then CHR '':'' else CHR ''.''), hours = h, minutes = mi, seconds = s,
      nanosecs = f, ns_div = 10 ^ p, ts_ok = True \<rparr>"
proof -
  obtain h1 h2 where h: "dec 2 h = [digit h1, digit h2]" "h1 < 10" "h2 < 10" "h = h1 * 10 + h2" using two_digits_of [OF assms(1)] .
  obtain m1 m2 where m: "dec 2 mi = [digit m1, digit m2]" "m1 < 10" "m2 < 10" "mi = m1 * 10 + m2" using two_digits_of [OF assms(2)] .
  obtain s1 s2 where s: "dec 2 s = [digit s1, digit s2]" "s1 < 10" "s2 < 10" "s = s1 * 10 + s2" using two_digits_of [OF assms(3)] .
  have "fold scan_time_char (dec 2 h @ '':'' @ dec 2 mi @ '':'' @ dec 2 s)
      \<lparr> ts_state = 0, last_sep = NUL, hours = 0, minutes = 0, seconds = 0, nanosecs = 0, ns_div = 1, ts_ok = True \<rparr> =
    \<lparr> ts_state = 2, last_sep = CHR '':'', hours = h, minutes = mi, seconds = s, nanosecs = 0, ns_div = 1, ts_ok = True \<rparr>" (is "_ = ?b")
    by (simp add: h(1) m(1) s(1) scan_time_char_def digit_neqs add_digit_two h(2,3) m(2,3) s(2,3)) (simp add: h(4) m(4) s(4))
  moreover have "fold scan_time_char (dec p f) (scan_time_char (CHR ''.'') ?b) =
    (scan_time_char (CHR ''.'') ?b) \<lparr> nanosecs := f, ns_div := 10 ^ p \<rparr>"
    using scan_fraction [of "scan_time_char (CHR ''.'') ?b" 0 p f] assms(4,5) by (simp add: scan_time_char_def)
  ultimately show ?thesis using assms(5) by (cases "p = 0") (simp_all add: time_text_def scan_time_char_def)
qed

lemma time_text_chars:
  assumes "h < 100" "mi < 100" "s < 100" "c \<in> set (time_text h mi s p f)"
  shows "is_digit c \<or> c = CHR '':'' \<or> c = CHR ''.''"
proof -
  have "is_digit c" if "c \<in> set (dec w v)" for w v using that dec_digits [of w v] by (auto simp: list_all_iff)
  with assms(4) show ?thesis by (auto simp: time_text_def split: if_splits)
qed

lemma takeWhile_all: "(\<And>c. c \<in> set s \<Longrightarrow> P c) \<Longrightarrow> takeWhile P s = s \<and> dropWhile P s = []"
  by simp

lemma month_number_colon: "month_number (CHR '':'' # s) = None"
proof -
  have "list_all (\<lambda>n. n \<noteq> [] \<and> to_lower (hd n) \<noteq> to_lower (CHR '':'')) (month_names @ map fst long_month_names)" by code_simp
  then have "n \<noteq> [] \<and> to_lower (hd n) \<noteq> to_lower (CHR '':'')" if "n \<in> set month_names \<or> n \<in> fst ` set long_month_names" for n
    using that unfolding list_all_iff by auto
  then have eq: "\<not> strcaseeq (CHR '':'' # s) n" if "n \<in> set month_names \<or> n \<in> fst ` set long_month_names" for n
    using that by (cases n) (fastforce simp: strcaseeq_def)+
  have a: "(n, i) \<in> set long_month_names \<Longrightarrow> strcaseeq (CHR '':'' # s) n \<Longrightarrow> False" for n i using eq [of n] by force
  have b: "(n, i) \<in> set (zip month_names k) \<Longrightarrow> strcaseeq (CHR '':'' # s) n \<Longrightarrow> False" for n i k
    using eq [of n] set_zip_leftD [of n i month_names k] by blast
  show ?thesis by (auto simp: month_number_def find_None_iff dest: a b)
qed

lemma blind_time:
  assumes "h < 24" "mi < 60" "s < 60" "p \<le> 7" "f < 10 ^ p" "tm_ns (dt_t a) = 0"
  shows "blind_step (time_text h mi s p f) a =
    Some (a \<lparr> dt_t := (dt_t a) \<lparr> tm_hour := int h, tm_min := int mi, tm_sec := int s, tm_ns := int (f * 10 ^ (9 - p)) \<rparr> \<rparr>)"
proof -
  have keep: "tm_ns t = 0 \<Longrightarrow> t \<lparr> tm_hour := int h, tm_min := int mi, tm_sec := int s, tm_ns := 0 \<rparr> =
      t \<lparr> tm_hour := int h, tm_min := int mi, tm_sec := int s \<rparr>" for t h mi s by (cases t) simp
  define T where "T = time_text h mi s p f"
  have "h < 100" using assms(1) by simp
  then obtain h1 h2 where h: "dec 2 h = [digit h1, digit h2]" "h1 < 10" "h2 < 10" by (rule two_digits_of)
  have T: "T = digit h1 # digit h2 # '':'' @ drop 3 T" by (simp add: T_def time_text_def h)
  have chars: "is_digit c \<or> c = CHR '':'' \<or> c = CHR ''.''" if "c \<in> set T" for c
    using that time_text_chars [of h mi s c p f] assms(1-3) by (simp add: T_def)
  have "time_stop c \<Longrightarrow> \<not> is_digit c \<and> c \<noteq> CHR '':'' \<and> c \<noteq> CHR ''.''" for c by (auto simp: time_stop_def is_digit_def)
  then have w: "takeWhile (\<lambda>c. \<not> time_stop c) T = T" "dropWhile (\<lambda>c. \<not> time_stop c) T = []" using chars by auto
  have "\<not> is_alphabetic T" "\<not> is_numeric T" "\<not> is_numeric_dateformat T"
    by (subst T; simp add: is_alphabetic_def is_numeric_def is_numeric_dateformat_def h not_digits)+
  moreover have "\<not> is_dd_mon_yyyy T"
    by (subst T) (simp add: is_dd_mon_yyyy_def two_digits_def h is_monthname_def month_number_colon)
  moreover have "dropWhile (\<lambda>c. is_digit c \<or> c = CHR '':'' \<or> c = CHR ''.'') T = []" using chars by simp
  then have "is_timeformat T" by (simp add: is_timeformat_def)
  moreover have sc: "fold scan_time_char T
      \<lparr> ts_state = 0, last_sep = NUL, hours = 0, minutes = 0, seconds = 0, nanosecs = 0, ns_div = 1, ts_ok = True \<rparr> =
    \<lparr> ts_state = (if p = 0 then 2 else 3), last_sep = (if p = 0 then CHR '':'' else CHR ''.''), hours = h, minutes = mi, seconds = s,
      nanosecs = f, ns_div = 10 ^ p, ts_ok = True \<rparr>" unfolding T_def using assms by (intro scan_time) simp_all
  moreover have "(1000000000 :: nat) = 10 ^ (9 - p) * 10 ^ p" using assms(4) by (simp flip: power_add)
  then have "(1000000000 :: nat) div 10 ^ p = 10 ^ (9 - p)" by (metis nonzero_mult_div_cancel_right power_not_zero zero_neq_numeral)
  then have "store_time T (dt_t a) =
      (True, (dt_t a) \<lparr> tm_hour := int h, tm_min := int mi, tm_sec := int s, tm_ns := int (f * 10 ^ (9 - p)) \<rparr>)"
    using assms keep [of "dt_t a" h mi s] unfolding store_time_def w sc
    by (cases "f = 0"; cases "p = 0") (simp_all add: Let_def)
  ultimately show ?thesis unfolding T_def [symmetric] blind_step_def by (simp only: if_False if_True snd_conv)
qed

subsection \<open>The whole text\<close>

lemma tokens_two:
  assumes "\<And>c. c \<in> set s \<Longrightarrow> \<not> is_sep c" "\<And>c. c \<in> set t \<Longrightarrow> \<not> is_sep c" "s \<noteq> []" "t \<noteq> []"
  shows "tokens (s @ '' '' @ t) = [s, t]"
proof -
  have one: "tokens r = [r]" if "\<And>c. c \<in> set r \<Longrightarrow> \<not> is_sep c" "r \<noteq> []" for r
  proof -
    have "dropWhile is_sep r = r" using that by (cases r) simp_all
    moreover have "takeWhile (\<lambda>c. \<not> is_sep c) r = r" "tl (dropWhile (\<lambda>c. \<not> is_sep c) r) = []"
      using that(1) by (simp_all add: dropWhile_eq_Nil_conv [THEN iffD2])
    ultimately show ?thesis using that(2) by (subst tokens.simps) (simp add: tokens.simps [of "[]"])
  qed
  have "dropWhile is_sep (s @ '' '' @ t) = s @ '' '' @ t" using assms by (cases s) simp_all
  moreover have "is_sep (CHR '' '')" by (simp add: is_sep_def)
  ultimately show ?thesis
    using assms one [of t] by (subst tokens.simps) (simp add: takeWhile_append dropWhile_append)
qed

definition iso_text :: "nat \<Rightarrow> nat \<Rightarrow> nat \<Rightarrow> nat \<Rightarrow> nat \<Rightarrow> nat \<Rightarrow> nat \<Rightarrow> nat \<Rightarrow> string" where
  "iso_text y m d h mi s p f = (dec 4 y @ ''-'' @ dec 2 m @ ''-'' @ dec 2 d) @ '' '' @ time_text h mi s p f"

lemma iso_date_chars:
  "c \<in> set (dec 4 y @ ''-'' @ dec 2 m @ ''-'' @ dec 2 d) \<Longrightarrow> is_digit c \<or> c = CHR ''-''"
  using dec_digits [of 4 y] dec_digits [of 2 m] dec_digits [of 2 d] by (auto simp: list_all_iff)

lemma iso_text_no_nul:
  assumes "h < 24" "mi < 60" "s < 60"
  shows "takeWhile (\<lambda>c. c \<noteq> NUL) (iso_text y m d h mi s p f) = iso_text y m d h mi s p f"
proof (rule takeWhile_all [THEN conjunct1])
  fix c assume c: "c \<in> set (iso_text y m d h mi s p f)"
  have time: "is_digit c \<or> c = CHR '':'' \<or> c = CHR ''.''" if "c \<in> set (time_text h mi s p f)"
    using that time_text_chars [of h mi s c p f] assms by simp
  have "c \<in> set (dec 4 y @ ''-'' @ dec 2 m @ ''-'' @ dec 2 d) \<or> c = CHR '' '' \<or> c \<in> set (time_text h mi s p f)"
    using c unfolding iso_text_def by (simp only: set_append Un_iff) simp
  then show "c \<noteq> NUL" using iso_date_chars time not_digits(5) by blast
qed

lemma parse_iso:
  assumes "1753 \<le> y" "y < 10000" "1 \<le> m" "m \<le> 12" "1 \<le> d" "d < 32" "h < 24" "mi < 60" "s < 60" "p \<le> 7" "f < 10 ^ p"
  shows "parse_datetime (iso_text y m d h mi s p f) =
    Some \<lparr> tm_year = int y - 1900, tm_mon = int m - 1, tm_mday = int d, tm_hour = int h, tm_min = int mi, tm_sec = int s,
           tm_ns = int (f * 10 ^ (9 - p)) \<rparr>"
proof -
  note date = iso_date_chars [of _ y m d]
  have time: "is_digit c \<or> c = CHR '':'' \<or> c = CHR ''.''" if "c \<in> set (time_text h mi s p f)" for c
    using that time_text_chars [of h mi s c p f] assms by simp
  have sep: "\<not> is_sep c \<and> c \<noteq> NUL" if "is_digit c \<or> c = CHR ''-'' \<or> c = CHR '':'' \<or> c = CHR ''.''" for c
    using that by (auto simp: is_sep_def is_digit_def)
  note iso_text_no_nul [OF assms(7-9), of y m d p f]
  moreover have "tokens (iso_text y m d h mi s p f) = [dec 4 y @ ''-'' @ dec 2 m @ ''-'' @ dec 2 d, time_text h mi s p f]"
    unfolding iso_text_def
  proof (rule tokens_two)
    show "\<not> is_sep c" if "c \<in> set (dec 4 y @ ''-'' @ dec 2 m @ ''-'' @ dec 2 d)" for c using date [OF that] sep by blast
    show "\<not> is_sep c" if "c \<in> set (time_text h mi s p f)" for c using time [OF that] sep by blast
  qed (simp_all add: time_text_def)
  moreover define D where "D = dec 4 y @ ''-'' @ dec 2 m @ ''-'' @ dec 2 d"
  have D: "blind_step D a = Some (a \<lparr> dt_t := (dt_t a) \<lparr> tm_mon := int m - 1, tm_mday := int d, tm_year := int y - 1900 \<rparr> \<rparr>)" for a
    unfolding D_def using assms by (intro blind_date)
  define T where "T = time_text h mi s p f"
  have T: "blind_step T a =
    Some (a \<lparr> dt_t := (dt_t a) \<lparr> tm_hour := int h, tm_min := int mi, tm_sec := int s, tm_ns := int (f * 10 ^ (9 - p)) \<rparr> \<rparr>)"
    if "tm_ns (dt_t a) = 0" for a unfolding T_def using assms that by (intro blind_time)
  have "token_loop [D, T] dt_start = Some (dt_start \<lparr> dt_t := \<lparr> tm_year = int y - 1900, tm_mon = int m - 1, tm_mday = int d,
      tm_hour = int h, tm_min = int mi, tm_sec = int s, tm_ns = int (f * 10 ^ (9 - p)) \<rparr> \<rparr>)"
    by (simp add: token_step_def dt_start_def D T)
  ultimately show ?thesis unfolding parse_datetime_def by (simp only: D_def T_def option.map) simp
qed

subsection \<open>Writing a date\<close>

definition iso_format :: string where
  "iso_format = ''%Y-%m-%d %H:%M:%S.%z''"

lemma fraction_dec:
  assumes "p \<le> 7" "0 \<le> decimicrosecond r" "decimicrosecond r < 10000000"
  shows "fraction r p = dec p (nat (decimicrosecond r) div 10 ^ (7 - p))"
proof -
  have "nat (decimicrosecond r mod 2147483648) mod 10000000 = nat (decimicrosecond r)" using assms by simp
  moreover have "dec 7 v = dec p (v div 10 ^ (7 - p)) @ dec (7 - p) v" for v using dec_append [of p "7 - p" v] assms(1) by simp
  ultimately show ?thesis by (simp add: fraction_def)
qed

lemma rewrite_iso:
  assumes "p \<le> 7" "0 \<le> decimicrosecond r" "decimicrosecond r < 10000000"
  shows "c_str (rewrite_format r [] False p (c_str iso_format)) =
    ''%Y-%m-%d %H:%M:%S'' @ (if p = 0 then [] else ''.'' @ dec p (nat (decimicrosecond r) div 10 ^ (7 - p)))"
proof -
  have "c_str iso_format = iso_format" by (simp add: iso_format_def c_str_def)
  moreover have "rewrite_format r [] False p iso_format =
    ''%Y-%m-%d %H:%M:%S'' @ (if p = 0 then [] else ''.'' @ fraction r p)"
    by (simp add: iso_format_def rewrite_format.simps rewrite_spec_def is_digit_def)
  moreover have "c_str (dec w v) = dec w v" for w v
    using dec_digits [of w v] not_digits(5) by (auto simp: c_str_def list_all_iff)
  moreover have "c_str [] = []" "c_str (c # s) = (if c = NUL then [] else c # c_str s)" for c s by (simp_all add: c_str_def)
  ultimately show ?thesis using assms by (simp add: fraction_dec)
qed

lemma strftime_text_plain: "CHR ''%'' \<notin> set s \<Longrightarrow> strftime_text ext t s = s"
  by (induction s) (auto simp: strftime_text.simps)

lemma strftime_iso:
  assumes "1000 \<le> c_year t + 1900" "c_year t + 1900 < 10000" "0 \<le> c_mon t" "c_mon t < 12" "1 \<le> c_mday t" "c_mday t < 32"
    "0 \<le> c_hour t" "c_hour t < 24" "0 \<le> c_min t" "c_min t < 60" "0 \<le> c_sec t" "c_sec t < 60" "CHR ''%'' \<notin> set rest"
  shows "strftime_text ext t (''%Y-%m-%d %H:%M:%S'' @ rest) =
    dec 4 (nat (c_year t + 1900)) @ ''-'' @ dec 2 (nat (c_mon t + 1)) @ ''-'' @ dec 2 (nat (c_mday t)) @ '' '' @
    dec 2 (nat (c_hour t)) @ '':'' @ dec 2 (nat (c_min t)) @ '':'' @ dec 2 (nat (c_sec t)) @ rest"
proof -
  have "show_int (c_year t + 1900) = dec 4 (nat (c_year t + 1900))"
    using assms show_nat_dec [of "nat (c_year t + 1900)" 4] by (simp add: show_int_def)
  then have spec: "strftime_spec t (CHR ''Y'') = Some (dec 4 (nat (c_year t + 1900)))"
    "strftime_spec t (CHR ''m'') = Some (dec 2 (nat (c_mon t + 1)))" "strftime_spec t (CHR ''d'') = Some (dec 2 (nat (c_mday t)))"
    "strftime_spec t (CHR ''H'') = Some (dec 2 (nat (c_hour t)))" "strftime_spec t (CHR ''M'') = Some (dec 2 (nat (c_min t)))"
    "strftime_spec t (CHR ''S'') = Some (dec 2 (nat (c_sec t)))"
    using assms by (simp_all add: strftime_spec_def pad_def Let_def)
  show ?thesis using assms(13) by (simp add: strftime_text.simps spec strftime_text_plain)
qed

lemma leap_years_mono: "y \<le> y' \<Longrightarrow> leap_years y \<le> leap_years y'"
proof (induction y' rule: int_ge_induct)
  case (step i)
  with leap_years_Suc [of "i + 1"] show ?case by simp
qed simp

lemma day_of_year_bounds:
  assumes "valid_date y m d" shows "1 \<le> day_of_year y m d" "day_of_year y m d \<le> 365 + (if leap_year y then 1 else 0)"
proof -
  have "m \<in> set [0..<12]" "1 \<le> d" "d \<le> month_lengths y ! m" using assms by (simp_all add: valid_date_def)
  then show "1 \<le> day_of_year y m d" "day_of_year y m d \<le> 365 + (if leap_year y then 1 else 0)"
    by (simp_all add: upt_rec) (elim disjE; simp add: day_of_year_def month_lengths_def split: if_splits)+
qed

lemma year_of_day_number:
  assumes "valid_date y m d" "day_number a 0 1 \<le> day_number y m d" "day_number y m d \<le> day_number b 11 31"
  shows "a \<le> y \<and> y \<le> b"
proof -
  note b = day_of_year_bounds [OF assms(1)]
  have "day_of_year b 11 31 = 365 + (if leap_year b then 1 else 0)" by (simp add: day_of_year_def month_lengths_def)
  then have db: "day_number b 11 31 = 365 * (b - 1900) + (leap_years b - leap_years 1899) + 364"
    by (simp add: day_number_def leap_years_Suc [of b])
  have da: "day_number a 0 1 = 365 * (a - 1900) + (leap_years (a - 1) - leap_years 1899)"
    by (simp add: day_number_def day_of_year_def)
  have "a \<le> y"
  proof (rule ccontr)
    assume "\<not> a \<le> y"
    then have "leap_years y \<le> leap_years (a - 1)" by (intro leap_years_mono) simp
    then show False using assms(2) [unfolded da] b(2) leap_years_Suc [of y] \<open>\<not> a \<le> y\<close>
      by (simp add: day_number_def split: if_splits)
  qed
  moreover have "y \<le> b"
  proof (rule ccontr)
    assume "\<not> y \<le> b"
    then have "leap_years b \<le> leap_years (y - 1)" by (intro leap_years_mono) simp
    then show False using assms(3) [unfolded db] b(1) \<open>\<not> y \<le> b\<close> by (simp add: day_number_def)
  qed
  ultimately show ?thesis ..
qed

text \<open>What is written is the ISO text of the date and the time, cut to the precision.\<close>

lemma write_iso:
  assumes m: "date_meaning di = Some (n, ticks, z)" and t: "proper_time di"
    and n: "day_number 1753 0 1 \<le> n" "n \<le> day_number 9999 11 31" and p: "p \<le> 7" and env: "mem_ok env"
  obtains y mon d h mi s f where "whole_date_string env iso_format di p = iso_text y (mon + 1) d h mi s p f"
    "1753 \<le> y" "y < 10000" "valid_date (int y) mon (int d)" "day_number (int y) mon (int d) = n" "1 \<le> d" "d < 32" "mon < 12"
    "h < 24" "mi < 60" "s < 60" "f < 10 ^ p"
    "ticks div 10 ^ (7 - p) = ((h * 60 + mi) * 60 + s) * 10 ^ p + f"
proof -
  have "day_number 0 0 1 \<le> n" using n(1) by (simp add: day_number_def leap_years_def day_of_year_def)
  then obtain r where r: "tds_datecrack di = Some r" "proper_record r" "record_meaning r = (n, ticks, z)"
    using crack_correct [OF m t] by blast
  define y mon d h mi s f where "y = nat (year r)" and "mon = nat (month r)" and "d = nat (day r)" and "h = nat (hour r)"
    and "mi = nat (minute r)" and "s = nat (second r)" and "f = nat (decimicrosecond r) div 10 ^ (7 - p)"
  have v: "valid_date (year r) mon (day r)" "day_number (year r) mon (day r) = n"
    using r(2,3) by (simp_all add: proper_record_def record_meaning_def mon_def)
  then have yr: "1753 \<le> year r" "year r \<le> 9999" using n year_of_day_number [of "year r" mon "day r" 1753 9999] by simp_all
  have "\<forall>k<12. month_lengths (year r) ! k < 32" by (simp add: month_lengths_def eval_nat_numeral less_Suc_eq)
  then have dr: "1 \<le> day r" "day r < 32" "mon < 12" using v(1) by (auto simp: valid_date_def)
  have tr: "0 \<le> month r" "month r < 12" "0 \<le> hour r" "hour r < 24" "0 \<le> minute r" "minute r < 60" "0 \<le> second r" "second r < 60"
    "0 \<le> decimicrosecond r" "decimicrosecond r < 10000000" using r(2) by (simp_all add: proper_record_def)
  have eqs: "int y = year r" "int d = day r" "int mon = month r" "int h = hour r" "int mi = minute r" "int s = second r"
    using yr dr tr by (simp_all add: y_def d_def mon_def h_def mi_def s_def)
  have pw: "(10000000 :: nat) = 10 ^ p * 10 ^ (7 - p)" using p by (simp flip: power_add)
  have "nat (decimicrosecond r) < 10 ^ p * 10 ^ (7 - p)" using tr unfolding pw [symmetric] by simp
  then have f: "f < 10 ^ p" unfolding f_def by (rule less_mult_imp_div_less)
  have ticks: "ticks = ((h * 60 + mi) * 60 + s) * 10000000 + nat (decimicrosecond r)"
    using r(3) tr by (auto simp: record_meaning_def h_def mi_def s_def nat_add_distrib nat_mult_distrib)
  have "ticks = nat (decimicrosecond r) + 10 ^ (7 - p) * (((h * 60 + mi) * 60 + s) * 10 ^ p)" unfolding ticks pw by simp
  then have div: "ticks div 10 ^ (7 - p) = ((h * 60 + mi) * 60 + s) * 10 ^ p + f" by (simp add: f_def)
  have pc: "CHR ''%'' \<notin> set (if p = 0 then [] else ''.'' @ dec p f)"
    using dec_digits [of p f] by (auto simp: list_all_iff is_digit_def)
  have prec: "(if int p < 0 \<or> 7 < int p then 3 else int p) = int p" using p by simp
  define t where "t = \<lparr> c_sec = second r, c_min = minute r, c_hour = hour r, c_mday = day r, c_mon = month r,
    c_year = year r - 1900, c_wday = weekday r, c_yday = dayofyear r \<rparr>"
  have ts: "nat (c_year t + 1900) = y" "nat (c_mon t + 1) = mon + 1" "nat (c_mday t) = d" "nat (c_hour t) = h"
    "nat (c_min t) = mi" "nat (c_sec t) = s" using tr by (simp_all add: t_def y_def mon_def d_def h_def mi_def s_def nat_add_distrib)
  have "strftime_text (strftime_ext env) t (c_str (rewrite_format r [] False p (c_str iso_format))) =
      dec 4 y @ ''-'' @ dec 2 (mon + 1) @ ''-'' @ dec 2 d @ '' '' @ dec 2 h @ '':'' @ dec 2 mi @ '':'' @ dec 2 s @
      (if p = 0 then [] else ''.'' @ dec p f)"
    unfolding rewrite_iso [OF p tr(9,10)] f_def [symmetric] ts [symmetric]
    by (rule strftime_iso [OF _ _ _ _ _ _ _ _ _ _ _ _ pc]) (use yr dr tr in \<open>simp_all add: t_def\<close>)
  then have written: "strftime_text (strftime_ext env) t (c_str (rewrite_format r [] False p (c_str iso_format))) =
      iso_text y (mon + 1) d h mi s p f" by (simp only: iso_text_def time_text_def append_assoc)
  have "length (iso_text y (mon + 1) d h mi s p f) < 64" using p by (simp add: iso_text_def time_text_def)
  then have "tds_strftime env 64 iso_format r (int p) = Some (iso_text y (mon + 1) d h mi s p f)"
    using env unfolding tds_strftime_def Let_def prec t_def [symmetric] nat_int written by simp
  moreover have "c_str (iso_text y (mon + 1) d h mi s p f) = iso_text y (mon + 1) d h mi s p f"
    unfolding c_str_def by (rule iso_text_no_nul) (use tr in \<open>simp_all add: h_def mi_def s_def\<close>)
  ultimately have "whole_date_string env iso_format di p = iso_text y (mon + 1) d h mi s p f"
    by (simp add: whole_date_string_def r(1))
  moreover have "valid_date (int y) mon (int d)" "day_number (int y) mon (int d) = n" using v by (simp_all add: eqs)
  ultimately show thesis using yr dr tr f div eqs by (intro that [of y mon d h mi s f]) linarith+
qed

subsection \<open>Reading it back\<close>

text \<open>The value as it comes back: an \<open>SYBMSDATETIME2\<close> always with seven digits.\<close>

definition read_back :: "date_info \<Rightarrow> server_type \<times> cr" where
  "read_back di =
     (case di of
        Di_datetime days time \<Rightarrow> (SYBDATETIME, CR_dt days time)
      | Di_datetime4 days mins \<Rightarrow> (SYBDATETIME4, CR_dt4 days mins)
      | Di_msdatetime2 dta \<Rightarrow>
          (SYBMSDATETIME2, CR_dta (dta \<lparr> offset := 0, time_prec := 7, has_time := True, has_date := True, has_offset := False \<rparr>)))"

text \<open>The types with date and time whose text holds the whole value: \<open>SYBMSDATETIME2\<close> when its time has no more digits than its
  precision.\<close>

definition text_exact :: "date_info \<Rightarrow> bool" where
  "text_exact di \<longleftrightarrow>
     (case di of
        Di_datetime _ _ \<Rightarrow> True
      | Di_datetime4 _ _ \<Rightarrow> True
      | Di_msdatetime2 dta \<Rightarrow> time_prec dta \<le> 7 \<and> 10 ^ (7 - time_prec dta) dvd unat (dta_time dta)
      | _ \<Rightarrow> False)"

definition text_prec :: "date_info \<Rightarrow> nat" where
  "text_prec di = (case di of Di_msdatetime2 dta \<Rightarrow> time_prec dta | _ \<Rightarrow> 3)"

lemma ms_of_300:
  assumes "r < (300 :: nat)" shows "((r * 10 + 1) div 3 * 300 + 150) div 1000 = r"
proof -
  have "list_all (\<lambda>r. ((r * 10 + 1) div 3 * 300 + 150) div 1000 = (r :: int)) [0..299]" by code_simp
  then have "((int r * 10 + 1) div 3 * 300 + 150) div 1000 = int r" using assms by (simp add: list_all_iff)
  then have "int (((r * 10 + 1) div 3 * 300 + 150) div 1000) = int r" by (simp add: zdiv_int ac_simps)
  then show ?thesis by (simp only: of_nat_eq_iff)
qed

lemma div_of_nat_word:
  assumes "n < 4294967296" shows "word_of_nat n div k = (word_of_nat (n div unat k) :: 32 word)"
proof -
  have "unat (word_of_nat m :: 32 word) = m" if "m < 4294967296" for m using that by (simp add: unat_of_nat take_bit_nat_eq_self)
  moreover have "n div unat k < 4294967296" using assms by (rule order.strict_trans1 [OF div_le_dividend])
  ultimately show ?thesis using assms by (simp add: word_unat_eq_iff unat_div)
qed

lemma word_of_int_nat: "word_of_int (int n) = (word_of_nat n :: 'a :: len word)"
  by simp

lemma ucast_of_nat_16: "m < 65536 \<Longrightarrow> ucast (word_of_nat m :: 32 word) = (word_of_nat m :: 16 word)"
  by (simp add: word_unat_eq_iff unat_of_nat unsigned_ucast_eq take_bit_nat_eq_self)

text \<open>The parsed fields as words.\<close>

lemma parsed_words:
  fixes h mi s ns :: nat and y mo d :: int
  assumes "h < 24" "mi < 60" "s < 60" "ns < 1000000000"
  defines "t \<equiv> \<lparr> tm_year = y, tm_mon = mo, tm_mday = d, tm_hour = int h, tm_min = int mi, tm_sec = int s, tm_ns = int ns \<rparr>"
  shows "time_of t = word_of_nat (h * 60 + mi)"
    "time_of t * 60 + word_of_int (tm_sec t) = word_of_nat ((h * 60 + mi) * 60 + s)"
    "thousandths_300 t = word_of_nat ((ns div 1000000 * 300 + 150) div 1000)"
    "word_of_int (tm_ns t) div 100 = (word_of_nat (ns div 100) :: 32 word)"
    "ucast (word_of_nat ((h * 60 + mi) * 60 + s) :: 32 word) = (word_of_nat ((h * 60 + mi) * 60 + s) :: 64 word)"
    "ucast (word_of_nat (ns div 100) :: 32 word) = (word_of_nat (ns div 100) :: 64 word)"
    "ucast (word_of_nat (h * 60 + mi) :: 32 word) = (word_of_nat (h * 60 + mi) :: 16 word)"
proof -
  have "time_of t = word_of_int (int (h * 60 + mi))" by (simp only: time_of_def t_def tds_time.simps of_nat_add of_nat_mult of_nat_numeral)
  then show 1: "time_of t = word_of_nat (h * 60 + mi)" by (simp only: word_of_int_nat)
  show "time_of t * 60 + word_of_int (tm_sec t) = word_of_nat ((h * 60 + mi) * 60 + s)" unfolding 1 by (simp add: t_def)
  have ns: "ns < 4294967296" "ns div 1000000 < 1000" using assms(4) by (simp_all add: less_mult_imp_div_less)
  have "word_of_int (tm_ns t) div 1000000 * 300 + 150 = (word_of_nat (ns div 1000000 * 300 + 150) :: 32 word)"
    using div_of_nat_word [OF ns(1), of 1000000] by (simp add: t_def)
  moreover have "ns div 1000000 * 300 + 150 < 4294967296" using ns(2) by simp
  ultimately show "thousandths_300 t = word_of_nat ((ns div 1000000 * 300 + 150) div 1000)"
    using div_of_nat_word [of "ns div 1000000 * 300 + 150" 1000] by (simp only: thousandths_300_def) simp
  show "word_of_int (tm_ns t) div 100 = (word_of_nat (ns div 100) :: 32 word)"
    using div_of_nat_word [OF ns(1), of 100] by (simp add: t_def)
  have uc: "ucast (word_of_nat m :: 32 word) = (word_of_nat m :: 64 word)" if "m < 4294967296" for m
    using that by (simp add: word_unat_eq_iff unat_of_nat unsigned_ucast_eq take_bit_nat_eq_self)
  have sixty: "a * 60 + b < n * 60" if "a < n" "b < 60" for a b n :: nat using that by linarith
  have m: "h * 60 + mi < 1440" using sixty [of h 24 mi] assms by simp
  then have "(h * 60 + mi) * 60 + s < 86400" using sixty [of "h * 60 + mi" 1440 s] assms by simp
  then show "ucast (word_of_nat ((h * 60 + mi) * 60 + s) :: 32 word) = (word_of_nat ((h * 60 + mi) * 60 + s) :: 64 word)"
    by (intro uc) simp
  show "ucast (word_of_nat (h * 60 + mi) :: 32 word) = (word_of_nat (h * 60 + mi) :: 16 word)" using m by (intro ucast_of_nat_16) simp
  show "ucast (word_of_nat (ns div 100) :: 32 word) = (word_of_nat (ns div 100) :: 64 word)"
    using ns(1) by (intro uc order.strict_trans1 [OF div_le_dividend])
qed

lemma read_iso:
  assumes y: "1753 \<le> y" "y < 10000" "valid_date (int y) mon (int d)" "day_number (int y) mon (int d) = n" "1 \<le> d" "d < 32" "mon < 12"
    and t: "h < 24" "mi < 60" "s < 60" "p \<le> 7" "f < 10 ^ p" and env: "mem_ok env"
  defines "S \<equiv> (h * 60 + mi) * 60 + s"
  shows "string_to_datetime env (iso_text y (mon + 1) d h mi s p f) SYBMSDATETIME2 =
      Inr (16, CR_dta \<lparr> dta_time = word_of_nat (S * 10000000 + f * 10 ^ (7 - p)), dta_date = word_of_int n, offset = 0,
                        time_prec = 7, has_time = True, has_date = True, has_offset = False \<rparr>)"
    "p = 3 \<Longrightarrow> string_to_datetime env (iso_text y (mon + 1) d h mi s p f) SYBDATETIME =
      Inr (8, CR_dt (word_of_int n) (word_of_nat (S * 300 + (f * 300 + 150) div 1000)))"
    "string_to_datetime env (iso_text y (mon + 1) d h mi s p f) SYBDATETIME4 =
      Inr (4, CR_dt4 (ucast (word_of_int n :: 32 word)) (word_of_nat (h * 60 + mi)))"
proof -
  define ns where "ns = f * 10 ^ (9 - p)"
  have pw: "10 ^ (9 - p) = 10 ^ (7 - p) * (100 :: nat)"
  proof -
    have "9 - p = (7 - p) + 2" using t(4) by simp
    then show ?thesis by (simp only: power_add) simp
  qed
  have "10 ^ p * 10 ^ (9 - p) = (10 :: nat) ^ 9" using t(4) by (simp flip: power_add)
  moreover have "f * 10 ^ (9 - p) < 10 ^ p * 10 ^ (9 - p)" using t(5) by simp
  ultimately have ns: "ns < 1000000000" by (simp add: ns_def)
  define u where "u = \<lparr> tm_year = int y - 1900, tm_mon = int mon, tm_mday = int d, tm_hour = int h, tm_min = int mi, tm_sec = int s,
    tm_ns = int ns \<rparr>"
  have parse: "parse_datetime (iso_text y (mon + 1) d h mi s p f) = Some u"
    using y t parse_iso [of y "mon + 1" d h mi s p f] by (simp add: u_def ns_def)
  have days: "dt_days_of u = n" using y dt_days_of_day_number [of u] by (simp add: u_def)
  note words = parsed_words(1-4) [OF t(1-3) ns, of "int y - 1900" "int mon" "int d", folded u_def S_def]
    parsed_words(5-7) [OF t(1-3) ns, folded S_def]
  have div: "ns div 100 = f * 10 ^ (7 - p)" by (simp add: ns_def pw)
  show "string_to_datetime env (iso_text y (mon + 1) d h mi s p f) SYBMSDATETIME2 =
      Inr (16, CR_dta \<lparr> dta_time = word_of_nat (S * 10000000 + f * 10 ^ (7 - p)), dta_date = word_of_int n, offset = 0,
                        time_prec = 7, has_time = True, has_date = True, has_offset = False \<rparr>)"
    using env unfolding string_to_datetime_def parse option.case datetime_result_def days Let_def words(2) unfolding words by (simp add: div)
  show "string_to_datetime env (iso_text y (mon + 1) d h mi s p f) SYBDATETIME4 =
      Inr (4, CR_dt4 (ucast (word_of_int n :: 32 word)) (word_of_nat (h * 60 + mi)))"
    using env unfolding string_to_datetime_def parse option.case datetime_result_def days Let_def words(2) unfolding words by simp
  assume "p = 3"
  then have f: "ns div 1000000 = f" by (simp add: ns_def)
  show "string_to_datetime env (iso_text y (mon + 1) d h mi s p f) SYBDATETIME =
      Inr (8, CR_dt (word_of_int n) (word_of_nat (S * 300 + (f * 300 + 150) div 1000)))"
    using env unfolding string_to_datetime_def parse option.case datetime_result_def days Let_def words(2) unfolding words f by simp
qed

text \<open>The conversions at the two ends.\<close>

lemma convert_to_text:
  assumes "char \<in> all_char" "mem_ok env" "datetime_fmt env = iso_format" "date_meaning di = Some (n, ticks, z)" "text_exact di"
  shows "tds_convert env (S_date di) raw char inp =
    (let s = whole_date_string env iso_format
           (case di of Di_datetime4 days mins \<Rightarrow> Di_datetime (ucast days) (ucast mins * (60 * 300)) | _ \<Rightarrow> di) (text_prec di)
     in Inr (length s, CR_c s))"
proof -
  have c: "char \<notin> all_binary" "char \<noteq> SYBDATETIME4" "char \<noteq> TDS_CONVERT_CHAR" using assms(1) by (auto simp: type_sets)
  have f: "fix_money char (Inr (k, CR_c s)) = Inr (k, CR_c s)" for k s by (simp add: fix_money_def)
  have r: "string_to_result env char s inp = Inr (length s, CR_c s)" for s using assms(2) c by (simp add: string_to_result_def)
  show ?thesis
  proof (cases di)
    case (Di_msdatetime2 dta)
    then show ?thesis using assms(1) c
      by (simp add: tds_convert_def tds_convert_dates_def tds_convert_datetimeall_def assms(3) dta_info_def r f text_prec_def Let_def)
  next
    case (Di_datetime days time)
    then show ?thesis using assms(1) c
      by (simp add: tds_convert_def tds_convert_dates_def tds_convert_datetime_def assms(3) r f text_prec_def Let_def)
  next
    case (Di_datetime4 days mins)
    then show ?thesis using assms(1) c
      by (simp add: tds_convert_def tds_convert_dates_def tds_convert_datetime4_def tds_convert_datetime_def assms(3) r f
        text_prec_def Let_def)
  qed (use assms(5) in \<open>simp_all add: text_exact_def\<close>)
qed

lemma convert_from_text:
  assumes "desttype \<in> {SYBDATETIME, SYBDATETIME4, SYBMSDATETIME2}"
  shows "tds_convert env (S_char s) raw desttype inp = string_to_datetime env s desttype"
proof -
  have "fix_money desttype r = r" for r using assms by (auto simp: fix_money_def split: sum.split prod.split cr.split)
  moreover have "desttype \<notin> all_binary" "desttype \<notin> all_char" using assms by (auto simp: type_sets)
  ultimately show ?thesis using assms by (auto simp: tds_convert_def tds_convert_char_def)
qed

lemma datetime4_widened:
  assumes "unat mins < 1440"
  shows "date_meaning (Di_datetime (ucast days) (ucast (mins :: 16 word) * (60 * 300))) = date_meaning (Di_datetime4 days mins)"
    "proper_time (Di_datetime (ucast days) (ucast mins * (60 * 300)))"
proof -
  have "unat (ucast mins * (60 * 300) :: 32 word) = unat mins * 18000"
    using assms by (simp add: unat_word_ariths unsigned_ucast_eq take_bit_nat_eq_self)
  moreover have "(unat mins * 18000 * 10 + 1) div 3 = unat mins * 60000" by simp
  moreover have "sint (ucast days :: 32 word) = int (unat days)" for days :: "16 word" using sint_of_small(4) [of days] by simp
  ultimately show "date_meaning (Di_datetime (ucast days) (ucast mins * (60 * 300))) = date_meaning (Di_datetime4 days mins)"
    "proper_time (Di_datetime (ucast days) (ucast mins * (60 * 300)))" using assms by (simp_all add: date_meaning_def proper_time_def)
qed

lemma time_300_back:
  assumes "f < (1000 :: nat)" "(t * 10 + 1) div 3 = S * 1000 + f" shows "S * 300 + (f * 300 + 150) div 1000 = t"
proof -
  have "S * 1000 + f = t div 300 * 1000 + (t mod 300 * 10 + 1) div 3" "(t mod 300 * 10 + 1) div 3 < 1000"
    using ms_of_300ths [of t] assms(2) by (simp_all only: mult.commute)
  then have "S = t div 300" using assms(1) by linarith
  moreover from this have "f = (t mod 300 * 10 + 1) div 3" using assms(2) ms_of_300ths(1) [of t] by simp
  ultimately show ?thesis using ms_of_300 [of "t mod 300"] by simp
qed

lemma dates_roundtrip:
  assumes env: "mem_ok env" "datetime_fmt env = iso_format" and char: "char \<in> all_char"
    and m: "date_meaning di = Some (n, ticks, z)" "proper_time di" and e: "text_exact di"
    and n: "day_number 1753 0 1 \<le> n" "n \<le> day_number 9999 11 31"
  shows "\<exists>s len. tds_convert env (S_date di) raw char inp = Inr (length s, CR_c s) \<and>
    tds_convert env (S_char s) raw' (fst (read_back di)) inp' = Inr (len, snd (read_back di))"
proof (cases di)
  case (Di_msdatetime2 dta)
  have nt: "n = sint (dta_date dta)" "ticks = unat (dta_time dta)" using m by (simp_all add: date_meaning_def Di_msdatetime2)
  have p: "time_prec dta \<le> 7" "10 ^ (7 - time_prec dta) dvd ticks" using e by (simp_all add: text_exact_def Di_msdatetime2 nt)
  obtain y mon d h mi s f where w: "whole_date_string env iso_format di (time_prec dta) = iso_text y (mon + 1) d h mi s (time_prec dta) f"
    "1753 \<le> y" "y < 10000" "valid_date (int y) mon (int d)" "day_number (int y) mon (int d) = n" "1 \<le> d" "d < 32" "mon < 12"
    "h < 24" "mi < 60" "s < 60" "f < 10 ^ time_prec dta"
    "ticks div 10 ^ (7 - time_prec dta) = ((h * 60 + mi) * 60 + s) * 10 ^ time_prec dta + f"
    by (rule write_iso [OF m n p(1) env(1)])
  have pw: "10 ^ time_prec dta * 10 ^ (7 - time_prec dta) = (10000000 :: nat)" using p(1) by (simp flip: power_add)
  have "ticks = ticks div 10 ^ (7 - time_prec dta) * 10 ^ (7 - time_prec dta)" using p(2) by simp
  also have "\<dots> = ((h * 60 + mi) * 60 + s) * 10000000 + f * 10 ^ (7 - time_prec dta)"
    unfolding w(13) by (simp only: add_mult_distrib mult.assoc pw)
  finally have E: "unat (dta_time dta) = ((h * 60 + mi) * 60 + s) * 10000000 + f * 10 ^ (7 - time_prec dta)" unfolding nt .
  have "word_of_nat (((h * 60 + mi) * 60 + s) * 10000000 + f * 10 ^ (7 - time_prec dta)) = dta_time dta"
    unfolding E [symmetric] by (simp only: of_nat_unat ucast_id)
  moreover have rec: "\<lparr> dta_time = dta_time dta, dta_date = dta_date dta, offset = 0, time_prec = 7, has_time = True,
      has_date = True, has_offset = False \<rparr> =
    dta \<lparr> offset := 0, time_prec := 7, has_time := True, has_date := True, has_offset := False \<rparr>" by (cases dta) simp
  moreover define T where "T = iso_text y (mon + 1) d h mi s (time_prec dta) f"
  moreover have "word_of_int n = dta_date dta" by (simp add: nt)
  ultimately have "string_to_datetime env T (fst (read_back di)) = Inr (16, snd (read_back di))"
    using read_iso(1) [OF w(2-11) p(1) w(12) env(1)] by (simp add: T_def read_back_def Di_msdatetime2 rec)
  moreover have "tds_convert env (S_date di) raw char inp = Inr (length T, CR_c T)"
    unfolding convert_to_text [OF char env m(1) e] by (simp add: Di_msdatetime2 text_prec_def w(1) [folded T_def, unfolded Di_msdatetime2])
  ultimately show ?thesis by (auto simp: convert_from_text read_back_def Di_msdatetime2)
next
  case (Di_datetime days time)
  have three: "3 \<le> (7 :: nat)" by simp
  have nt: "n = sint days" "ticks = (unat time * 10 + 1) div 3 * 10000" using m by (simp_all add: date_meaning_def Di_datetime)
  obtain y mon d h mi s f where w: "whole_date_string env iso_format di 3 = iso_text y (mon + 1) d h mi s 3 f"
    "1753 \<le> y" "y < 10000" "valid_date (int y) mon (int d)" "day_number (int y) mon (int d) = n" "1 \<le> d" "d < 32" "mon < 12"
    "h < 24" "mi < 60" "s < 60" "f < 10 ^ 3" "ticks div 10 ^ (7 - 3) = ((h * 60 + mi) * 60 + s) * 10 ^ 3 + f"
    by (rule write_iso [OF m n three env(1)])
  have "((h * 60 + mi) * 60 + s) * 300 + (f * 300 + 150) div 1000 = unat time"
    by (rule time_300_back) (use w(12,13) in \<open>simp_all add: nt\<close>)
  then have "word_of_nat (((h * 60 + mi) * 60 + s) * 300 + (f * 300 + 150) div 1000) = time" by (simp add: word_unat_eq_iff)
  moreover define T where "T = iso_text y (mon + 1) d h mi s 3 f"
  moreover have "word_of_int n = days" by (simp add: nt)
  ultimately have "string_to_datetime env T (fst (read_back di)) = Inr (8, snd (read_back di))"
    using read_iso(2) [OF w(2-11) _ w(12) env(1)] by (simp add: T_def read_back_def Di_datetime)
  moreover have "tds_convert env (S_date di) raw char inp = Inr (length T, CR_c T)"
    unfolding convert_to_text [OF char env m(1) e] by (simp add: Di_datetime text_prec_def w(1) [folded T_def, unfolded Di_datetime])
  ultimately show ?thesis by (auto simp: convert_from_text read_back_def Di_datetime)
next
  case (Di_datetime4 days mins)
  have three: "3 \<le> (7 :: nat)" by simp
  define di' :: date_info where "di' = Di_datetime (ucast days) (ucast mins * (60 * 300))"
  have "unat mins < 1440" using m(2) by (simp add: proper_time_def Di_datetime4)
  then have m': "date_meaning di' = Some (n, ticks, z)" "proper_time di'"
    using datetime4_widened [of mins days] m by (simp_all add: di'_def Di_datetime4)
  have nt: "n = int (unat days)" "ticks = unat mins * 600000000" using m by (simp_all add: date_meaning_def Di_datetime4)
  obtain y mon d h mi s f where w: "whole_date_string env iso_format di' 3 = iso_text y (mon + 1) d h mi s 3 f"
    "1753 \<le> y" "y < 10000" "valid_date (int y) mon (int d)" "day_number (int y) mon (int d) = n" "1 \<le> d" "d < 32" "mon < 12"
    "h < 24" "mi < 60" "s < 60" "f < 10 ^ 3" "ticks div 10 ^ (7 - 3) = ((h * 60 + mi) * 60 + s) * 10 ^ 3 + f"
    by (rule write_iso [OF m' n three env(1)])
  have "(s * 1000 + f) < 60000" using w(11,12) by simp
  moreover have "unat mins * 60000 = (s * 1000 + f) + 60000 * (h * 60 + mi)" using w(13) by (simp add: nt)
  then have "unat mins * 60000 div 60000 = (h * 60 + mi) + (s * 1000 + f) div 60000" by (simp only: div_mult_self2)
  ultimately have "unat mins = h * 60 + mi" by simp
  then have "word_of_nat (h * 60 + mi) = mins" by (metis of_nat_unat ucast_id)
  moreover define T where "T = iso_text y (mon + 1) d h mi s 3 f"
  moreover have "unat days < 65536" using unsigned_less [of days] by simp
  then have "ucast (word_of_nat (unat days) :: 32 word) = (word_of_nat (unat days) :: 16 word)" by (rule ucast_of_nat_16)
  then have "ucast (word_of_int n :: 32 word) = days" unfolding nt of_int_of_nat_eq by (simp only: of_nat_unat ucast_id)
  ultimately have "string_to_datetime env T (fst (read_back di)) = Inr (4, snd (read_back di))"
    using read_iso(3) [OF w(2-11) _ w(12) env(1)] by (simp add: T_def read_back_def Di_datetime4)
  moreover have "tds_convert env (S_date di) raw char inp = Inr (length T, CR_c T)"
    unfolding convert_to_text [OF char env m(1) e]
    by (simp only: Di_datetime4 date_info.case text_prec_def w(1) [folded T_def, unfolded di'_def] Let_def)
  ultimately show ?thesis by (auto simp: convert_from_text read_back_def Di_datetime4)
qed (use e in \<open>simp_all add: text_exact_def\<close>)



end
