(* ===== verification/Convert_Types.thy ===== *)
theory Convert_Types
  imports Convert_Correct
begin

text \<open>
  The results of \<open>tds_convert\<close> are well-typed: the member of \<open>CONV_RESULT\<close> that is set is the one the destination type calls
  for, the length that is returned is the one of this member, and no buffer of the caller is overrun.
\<close>

definition result_ok :: "conv_env \<Rightarrow> conv_in \<Rightarrow> server_type \<Rightarrow> nat \<times> cr \<Rightarrow> bool" where
  "result_ok env inp t r \<longleftrightarrow>
     (case r of (len, c) \<Rightarrow>
        (case c of
           CR_ti _ \<Rightarrow> t \<in> {SYBINT1, SYBSINT1, SYBUINT1, SYBBIT, SYBBITN} \<and> len = 1
         | CR_si _ \<Rightarrow> t = SYBINT2 \<and> len = 2 | CR_usi _ \<Rightarrow> t = SYBUINT2 \<and> len = 2
         | CR_i _ \<Rightarrow> t = SYBINT4 \<and> len = 4 | CR_ui _ \<Rightarrow> t = SYBUINT4 \<and> len = 4
         | CR_bi _ \<Rightarrow> t = SYBINT8 \<and> len = 8 | CR_ubi _ \<Rightarrow> t = SYBUINT8 \<and> len = 8
         | CR_f _ \<Rightarrow> t = SYBFLT8 \<and> len = 8 | CR_r _ \<Rightarrow> t = SYBREAL \<and> len = 4
         | CR_m _ \<Rightarrow> t = SYBMONEY \<and> len = 8 | CR_m4 _ \<Rightarrow> t = SYBMONEY4 \<and> len = 4
         | CR_n _ \<Rightarrow> t \<in> {SYBNUMERIC, SYBDECIMAL} \<and> len = 35 | CR_u _ \<Rightarrow> t = SYBUNIQUE \<and> len = 16
         | CR_c s \<Rightarrow> t \<in> all_char \<and> len = length s
         | CR_ib b \<Rightarrow> t \<in> all_binary \<and> t \<noteq> TDS_CONVERT_BINARY \<and> len = length b
         | CR_cc s \<Rightarrow> t = TDS_CONVERT_CHAR \<and> length s = min len (cc_len inp)
         | CR_cb b \<Rightarrow> t = TDS_CONVERT_BINARY \<and> length b = min len (cb_len inp)
         | CR_raw b \<Rightarrow>
             t \<in> {SYBINT1, SYBSINT1, SYBUINT1, SYBINT2, SYBUINT2, SYBINT4, SYBUINT4, SYBINT8, SYBUINT8, SYBMONEY4, SYBMONEY,
                   SYBREAL, SYBFLT8} \<and> len = size_by_type env t \<and> length b = len
         | CR_dt _ _ \<Rightarrow> t = SYBDATETIME \<and> len = 8 | CR_dt4 _ _ \<Rightarrow> t = SYBDATETIME4 \<and> len = 4
         | CR_dta _ \<Rightarrow> t \<in> date_types \<and> len = 16
         | CR_time _ \<Rightarrow> t = SYBTIME \<and> len = 4 | CR_date _ \<Rightarrow> t = SYBDATE \<and> len = 4
         | CR_bigtime _ \<Rightarrow> t \<in> {SYB5BIGTIME, SYB5BIGDATETIME} \<and> len = 8 | CR_bigdatetime _ \<Rightarrow> t = SYB5BIGDATETIME \<and> len = 8))"

text \<open>A conversion is well-typed when each of its results is.\<close>

definition typed :: "conv_env \<Rightarrow> conv_in \<Rightarrow> server_type \<Rightarrow> conv_res \<Rightarrow> bool" where
  "typed env inp t r \<longleftrightarrow> (case r of Inl e \<Rightarrow> True | Inr x \<Rightarrow> result_ok env inp t x)"

lemma typed_Inl [simp]: "typed env inp t (Inl e)"
  by (simp add: typed_def)

lemma typed_Inr [simp]: "typed env inp t (Inr x) \<longleftrightarrow> result_ok env inp t x"
  by (simp add: typed_def)

lemma typed_if: "(P \<Longrightarrow> typed env inp t a) \<Longrightarrow> (\<not> P \<Longrightarrow> typed env inp t b) \<Longrightarrow> typed env inp t (if P then a else b)"
  by simp

lemma typed_sum: "(\<And>x. r = Inr x \<Longrightarrow> typed env inp t (f x)) \<Longrightarrow> typed env inp t (case r of Inl e \<Rightarrow> Inl e | Inr x \<Rightarrow> f x)"
  by (cases r) simp_all

lemma typed_option: "(\<And>x. r = Some x \<Longrightarrow> typed env inp t (f x)) \<Longrightarrow> typed env inp t (case r of None \<Rightarrow> Inl e | Some x \<Rightarrow> f x)"
  by (cases r) simp_all

lemma typed_prod: "(\<And>x y. r = (x, y) \<Longrightarrow> typed env inp t (f x y)) \<Longrightarrow> typed env inp t (case r of (x, y) \<Rightarrow> f x y)"
  by (cases r) simp_all

lemmas typed_rules = typed_if typed_sum typed_option typed_prod

lemma typed_string [simp]: "t = TDS_CONVERT_CHAR \<or> t \<in> all_char \<Longrightarrow> typed env inp t (string_to_result env t s inp)"
  by (auto simp: string_to_result_def result_ok_def all_char_def)

lemma typed_binary [simp]: "t \<in> all_binary \<Longrightarrow> typed env inp t (binary_to_result env t b inp)"
  by (auto simp: binary_to_result_def result_ok_def min_def)

lemma typed_rescale [simp]: "t \<in> {SYBNUMERIC, SYBDECIMAL} \<Longrightarrow> typed env inp t (rescale_result r)"
  by (auto simp: rescale_result_def result_ok_def split: sum.split)

lemma typed_numeric [simp]:
  "t \<in> {SYBNUMERIC, SYBDECIMAL} \<Longrightarrow> typed env inp t (tds_convert_int_numeric env sc sign num inp)"
  "t \<in> {SYBNUMERIC, SYBDECIMAL} \<Longrightarrow> typed env inp t (tds_convert_int8_numeric env sc sign num8 inp)"
  unfolding tds_convert_int_numeric_def tds_convert_int8_numeric_def Let_def by (rule typed_rescale; assumption)+

lemma typed_int [simp]: "typed env inp t (tds_convert_int env num t inp)"
  unfolding tds_convert_int_def by (intro typed_if; auto simp: result_ok_def)

lemma typed_int8 [simp]: "typed env inp t (tds_convert_int8 env num8 t inp)"
  unfolding tds_convert_int8_def by (intro typed_if; auto simp: result_ok_def)

lemma typed_uint8 [simp]: "typed env inp t (tds_convert_uint8 env num8 t inp)"
  unfolding tds_convert_uint8_def by (intro typed_if; auto simp: result_ok_def)

lemma typed_integers [simp]:
  "typed env inp t (tds_convert_bit env b t inp)" "typed env inp t (tds_convert_int1 env b t inp)"
  "typed env inp t (tds_convert_uint1 env b t inp)" "typed env inp t (tds_convert_int2 env w t inp)"
  "typed env inp t (tds_convert_uint2 env w t inp)" "typed env inp t (tds_convert_int4 env i t inp)"
  "typed env inp t (tds_convert_uint4 env i t inp)"
  by (simp_all only: tds_convert_bit_def tds_convert_int1_def tds_convert_uint1_def tds_convert_int2_def tds_convert_uint2_def
      tds_convert_int4_def tds_convert_uint4_def typed_int typed_uint8)

lemma typed_numeric_source [simp]: "typed env inp t (tds_convert_numeric env n t inp)"
  unfolding tds_convert_numeric_def Let_def by (intro typed_rules; auto simp: result_ok_def)

lemma typed_money4 [simp]: "typed env inp t (tds_convert_money4 env i t inp)"
  unfolding tds_convert_money4_def Let_def by (intro typed_rules; auto simp: result_ok_def)

lemma typed_money [simp]: "typed env inp t (tds_convert_money env h l t inp)"
  unfolding tds_convert_money_def Let_def by (intro typed_rules; auto simp: result_ok_def)

subsection \<open>Text and binary data\<close>

text \<open>\<open>tds_char2hex\<close> writes a byte for every two digits, as far as there is room.\<close>

lemma char2hex_length:
  "char2hex_loop i c src destlen dest = Some d \<Longrightarrow> length dest = min (i div 2) destlen \<Longrightarrow>
   length d = min ((i + length src) div 2) destlen"
proof (induction i c src destlen dest rule: char2hex_loop.induct)
  case (2 i c ch src destlen dest)
  obtain hex1 where h: "hex_value ch = Some hex1" using 2(4) by (auto split: option.splits)
  consider "destlen \<le> i div 2" | "\<not> destlen \<le> i div 2" "odd i" | "\<not> destlen \<le> i div 2" "even i" by blast
  then show ?case
  proof cases
    case 1
    then have "destlen \<le> (i + 1) div 2" by (rule order_trans) (simp add: div_le_mono)
    then show ?thesis using 2(1) [OF h 1] 2(4,5) h 1 by simp
  next
    case c: 2
    then have "(i + 1) div 2 = i div 2 + 1" by (auto elim: oddE)
    then show ?thesis using 2(2) [OF h c] 2(4,5) h c by simp
  next
    case c: 3
    then have "(i + 1) div 2 = i div 2" by (auto elim: evenE)
    then show ?thesis using 2(3) [OF h c(1)] 2(4,5) h c by simp
  qed
qed simp

lemma tds_char2hex_length:
  assumes "tds_char2hex destlen src = Inr (len, d)" shows "length d = min len destlen"
proof -
  define i where "i = (if odd (length src) then 1 else 0 :: nat)"
  obtain d' where "char2hex_loop i 0 src destlen [] = Some d'" "d = d'"
    "len = (if odd (length src) then length src + 1 else length src) div 2"
    using assms by (auto simp: tds_char2hex_def Let_def i_def split: option.splits)
  with char2hex_length [of i 0 src destlen "[]" d'] show ?thesis by (simp add: i_def)
qed

lemma typed_text_to_binary:
  assumes "t \<in> all_binary" "length s \<le> 2147483647" shows "typed env inp t (text_to_binary env s t inp)"
proof -
  define s' where "s' = strip_trailing (skip_0x s)"
  have "length (skip_0x s) \<le> length s" by (simp add: skip_0x_def)
  moreover have "length s' \<le> length (skip_0x s)"
    using length_dropWhile_le [of _ "rev (skip_0x s)"] by (simp add: s'_def strip_trailing_def)
  ultimately have "length s' \<le> 2147483647" using assms(2) by linarith
  then have "len \<le> 4294967295" if "tds_char2hex n s' = Inr (len, d)" for n len d
    using that by (auto simp: tds_char2hex_def Let_def split: option.splits if_splits)
  then have "len = length d" if "tds_char2hex 4294967295 s' = Inr (len, d)" for len d
    using that tds_char2hex_length [OF that] by simp
  then show ?thesis using assms(1) unfolding text_to_binary_def s'_def [symmetric] Let_def
    by (auto simp: result_ok_def dest: tds_char2hex_length split: sum.split)
qed

lemma typed_binary_source [simp]: "typed env inp t (tds_convert_binary env b t inp)"
proof -
  have "length (concat (map hex_byte b)) = 2 * length b" by (induction b) (simp_all add: hex_byte_def)
  then show ?thesis unfolding tds_convert_binary_def Let_def by (intro typed_if; auto simp: result_ok_def min_def)
qed

lemma typed_unique [simp]: "typed env inp t (tds_convert_unique env u t inp)"
  unfolding tds_convert_unique_def by (intro typed_if; simp add: result_ok_def)

lemma typed_to_unique [simp]: "typed env inp SYBUNIQUE (string_to_unique s)"
  unfolding string_to_unique_def Let_def by (auto simp: result_ok_def split: option.split)

lemma typed_to_money [simp]: "t \<in> {SYBMONEY, SYBMONEY4} \<Longrightarrow> typed env inp t (string_to_money s t)"
  unfolding string_to_money_def by (intro typed_rules; auto simp: result_ok_def)

lemma typed_to_float [simp]: "t \<in> {SYBFLT8, SYBREAL} \<Longrightarrow> typed env inp t (string_to_float env s t)"
  unfolding string_to_float_def Let_def by (intro typed_rules; auto simp: result_ok_def)

lemma typed_to_datetime [simp]:
  assumes "t \<in> {SYBDATETIME, SYBDATETIME4, SYBMSTIME, SYBMSDATE, SYBMSDATETIME2, SYBMSDATETIMEOFFSET, SYBTIME, SYBDATE,
                 SYB5BIGTIME, SYB5BIGDATETIME}"
  shows "typed env inp t (string_to_datetime env s t)"
  using assms unfolding string_to_datetime_def datetime_result_def Let_def
  by (intro typed_rules; auto simp: result_ok_def date_types_def)

lemma typed_char [simp]: "typed env inp t (tds_convert_char env s t inp)"
  unfolding tds_convert_char_def Let_def by (intro typed_rules; auto simp: result_ok_def)

subsection \<open>Dates\<close>

lemma typed_datetimeall [simp]: "typed env inp t (tds_convert_datetimeall env st dta t inp)"
  unfolding tds_convert_datetimeall_def Let_def by (intro typed_if; simp add: result_ok_def)

lemma typed_datetime [simp]: "typed env inp t (tds_convert_datetime env days time t p inp)"
  unfolding tds_convert_datetime_def by (intro typed_if; simp add: result_ok_def)

lemma typed_dates [simp]: "typed env inp t (tds_convert_dates env di t inp)"
  by (cases di) (simp_all add: tds_convert_dates_def tds_convert_datetime4_def tds_convert_date_def tds_convert_time_def
    tds_convert_bigtime_def tds_convert_bigdatetime_def result_ok_def)

subsection \<open>All conversions\<close>

lemma typed_fix_money: "typed env inp t r \<Longrightarrow> typed env inp t (fix_money t r)"
proof (cases r)
  case (Inr x)
  obtain len c where x: "x = (len, c)" by (cases x)
  assume "typed env inp t r"
  then show ?thesis unfolding Inr x by (cases c) (auto simp: fix_money_def result_ok_def)
qed (simp add: fix_money_def)

lemma typed_convert:
  assumes "\<And>r. src \<noteq> S_other r" "\<And>s. src = S_char s \<Longrightarrow> length s \<le> 2147483647"
  shows "typed env inp t (tds_convert env src raw t inp)"
proof (cases "t \<in> all_binary")
  case True
  then show ?thesis using assms
    by (cases src) (simp_all add: tds_convert_def tds_convert_to_binary_def typed_text_to_binary)
next
  case False
  show ?thesis
  proof (cases src)
    case (S_other r)
    with assms(1) show ?thesis by blast
  qed (use False in \<open>simp_all add: tds_convert_def typed_fix_money\<close>)
qed



end
