(* ===== verification/Spec2Isabelle.thy ===== *)
theory Spec2Isabelle
  imports Query_Text Wire_Link Generic_Roundtrip Query_State Row_Buffer Unique_Roundtrip Dates_Roundtrip Convert_Types
begin

text \<open>
  Verification of FreeTDS.

  FreeTDS implements the TDS protocol that Sybase and Microsoft SQL Server speak. Its core is the library libtds
  (\<open>src/tds\<close>): it cuts the protocol into packets and puts them together again (\<open>write.c\<close>, \<open>read.c\<close>, \<open>packet.c\<close>), puts
  the values of columns into them (\<open>data.c\<close>, \<open>stream.c\<close>), keeps the state of a session (\<open>util.c\<close>), edits the text of queries (\<open>query.c\<close>) and converts values between the data types
  (\<open>convert.c\<close>, \<open>numeric.c\<close>). Three client libraries sit on top of it: DB-Library (\<open>src/dblib\<close>), CT-Library
  (\<open>src/ctlib\<close>) and ODBC (\<open>src/odbc\<close>). The development models these parts of libtds and the row buffer of DB-Library.

  \<^bold>\<open>Theories and sources.\<close>

  \<^item> \<open>Prelude\<close>, \<open>Bytes\<close>, \<open>Radix\<close>: the vocabulary. C strings and pointers into them, decimal numerals, \<open>memcpy\<close> into a
    buffer (\<open>write_at\<close>), the byte order macros of \<open>include/freetds/bytes.h\<close>, numbers as lists of digits in a base.
  \<^item> \<open>Query_Text\<close>: the scanners and quoting functions of \<open>query.c\<close>. A quoted text is one token, quoting is injective, the
    scanners for both encodings agree, and \<open>tds5_fix_dot_query\<close> renames exactly the placeholders.
  \<^item> \<open>Wire_Out\<close>: the output half of the packet layer, \<open>write.c\<close> and the send side of \<open>packet.c\<close> with the packet allocation of
    \<open>mem.c\<close>. The state is the chain of packets that starts at \<open>frozen_packets\<close> and ends with \<open>send_packet\<close>. The
    specification is a byte stream (\<open>stream\<close>): every writer appends its bytes, whatever the packet boundaries. The locale
    \<open>byte_sink\<close> states this contract and is interpreted on \<open>tds_put_n\<close>. The invariant \<open>out_inv\<close> fixes the lengths of the
    buffers, and since a store outside of a buffer would make its list longer, it includes memory safety.
  \<^item> \<open>Freeze\<close>: \<open>tds_freeze\<close>, \<open>tds_freeze_close\<close> and \<open>tds_freeze_abort\<close> of \<open>packet.c\<close>, which store the length of data in
    front of it after it has been written. They refine a stream of bytes with insertion and truncation.
  \<^item> \<open>Wire_In\<close>: the input half, \<open>read.c\<close>, \<open>tds_read_packet\<close>. The connection is a list
    of chunks, and the results do not depend on how the bytes are chunked.
  \<^item> \<open>Wire_Link\<close>: both halves together. What one side writes and flushes the other side reads.
  \<^item> \<open>Streams\<close>: the streams of \<open>stream.c\<close> and of \<open>data.c\<close> and \<open>tds_copy_stream\<close>. The locales \<open>in_stream\<close> and \<open>out_stream\<close> are the
    contract of \<open>stream.h\<close>, \<open>stream_copy\<close> joins them; each stream of the library is an interpretation, and the copy is proved once.
  \<^item> \<open>Columns\<close>, \<open>Columns_Generic\<close>, \<open>Columns_Roundtrip\<close>, \<open>Generic_Roundtrip\<close>: \<open>data.c\<close> with \<open>tds_fix_column_size\<close> of
    \<open>query.c\<close>, the values of columns on the wire. The format of each kind of value is a byte list (\<open>numeric_wire\<close>,
    \<open>msdatetime_wire\<close>, \<open>value_wire\<close>, \<open>null_wire\<close>); the writers append it to the stream of \<open>Wire_Out\<close> and the readers, on the input of
    \<open>Wire_In\<close> (\<open>incoming\<close>), give the value back. No input makes a reader store outside its column.
  \<^item> \<open>Query_State\<close>: \<open>tds_set_state\<close> and \<open>tdserror\<close> of \<open>util.c\<close>; the allowed transitions, the wire mutex as an invariant of
    all histories.
  \<^item> \<open>Row_Buffer\<close>: \<open>buffering.h\<close> and the functions of \<open>dblib.c\<close> on it. The ring refines a bounded queue of rows (the locale
    \<open>row_queue\<close>, interpreted on \<open>receive_row\<close>).
  \<^item> \<open>Numeric\<close>, \<open>Rescale\<close>, \<open>Rescale_Correct\<close>, \<open>Parse_Number\<close>: exact numbers, \<open>numeric.c\<close> and the number parsers of
    \<open>convert.c\<close>. The multi-word arithmetic is related to one natural number (\<open>le_val\<close>, \<open>be_val\<close>); printing, parsing and
    rescaling are exact or report an overflow.
  \<^item> \<open>Calendar\<close>, \<open>Calendar_Correct\<close>, \<open>Date_Parse\<close>, \<open>Convert_Dates\<close>, \<open>Dates_Correct\<close>, \<open>Dates_Roundtrip\<close>: dates,
    \<open>tds_datecrack\<close>, \<open>string_to_datetime\<close>, \<open>tds_strftime\<close> and the conversions of the date types of \<open>convert.c\<close>. The
    specification is the Gregorian calendar as day numbers (\<open>valid_date\<close>, \<open>day_number\<close>).
  \<^item> \<open>Convert\<close>, \<open>Convert_Text\<close>, \<open>Convert_Correct\<close>, \<open>Convert_Roundtrip\<close>, \<open>Unique_Roundtrip\<close>, \<open>Convert_Types\<close>: \<open>tds_convert\<close>
    with its dispatch, on the numbers and dates above. \<open>source\<close> is the source type with its data, \<open>cr\<close> the member of
    \<open>CONV_RESULT\<close> that is set, an error code is the left side of the result.

  \<^bold>\<open>How the code is represented.\<close> A C function is a HOL function that takes the state and returns the new one. A pointer into
  a text is the rest of the text; a pointer into a chain of packets is an index. Errors and early returns are values
  (\<open>option\<close>, \<open>tdsret\<close>, a sum). Integers have their width where an overflow can happen, as words or as numbers with the
  wrap-around written out; an overflow of a signed number, undefined in C, wraps around, as with \<open>-fwrapv\<close>. A
  failed assertion of the code and a loop that does not end are \<open>None\<close>. The writers take enough fuel or recurse on a
  measure, and the theorems say that they return; \<open>tds_put_n\<close> is a partial function since it does not
  return when no packet can be allocated while data is frozen, and \<open>tds_copy_stream\<close> since it runs as long as its reader delivers; it is
  proved to return for every stream of the library.

  \<^bold>\<open>Parameters.\<close> Code that is not in the sources is an argument: \<open>env\<close> in the packet layer (\<open>malloc\<close>, the results of the
  network), \<open>col_env\<close> for columns (the generated tables of types, the collation, the heap), \<open>conv_env\<close> in the conversions (\<open>malloc\<close>, \<open>strtod\<close>, the generated size table and tables of limits, which have to
  satisfy \<open>limits_ok\<close>, the date formats of the configuration, the specifications of \<open>strftime\<close> that depend on the
  locale). The configuration is the one without MARS, on a little endian machine, with 128-bit products where the
  compiler has them (the other division is proved to give the same quotient).

  \<^bold>\<open>Not modelled.\<close> The functions of \<open>query.c\<close> that submit requests, \<open>token.c\<close> and \<open>bulk.c\<close> (the grammar of the
  protocol above the packets), of \<open>data.c\<close> the columns with character conversion, the metadata of generic columns, variants, user
  defined types and table parameters, \<open>login.c\<close>, \<open>challenge.c\<close> and the hash functions of \<open>src/utils\<close> (authentication), \<open>iconv.c\<close>,
  \<open>config.c\<close>, \<open>locale.c\<close>, the rest of \<open>mem.c\<close>, and of the client libraries everything but the row buffer. \<open>net.c\<close>, \<open>tls.c\<close>,
  \<open>gssapi.c\<close> and \<open>sspi.c\<close> call the operating system and other libraries. Conversions from floating point numbers
  depend on the rounding of the machine; a conversion to one is kept symbolic (\<open>fp\<close>).
\<close>

end
